(* ===== verification/Quai_Prelude.thy ===== *)
theory Quai_Prelude
  imports Main "HOL-Library.Word" "HOL-Library.Multiset"
begin

text \<open>
  Shared vocabulary of the development: the machine integers of the Rust sources as words,
  \<open>Result\<close> values as a sum type with the operators the sources apply to them (the question
  mark, \<open>ok_or\<close>, \<open>map_err\<close>), checked arithmetic, big-endian byte strings, the string
  operations of the Rust standard library that the parsers use, and the two interfaces
  (\<open>finite_code\<close>, \<open>partial_codec\<close>) that several components implement.
\<close>

section \<open>Types\<close>

type_synonym u8 = "8 word"
type_synonym u16 = "16 word"
type_synonym u32 = "32 word"
type_synonym u64 = "64 word"
type_synonym u256 = "256 word"
type_synonym u512 = "512 word"
type_synonym u1024 = "1024 word"
type_synonym bytes = "u8 list"
type_synonym ('a, 'e) result = "'e + 'a"

named_theorems result_simps \<open>elimination of the result operators in equations\<close>
named_theorems byte_simps \<open>big-endian byte strings\<close>
named_theorems checked_simps \<open>checked machine arithmetic\<close>

section \<open>Results\<close>

abbreviation Ok :: "'a \<Rightarrow> ('a, 'e) result" where
  "Ok \<equiv> Inr"

abbreviation Err :: "'e \<Rightarrow> ('a, 'e) result" where
  "Err \<equiv> Inl"

text \<open>The question mark: stop at the first error, otherwise go on with the value.\<close>

definition rbind :: "('a, 'e) result \<Rightarrow> ('a \<Rightarrow> ('b, 'e) result) \<Rightarrow> ('b, 'e) result" where
  "rbind r f = (case r of Inl e \<Rightarrow> Inl e | Inr x \<Rightarrow> f x)"

definition ok_or :: "'a option \<Rightarrow> 'e \<Rightarrow> ('a, 'e) result" where
  "ok_or x e = (case x of None \<Rightarrow> Err e | Some v \<Rightarrow> Ok v)"

definition map_err :: "('e \<Rightarrow> 'f) \<Rightarrow> ('a, 'e) result \<Rightarrow> ('a, 'f) result" where
  "map_err f r = (case r of Inl e \<Rightarrow> Inl (f e) | Inr x \<Rightarrow> Inr x)"

definition result_ok :: "('a, 'e) result \<Rightarrow> 'a option" where
  "result_ok r = (case r of Inl _ \<Rightarrow> None | Inr x \<Rightarrow> Some x)"

definition is_ok :: "('a, 'e) result \<Rightarrow> bool" where
  "is_ok r = (case r of Inl _ \<Rightarrow> False | Inr _ \<Rightarrow> True)"

text \<open>\<open>Iterator::try_fold\<close> and \<open>collect::<Result<Vec<_>, _>>\<close>.\<close>

primrec try_fold :: "('s \<Rightarrow> 'a \<Rightarrow> ('s, 'e) result) \<Rightarrow> 's \<Rightarrow> 'a list \<Rightarrow> ('s, 'e) result" where
  "try_fold f s [] = Ok s"
| "try_fold f s (x # xs) = rbind (f s x) (\<lambda>s'. try_fold f s' xs)"

primrec try_map :: "('a \<Rightarrow> ('b, 'e) result) \<Rightarrow> 'a list \<Rightarrow> ('b list, 'e) result" where
  "try_map f [] = Ok []"
| "try_map f (x # xs) = rbind (f x) (\<lambda>y. rbind (try_map f xs) (\<lambda>ys. Ok (y # ys)))"

lemma rbind_Inr [simp]: "rbind (Inr x) f = f x"
  by (simp add: rbind_def)

lemma rbind_Inl [simp]: "rbind (Inl e) f = Inl e"
  by (simp add: rbind_def)

lemma rbind_eq_Ok [result_simps]: "rbind r f = Inr y \<longleftrightarrow> (\<exists>x. r = Inr x \<and> f x = Inr y)"
  by (cases r) (auto simp: rbind_def)

lemma rbind_eq_Err [result_simps]:
  "rbind r f = Inl e \<longleftrightarrow> r = Inl e \<or> (\<exists>x. r = Inr x \<and> f x = Inl e)"
  by (cases r) (auto simp: rbind_def)

lemma rbind_cong [fundef_cong]:
  "r = r' \<Longrightarrow> (\<And>x. r' = Inr x \<Longrightarrow> f x = g x) \<Longrightarrow> rbind r f = rbind r' g"
  by (cases r') (auto simp: rbind_def)

lemma ok_or_simps [simp]: "ok_or None e = Inl e" "ok_or (Some v) e = Inr v"
  by (simp_all add: ok_or_def)

lemma ok_or_eq [result_simps]:
  "ok_or x e = Inr v \<longleftrightarrow> x = Some v"
  "ok_or x e = Inl e' \<longleftrightarrow> x = None \<and> e' = e"
  by (auto simp: ok_or_def split: option.splits)

lemma map_err_simps [simp]: "map_err f (Inl e) = Inl (f e)" "map_err f (Inr x) = Inr x"
  by (simp_all add: map_err_def)

lemma map_err_eq [result_simps]:
  "map_err f r = Inr v \<longleftrightarrow> r = Inr v"
  "map_err f r = Inl e' \<longleftrightarrow> (\<exists>e. r = Inl e \<and> e' = f e)"
  by (auto simp: map_err_def split: sum.splits)

lemma result_ok_simps [simp]: "result_ok (Inl e) = None" "result_ok (Inr x) = Some x"
  by (simp_all add: result_ok_def)

lemma result_ok_eq [result_simps]:
  "result_ok r = Some v \<longleftrightarrow> r = Inr v"
  "result_ok r = None \<longleftrightarrow> (\<exists>e. r = Inl e)"
  by (auto simp: result_ok_def split: sum.splits)

lemma is_ok_simps [simp]: "is_ok (Inl e) = False" "is_ok (Inr x) = True"
  by (simp_all add: is_ok_def)

lemma is_ok_iff [result_simps]: "is_ok r \<longleftrightarrow> (\<exists>x. r = Inr x)"
  by (cases r) auto

lemma if_eq_Ok [result_simps]:
  "(if b then Inl e else r) = Inr y \<longleftrightarrow> \<not> b \<and> r = Inr y"
  by auto

lemma try_fold_append:
  "try_fold f s (xs @ ys) = rbind (try_fold f s xs) (\<lambda>s'. try_fold f s' ys)"
proof (induction xs arbitrary: s)
  case (Cons x xs)
  then show ?case by (cases "f s x") auto
qed simp

lemma try_fold_invariant:
  assumes "try_fold f s xs = Inr t" and "P s"
    and "\<And>s x s'. x \<in> set xs \<Longrightarrow> P s \<Longrightarrow> f s x = Inr s' \<Longrightarrow> P s'"
  shows "P t"
  using assms
proof (induction xs arbitrary: s)
  case (Cons x xs)
  from Cons.prems(1) obtain s' where s': "f s x = Inr s'" "try_fold f s' xs = Inr t"
    by (auto simp: result_simps)
  moreover have "P s'"
    using Cons.prems(2,3) s'(1) by auto
  ultimately show ?case
    using Cons.IH Cons.prems(3) by (meson list.set_intros(2))
qed simp

lemma try_map_Ok_iff:
  "try_map f xs = Inr ys \<longleftrightarrow> list_all2 (\<lambda>x y. f x = Inr y) xs ys"
proof (induction xs arbitrary: ys)
  case (Cons x xs)
  then show ?case by (auto simp: result_simps list_all2_Cons1)
qed auto

lemma try_map_map_id:
  "(\<And>x. x \<in> set xs \<Longrightarrow> f (g x) = Inr x) \<Longrightarrow> try_map f (map g xs) = Inr xs"
  by (induction xs) auto

section \<open>Checked machine arithmetic\<close>

definition checked_add :: "'a::len word \<Rightarrow> 'a word \<Rightarrow> 'a word option" where
  "checked_add x y = (if unat x + unat y < 2 ^ LENGTH('a) then Some (x + y) else None)"

definition checked_sub :: "'a::len word \<Rightarrow> 'a word \<Rightarrow> 'a word option" where
  "checked_sub x y = (if y \<le> x then Some (x - y) else None)"

definition checked_mul :: "'a::len word \<Rightarrow> 'a word \<Rightarrow> 'a word option" where
  "checked_mul x y = (if unat x * unat y < 2 ^ LENGTH('a) then Some (x * y) else None)"

lemma unat_of_nat_small: "n < 2 ^ LENGTH('a) \<Longrightarrow> unat (word_of_nat n :: 'a::len word) = n"
  by (simp add: unat_of_nat)

lemma unat_add_exact:
  fixes x y :: "'a::len word"
  assumes "unat x + unat y < 2 ^ LENGTH('a)"
  shows "unat (x + y) = unat x + unat y"
  using assms by (simp add: unat_word_ariths)

lemma unat_mul_exact:
  fixes x y :: "'a::len word"
  assumes "unat x * unat y < 2 ^ LENGTH('a)"
  shows "unat (x * y) = unat x * unat y"
  using assms by (simp add: unat_word_ariths)

lemma unat_sub_exact:
  fixes x y :: "'a::len word"
  assumes "y \<le> x"
  shows "unat (x - y) = unat x - unat y"
  using assms by (simp add: unat_sub)

lemma checked_add_Some [checked_simps]:
  "checked_add x y = Some z \<longleftrightarrow> unat z = unat x + unat y"
  for x y z :: "'a::len word"
proof (cases "unat x + unat y < 2 ^ LENGTH('a)")
  case True
  then show ?thesis
    by (auto simp: checked_add_def word_unat_eq_iff unat_add_exact)
next
  case False
  moreover from this have "unat z \<noteq> unat x + unat y"
    by (metis unsigned_less)
  ultimately show ?thesis
    by (simp add: checked_add_def)
qed

lemma checked_add_None [checked_simps]:
  "checked_add x y = None \<longleftrightarrow> 2 ^ LENGTH('a) \<le> unat x + unat y"
  for x y :: "'a::len word"
  by (simp add: checked_add_def not_less)

lemma checked_mul_Some [checked_simps]:
  "checked_mul x y = Some z \<longleftrightarrow> unat z = unat x * unat y"
  for x y z :: "'a::len word"
proof (cases "unat x * unat y < 2 ^ LENGTH('a)")
  case True
  then show ?thesis
    by (auto simp: checked_mul_def word_unat_eq_iff unat_mul_exact)
next
  case False
  moreover from this have "unat z \<noteq> unat x * unat y"
    by (metis unsigned_less)
  ultimately show ?thesis
    by (simp add: checked_mul_def)
qed

lemma checked_mul_None [checked_simps]:
  "checked_mul x y = None \<longleftrightarrow> 2 ^ LENGTH('a) \<le> unat x * unat y"
  for x y :: "'a::len word"
  by (simp add: checked_mul_def not_less)

lemma checked_sub_Some [checked_simps]:
  "checked_sub x y = Some z \<longleftrightarrow> y \<le> x \<and> unat z = unat x - unat y"
  for x y z :: "'a::len word"
  by (auto simp: checked_sub_def unat_sub_exact word_unat_eq_iff)

lemma checked_sub_None [checked_simps]:
  "checked_sub x y = None \<longleftrightarrow> x < y"
  by (auto simp: checked_sub_def)

text \<open>A value of one width read at another, when it fits.\<close>

definition checked_cast :: "'a::len word \<Rightarrow> 'b::len word option" where
  "checked_cast x = (if unat x < 2 ^ LENGTH('b) then Some (ucast x) else None)"

lemma checked_cast_Some [checked_simps]:
  "checked_cast x = Some y \<longleftrightarrow> unat y = unat x"
  for x :: "'a::len word" and y :: "'b::len word"
proof (cases "unat x < 2 ^ LENGTH('b)")
  case True
  then have "unat (ucast x :: 'b word) = unat x"
    by (simp add: unsigned_ucast_eq take_bit_nat_eq_self_iff)
  then show ?thesis
    using True by (auto simp: checked_cast_def word_unat_eq_iff)
next
  case False
  moreover from this have "unat y \<noteq> unat x"
    by (metis unsigned_less)
  ultimately show ?thesis by (simp add: checked_cast_def)
qed

lemma checked_cast_None [checked_simps]:
  "(checked_cast x :: 'b::len word option) = None \<longleftrightarrow> 2 ^ LENGTH('b) \<le> unat x"
  by (simp add: checked_cast_def not_less)

lemma unat_ucast_up:
  "LENGTH('a) \<le> LENGTH('b) \<Longrightarrow> unat (ucast x :: 'b::len word) = unat x" for x :: "'a::len word"
  by (simp add: unsigned_ucast_eq take_bit_nat_eq_self_iff less_le_trans [OF unsigned_less])

text \<open>\<open>checked_add\<close> and \<open>checked_mul\<close> at \<open>usize\<close>, which has 64 bits.\<close>

definition usize_add :: "nat \<Rightarrow> nat \<Rightarrow> nat option" where
  "usize_add a b = (if a + b < 2 ^ 64 then Some (a + b) else None)"

definition usize_mul :: "nat \<Rightarrow> nat \<Rightarrow> nat option" where
  "usize_mul a b = (if a * b < 2 ^ 64 then Some (a * b) else None)"

section \<open>Big-endian byte strings\<close>

definition be_nat :: "bytes \<Rightarrow> nat" where
  "be_nat bs = foldl (\<lambda>a b. a * 256 + unat b) 0 bs"

primrec to_be :: "nat \<Rightarrow> nat \<Rightarrow> bytes" where
  "to_be 0 v = []"
| "to_be (Suc n) v = to_be n (v div 256) @ [word_of_nat (v mod 256)]"

lemma foldl_be_start:
  "foldl (\<lambda>a b. a * 256 + unat (b :: u8)) s bs = s * 256 ^ length bs + be_nat bs"
proof (induction bs arbitrary: s)
  case (Cons b bs)
  show ?case
    using Cons [of "s * 256 + unat b"] Cons [of "unat b"]
    by (simp add: be_nat_def algebra_simps)
qed (simp add: be_nat_def)

lemma be_nat_Nil [simp]: "be_nat [] = 0"
  by (simp add: be_nat_def)

lemma be_nat_Cons: "be_nat (b # bs) = unat b * 256 ^ length bs + be_nat bs"
  using foldl_be_start [of "unat b" bs] by (simp add: be_nat_def)

lemma be_nat_append: "be_nat (xs @ ys) = be_nat xs * 256 ^ length ys + be_nat ys"
  using foldl_be_start [of "be_nat xs" ys] by (simp add: be_nat_def)

lemma be_nat_snoc [simp]: "be_nat (xs @ [b]) = be_nat xs * 256 + unat b"
  by (simp add: be_nat_append be_nat_Cons)

lemma be_nat_replicate_0 [simp]: "be_nat (replicate n 0) = 0"
  by (induction n) (auto simp: be_nat_Cons)

lemma be_nat_pad_left [byte_simps]: "be_nat (replicate n 0 @ bs) = be_nat bs"
  by (simp add: be_nat_append)

lemma byte_lt [simp]: "unat (b :: u8) < 256"
  using unsigned_less [where ?'a = nat, of b] by simp

lemma be_nat_lt: "be_nat bs < 256 ^ length bs"
proof (induction bs rule: rev_induct)
  case (snoc b bs)
  then have "Suc (be_nat bs) * 256 \<le> 256 ^ length bs * 256"
    by (intro mult_right_mono) auto
  then have "be_nat bs * 256 + unat b < 256 ^ length bs * 256"
    using byte_lt [of b] unfolding mult_Suc by linarith
  then show ?case
    by (simp add: mult.commute)
qed simp

lemma length_to_be [simp]: "length (to_be n v) = n"
  by (induction n arbitrary: v) auto

lemma unat_byte_of_nat: "unat (word_of_nat n :: u8) = n mod 256"
  by (simp add: unat_of_nat)

lemma be_nat_to_be [byte_simps]: "be_nat (to_be n v) = v mod 256 ^ n"
proof (induction n arbitrary: v)
  case (Suc n)
  have "v mod 256 ^ Suc n = (v div 256) mod 256 ^ n * 256 + v mod 256"
    using mod_mult2_eq [of v 256 "256 ^ n"] by (simp add: mult.commute)
  then show ?case
    by (simp add: Suc.IH unat_byte_of_nat)
qed simp

lemma be_nat_to_be_id: "v < 256 ^ n \<Longrightarrow> be_nat (to_be n v) = v"
  by (simp add: be_nat_to_be)

lemma to_be_be_nat [byte_simps]: "to_be (length bs) (be_nat bs) = bs"
proof (induction bs rule: rev_induct)
  case (snoc b bs)
  have "(be_nat bs * 256 + unat b) div 256 = be_nat bs"
    "(be_nat bs * 256 + unat b) mod 256 = unat b"
    using byte_lt [of b] by simp_all
  then show ?case
    using snoc by simp
qed simp

lemma be_nat_inject: "length xs = length ys \<Longrightarrow> be_nat xs = be_nat ys \<Longrightarrow> xs = ys"
  by (metis to_be_be_nat)

lemma to_be_word_inject:
  fixes x y :: "'a::len word"
  assumes "LENGTH('a) = 8 * n"
  shows "to_be n (unat x) = to_be n (unat y) \<longleftrightarrow> x = y"
proof -
  have "unat w < 256 ^ n" for w :: "'a word"
    using assms unsigned_less [of w] by (simp add: power_mult)
  then show ?thesis
    by (metis be_nat_to_be_id word_unat_eq_iff)
qed

lemma pow_256_bits: "256 ^ n = (2::nat) ^ (8 * n)"
  by (simp add: power_mult)

lemma dropWhile_zeros: "\<exists>n. bs = replicate n 0 @ dropWhile (\<lambda>b. b = 0) (bs :: bytes)"
proof (induction bs)
  case (Cons b bs)
  then obtain n where n: "bs = replicate n 0 @ dropWhile (\<lambda>b. b = 0) bs" by blast
  show ?case
  proof (cases "b = 0")
    case True
    then have "b # bs = replicate (Suc n) 0 @ dropWhile (\<lambda>b. b = 0) (b # bs)"
      using n by simp
    then show ?thesis by blast
  qed (auto intro: exI [of _ 0])
qed simp

lemma be_nat_dropWhile [simp]: "be_nat (dropWhile (\<lambda>b. b = 0) bs) = be_nat bs"
  using dropWhile_zeros [of bs] by (metis be_nat_pad_left)

lemma u256_be: "unat (n :: u256) < 256 ^ 32"
  using unsigned_less [of n, where ?'a = nat] by (simp del: unsigned_less)

section \<open>Strings\<close>

text \<open>
  A Rust \<open>&str\<close> is the byte string of its UTF-8 encoding; it is modelled by Isabelle's
  \<open>string\<close>, whose characters are exactly the 256 byte values.
\<close>

definition char_byte :: "char \<Rightarrow> u8" where
  "char_byte c = word_of_nat (of_char c)"

definition byte_char :: "u8 \<Rightarrow> char" where
  "byte_char b = char_of (unat b)"

definition as_bytes :: "string \<Rightarrow> bytes" where
  "as_bytes = map char_byte"

definition strip_prefix :: "'a list \<Rightarrow> 'a list \<Rightarrow> 'a list option" where
  "strip_prefix p s = (if take (length p) s = p then Some (drop (length p) s) else None)"

fun split_once :: "'a \<Rightarrow> 'a list \<Rightarrow> ('a list \<times> 'a list) option" where
  "split_once d [] = None"
| "split_once d (c # cs) =
     (if c = d then Some ([], cs)
      else map_option (\<lambda>(l, r). (c # l, r)) (split_once d cs))"

lemma strip_prefix_append [simp]: "strip_prefix p (p @ s) = Some s"
  by (simp add: strip_prefix_def)

lemma strip_prefix_Some: "strip_prefix p s = Some t \<longleftrightarrow> s = p @ t"
  by (auto simp: strip_prefix_def) (metis append_take_drop_id)

lemma split_once_Some:
  "split_once d s = Some (l, r) \<longleftrightarrow> s = l @ d # r \<and> d \<notin> set l"
proof (induction s arbitrary: l)
  case (Cons c cs)
  show ?case
  proof (cases "c = d")
    case True
    then show ?thesis
      by (cases l) auto
  next
    case False
    then show ?thesis
      using Cons by (cases l) auto
  qed
qed simp

lemma split_once_None: "split_once d s = None \<longleftrightarrow> d \<notin> set s"
  by (induction s) auto

lemma length_as_bytes [simp]: "length (as_bytes s) = length s"
  by (simp add: as_bytes_def)

lemma as_bytes_append [simp]: "as_bytes (s @ t) = as_bytes s @ as_bytes t"
  by (simp add: as_bytes_def)

section \<open>Evaluation on numerals\<close>

named_theorems list_eval \<open>list operations at numeral positions\<close>

lemma replicate_numeral [list_eval]: "replicate (numeral n) x = x # replicate (pred_numeral n) x"
  by (simp add: numeral_eq_Suc)

lemma list_update_numeral [list_eval]: "(x # xs)[numeral n := y] = x # xs[pred_numeral n := y]"
  by (simp add: numeral_eq_Suc)

lemma upt_numerals [list_eval]:
  "[0..<numeral n] = (if 0 < (numeral n :: nat) then 0 # [Suc 0..<numeral n] else [])"
  "[Suc 0..<numeral n] = (if Suc 0 < numeral n then Suc 0 # [2..<numeral n] else [])"
  by (simp_all add: upt_rec [of 0] upt_rec [of "Suc 0"] numeral_2_eq_2)

section \<open>Interfaces shared by the components\<close>

text \<open>
  A closed enumeration with one code per member: \<open>enc\<close> writes a member, \<open>dec\<close> reads it
  back and accepts nothing else.
\<close>

locale finite_code =
  fixes members :: "'a list"
    and enc :: "'a \<Rightarrow> 'b"
    and dec :: "'b \<Rightarrow> ('a, 'e) result"
  assumes members_complete: "x \<in> set members"
    and dec_enc: "dec (enc x) = Inr x"
    and enc_dec: "dec b = Inr x \<Longrightarrow> enc x = b"
begin

lemma dec_Ok_iff: "dec b = Inr x \<longleftrightarrow> b = enc x"
  using dec_enc enc_dec by blast

lemma enc_inject: "enc x = enc y \<longleftrightarrow> x = y"
  by (metis dec_enc sum.inject(2))

lemma dec_Err_iff: "(\<exists>e. dec b = Inl e) \<longleftrightarrow> b \<notin> enc ` set members"
  by (cases "dec b") (use members_complete dec_Ok_iff in \<open>force+\<close>)

lemma distinct_codes: "distinct members \<Longrightarrow> distinct (map enc members)"
  by (simp add: distinct_map inj_on_def enc_inject)

end

text \<open>
  A codec with a validity domain: decoding an encoded valid value gives it back, and what is
  accepted is valid and is exactly the encoding of the decoded value (canonicity).
\<close>

locale partial_codec =
  fixes valid :: "'a \<Rightarrow> bool"
    and enc :: "'a \<Rightarrow> 'b"
    and dec :: "'b \<Rightarrow> ('a, 'e) result"
  assumes codec_roundtrip: "valid x \<Longrightarrow> dec (enc x) = Inr x"
    and codec_canonical: "dec b = Inr x \<Longrightarrow> valid x \<and> enc x = b"
begin

lemma codec_Ok_iff: "dec b = Inr x \<longleftrightarrow> valid x \<and> b = enc x"
  using codec_roundtrip codec_canonical by blast

lemma codec_inject: "valid x \<Longrightarrow> valid y \<Longrightarrow> enc x = enc y \<longleftrightarrow> x = y"
  by (metis codec_roundtrip sum.inject(2))

lemma codec_dec_inject: "dec b = Inr x \<Longrightarrow> dec c = Inr x \<Longrightarrow> b = c"
  using codec_canonical by metis

lemma codec_list: "try_map dec bs = Inr xs \<longleftrightarrow> list_all valid xs \<and> bs = map enc xs"
proof (induction bs arbitrary: xs)
  case (Cons b bs)
  then show ?case by (cases xs) (auto simp: result_simps codec_Ok_iff)
qed auto

end

text \<open>A parser of labels: a member is recognised by exactly the labels listed for it.\<close>

locale label_code =
  fixes labels :: "'a \<Rightarrow> string list"
    and parse :: "string \<Rightarrow> ('a, 'e) result"
    and error :: 'e
  assumes parse_iff: "parse s = Inr x \<longleftrightarrow> s \<in> set (labels x)"
    and parse_error: "parse s = Inl e \<Longrightarrow> e = error"
begin

lemma labels_disjoint: "s \<in> set (labels x) \<Longrightarrow> s \<in> set (labels y) \<Longrightarrow> x = y"
  by (metis parse_iff sum.inject(2))

lemma parse_total: "parse s = Inl error \<or> (\<exists>x. s \<in> set (labels x) \<and> parse s = Inr x)"
  by (cases "parse s") (use parse_iff parse_error in auto)

end

end
