(* ===== verification/Shard.thy ===== *)
theory Shard
  imports Quai_Prelude
begin

text \<open>
  The shard hierarchy of \<open>quai-primitives/src/shard.rs\<close>: regions, zones and shards with their
  byte codes, published labels and parsers. The byte code of a zone is an instance of
  \<open>finite_code\<close>; the string parsers are instances of \<open>label_code\<close>.
\<close>

section \<open>Data\<close>

record shard_metadata =
  sm_name :: string
  sm_nickname :: string
  sm_shard :: string
  sm_context :: u8
  sm_byte :: string

datatype shard_error = UnknownZone u8 | UnknownRegion u8 | InvalidIdentifier

datatype region = Cyprus | Paxos | Hydra

datatype zone =
    Cyprus1 | Cyprus2 | Cyprus3
  | Paxos1 | Paxos2 | Paxos3
  | Hydra1 | Hydra2 | Hydra3

datatype shard = Prime | Region_shard region | Zone_shard zone

section \<open>Regions\<close>

definition region_all :: "region list" where
  "region_all = [Cyprus, Paxos, Hydra]"

definition region_from_index :: "u8 \<Rightarrow> (region, shard_error) result" where
  "region_from_index index =
     (if index = 0 then Ok Cyprus
      else if index = 1 then Ok Paxos
      else if index = 2 then Ok Hydra
      else Err (UnknownRegion index))"

fun region_index :: "region \<Rightarrow> u8" where
  "region_index Cyprus = 0"
| "region_index Paxos = 1"
| "region_index Hydra = 2"

fun region_nickname :: "region \<Rightarrow> string" where
  "region_nickname Cyprus = ''cyprus''"
| "region_nickname Paxos = ''paxos''"
| "region_nickname Hydra = ''hydra''"

fun region_encoded :: "region \<Rightarrow> string" where
  "region_encoded Cyprus = ''0x0''"
| "region_encoded Paxos = ''0x1''"
| "region_encoded Hydra = ''0x2''"

definition region_from_str :: "string \<Rightarrow> (region, shard_error) result" where
  "region_from_str value =
     (if value \<in> {''Cyprus'', ''cyprus'', ''region-0'', ''0x0''} then Ok Cyprus
      else if value \<in> {''Paxos'', ''paxos'', ''region-1'', ''0x1''} then Ok Paxos
      else if value \<in> {''Hydra'', ''hydra'', ''region-2'', ''0x2''} then Ok Hydra
      else Err InvalidIdentifier)"

section \<open>Zones\<close>

definition zone_all :: "zone list" where
  "zone_all = [Cyprus1, Cyprus2, Cyprus3, Paxos1, Paxos2, Paxos3, Hydra1, Hydra2, Hydra3]"

definition zone_from_byte :: "u8 \<Rightarrow> (zone, shard_error) result" where
  "zone_from_byte b =
     (if b = 0x00 then Ok Cyprus1
      else if b = 0x01 then Ok Cyprus2
      else if b = 0x02 then Ok Cyprus3
      else if b = 0x10 then Ok Paxos1
      else if b = 0x11 then Ok Paxos2
      else if b = 0x12 then Ok Paxos3
      else if b = 0x20 then Ok Hydra1
      else if b = 0x21 then Ok Hydra2
      else if b = 0x22 then Ok Hydra3
      else Err (UnknownZone b))"

fun zone_byte :: "zone \<Rightarrow> u8" where
  "zone_byte Cyprus1 = 0x00"
| "zone_byte Cyprus2 = 0x01"
| "zone_byte Cyprus3 = 0x02"
| "zone_byte Paxos1 = 0x10"
| "zone_byte Paxos2 = 0x11"
| "zone_byte Paxos3 = 0x12"
| "zone_byte Hydra1 = 0x20"
| "zone_byte Hydra2 = 0x21"
| "zone_byte Hydra3 = 0x22"

fun zone_nickname :: "zone \<Rightarrow> string" where
  "zone_nickname Cyprus1 = ''cyprus1''"
| "zone_nickname Cyprus2 = ''cyprus2''"
| "zone_nickname Cyprus3 = ''cyprus3''"
| "zone_nickname Paxos1 = ''paxos1''"
| "zone_nickname Paxos2 = ''paxos2''"
| "zone_nickname Paxos3 = ''paxos3''"
| "zone_nickname Hydra1 = ''hydra1''"
| "zone_nickname Hydra2 = ''hydra2''"
| "zone_nickname Hydra3 = ''hydra3''"

fun zone_encoded :: "zone \<Rightarrow> string" where
  "zone_encoded Cyprus1 = ''0x00''"
| "zone_encoded Cyprus2 = ''0x01''"
| "zone_encoded Cyprus3 = ''0x02''"
| "zone_encoded Paxos1 = ''0x10''"
| "zone_encoded Paxos2 = ''0x11''"
| "zone_encoded Paxos3 = ''0x12''"
| "zone_encoded Hydra1 = ''0x20''"
| "zone_encoded Hydra2 = ''0x21''"
| "zone_encoded Hydra3 = ''0x22''"

fun zone_region :: "zone \<Rightarrow> region" where
  "zone_region Cyprus1 = Cyprus"
| "zone_region Cyprus2 = Cyprus"
| "zone_region Cyprus3 = Cyprus"
| "zone_region Paxos1 = Paxos"
| "zone_region Paxos2 = Paxos"
| "zone_region Paxos3 = Paxos"
| "zone_region Hydra1 = Hydra"
| "zone_region Hydra2 = Hydra"
| "zone_region Hydra3 = Hydra"

unbundle bit_operations_syntax

definition zone_index :: "zone \<Rightarrow> u8" where
  "zone_index z = zone_byte z AND 0x0f"

definition zone_from_str :: "string \<Rightarrow> (zone, shard_error) result" where
  "zone_from_str value =
     (if value \<in> {''Cyprus One'', ''cyprus1'', ''zone-0-0'', ''0x00''} then Ok Cyprus1
      else if value \<in> {''Cyprus Two'', ''cyprus2'', ''zone-0-1'', ''0x01''} then Ok Cyprus2
      else if value \<in> {''Cyprus Three'', ''cyprus3'', ''zone-0-2'', ''0x02''} then Ok Cyprus3
      else if value \<in> {''Paxos One'', ''paxos1'', ''zone-1-0'', ''0x10''} then Ok Paxos1
      else if value \<in> {''Paxos Two'', ''paxos2'', ''zone-1-1'', ''0x11''} then Ok Paxos2
      else if value \<in> {''Paxos Three'', ''paxos3'', ''zone-1-2'', ''0x12''} then Ok Paxos3
      else if value \<in> {''Hydra One'', ''hydra1'', ''zone-2-0'', ''0x20''} then Ok Hydra1
      else if value \<in> {''Hydra Two'', ''hydra2'', ''zone-2-1'', ''0x21''} then Ok Hydra2
      else if value \<in> {''Hydra Three'', ''hydra3'', ''zone-2-2'', ''0x22''} then Ok Hydra3
      else Err InvalidIdentifier)"

section \<open>Shards\<close>

definition shard_all :: "shard list" where
  "shard_all = [Zone_shard Cyprus1, Zone_shard Cyprus2, Zone_shard Cyprus3,
     Zone_shard Paxos1, Zone_shard Paxos2, Zone_shard Paxos3,
     Zone_shard Hydra1, Zone_shard Hydra2, Zone_shard Hydra3,
     Region_shard Cyprus, Region_shard Paxos, Region_shard Hydra, Prime]"

fun shard_nickname :: "shard \<Rightarrow> string" where
  "shard_nickname Prime = ''prime''"
| "shard_nickname (Region_shard region) = region_nickname region"
| "shard_nickname (Zone_shard zone) = zone_nickname zone"

fun shard_encoded :: "shard \<Rightarrow> string" where
  "shard_encoded Prime = ''0x''"
| "shard_encoded (Region_shard region) = region_encoded region"
| "shard_encoded (Zone_shard zone) = zone_encoded zone"

text \<open>The pair of published name and hierarchy identifier that \<open>Shard::metadata\<close> matches on.\<close>

fun shard_labels :: "shard \<Rightarrow> string \<times> string" where
  "shard_labels Prime = (''Prime'', ''prime'')"
| "shard_labels (Region_shard Cyprus) = (''Cyprus'', ''region-0'')"
| "shard_labels (Region_shard Paxos) = (''Paxos'', ''region-1'')"
| "shard_labels (Region_shard Hydra) = (''Hydra'', ''region-2'')"
| "shard_labels (Zone_shard Cyprus1) = (''Cyprus One'', ''zone-0-0'')"
| "shard_labels (Zone_shard Cyprus2) = (''Cyprus Two'', ''zone-0-1'')"
| "shard_labels (Zone_shard Cyprus3) = (''Cyprus Three'', ''zone-0-2'')"
| "shard_labels (Zone_shard Paxos1) = (''Paxos One'', ''zone-1-0'')"
| "shard_labels (Zone_shard Paxos2) = (''Paxos Two'', ''zone-1-1'')"
| "shard_labels (Zone_shard Paxos3) = (''Paxos Three'', ''zone-1-2'')"
| "shard_labels (Zone_shard Hydra1) = (''Hydra One'', ''zone-2-0'')"
| "shard_labels (Zone_shard Hydra2) = (''Hydra Two'', ''zone-2-1'')"
| "shard_labels (Zone_shard Hydra3) = (''Hydra Three'', ''zone-2-2'')"

definition shard_metadata_of :: "shard \<Rightarrow> shard_metadata" where
  "shard_metadata_of s =
     (case shard_labels s of (name, hierarchy) \<Rightarrow>
        \<lparr>sm_name = name, sm_nickname = shard_nickname s, sm_shard = hierarchy,
         sm_context = 2, sm_byte = shard_encoded s\<rparr>)"

definition zone_metadata :: "zone \<Rightarrow> shard_metadata" where
  "zone_metadata z = shard_metadata_of (Zone_shard z)"

definition shard_from_str :: "string \<Rightarrow> (shard, shard_error) result" where
  "shard_from_str value =
     (if value \<in> {''0x'', ''prime'', ''Prime''} then Ok Prime
      else case region_from_str value of
        Inr region \<Rightarrow> Ok (Region_shard region)
      | Inl _ \<Rightarrow> (case zone_from_str value of
            Inr zone \<Rightarrow> Ok (Zone_shard zone)
          | Inl e \<Rightarrow> Err e))"

section \<open>The codes are exact\<close>

lemma zone_cases_all: "z \<in> set zone_all"
  by (cases z) (simp_all add: zone_all_def)

lemma region_cases_all: "r \<in> set region_all"
  by (cases r) (simp_all add: region_all_def)

lemma zone_from_byte_byte [simp]: "zone_from_byte (zone_byte z) = Inr z"
  by (cases z) (simp_all add: zone_from_byte_def)

lemma zone_byte_from_byte: "zone_from_byte b = Inr z \<Longrightarrow> zone_byte z = b"
  by (auto simp: zone_from_byte_def split: if_splits)

interpretation zcode: finite_code zone_all zone_byte zone_from_byte
  by unfold_locales (simp_all add: zone_cases_all zone_byte_from_byte)

lemma region_index_from_index: "region_from_index b = Inr z \<Longrightarrow> region_index z = b"
  by (auto simp: region_from_index_def split: if_splits)

lemma region_from_index_index [simp]: "region_from_index (region_index r) = Inr r"
  by (cases r) (simp_all add: region_from_index_def)

interpretation rcode: finite_code region_all region_index region_from_index
  by unfold_locales (simp_all add: region_cases_all region_index_from_index)

lemmas zone_byte_inject = zcode.enc_inject
lemmas zone_from_byte_Ok_iff = zcode.dec_Ok_iff

lemma zone_from_byte_error: "zone_from_byte b = Inl e \<Longrightarrow> e = UnknownZone b"
  by (auto simp: zone_from_byte_def split: if_splits)

text \<open>The labels a shard is published under: its metadata row.\<close>

definition metadata_labels :: "shard_metadata \<Rightarrow> string list" where
  "metadata_labels m = [sm_name m, sm_nickname m, sm_shard m, sm_byte m]"

definition region_row :: "region \<Rightarrow> string list" where
  "region_row r = metadata_labels (shard_metadata_of (Region_shard r))"

definition zone_row :: "zone \<Rightarrow> string list" where
  "zone_row z = metadata_labels (shard_metadata_of (Zone_shard z))"

lemmas row_simps = region_row_def zone_row_def metadata_labels_def shard_metadata_of_def

lemma region_from_str_iff: "region_from_str s = Inr r \<longleftrightarrow> s \<in> set (region_row r)"
  by (cases r) (auto simp: region_from_str_def row_simps)

lemma zone_from_str_iff: "zone_from_str s = Inr z \<longleftrightarrow> s \<in> set (zone_row z)"
  by (cases z) (auto simp: zone_from_str_def row_simps)

lemma region_from_str_error: "region_from_str s = Inl e \<Longrightarrow> e = InvalidIdentifier"
  by (auto simp: region_from_str_def split: if_splits)

lemma zone_from_str_error: "zone_from_str s = Inl e \<Longrightarrow> e = InvalidIdentifier"
  by (auto simp: zone_from_str_def split: if_splits)

interpretation rlabel: label_code region_row region_from_str InvalidIdentifier
  by unfold_locales (simp_all add: region_from_str_iff region_from_str_error)

interpretation zlabel: label_code zone_row zone_from_str InvalidIdentifier
  by unfold_locales (simp_all add: zone_from_str_iff zone_from_str_error)

lemma region_zone_rows_disjoint: "s \<in> set (region_row r) \<Longrightarrow> s \<notin> set (zone_row z)"
  by (cases r; cases z) (auto simp: row_simps)

lemma prime_rows_disjoint:
  "s \<in> {''0x'', ''prime'', ''Prime''} \<Longrightarrow> s \<notin> set (region_row r) \<and> s \<notin> set (zone_row z)"
  by (cases r; cases z) (auto simp: row_simps)

lemma shard_row_cases:
  "set (metadata_labels (shard_metadata_of x)) =
     (case x of Prime \<Rightarrow> {''0x'', ''prime'', ''Prime''}
      | Region_shard r \<Rightarrow> set (region_row r) | Zone_shard z \<Rightarrow> set (zone_row z))"
  by (cases x) (auto simp: row_simps)

lemma shard_from_str_cases:
  "shard_from_str s = Inr x \<longleftrightarrow>
     (case x of Prime \<Rightarrow> s \<in> {''0x'', ''prime'', ''Prime''}
      | Region_shard r \<Rightarrow> s \<in> set (region_row r) | Zone_shard z \<Rightarrow> s \<in> set (zone_row z))"
proof (cases "s \<in> {''0x'', ''prime'', ''Prime''}")
  case True
  then show ?thesis
    using prime_rows_disjoint [OF True] by (simp add: shard_from_str_def split: shard.split)
next
  case False
  moreover have "region_from_str s = Inr r \<Longrightarrow> zone_from_str s \<noteq> Inr z" for r z
    using region_zone_rows_disjoint region_from_str_iff zone_from_str_iff by blast
  ultimately show ?thesis
    by (auto simp: shard_from_str_def simp flip: region_from_str_iff zone_from_str_iff
        split: sum.splits shard.split)
qed

interpretation slabel: label_code
    "\<lambda>x. metadata_labels (shard_metadata_of x)" shard_from_str InvalidIdentifier
proof unfold_locales
  show "(shard_from_str s = Inr x) = (s \<in> set (metadata_labels (shard_metadata_of x)))" for s x
    by (simp add: shard_from_str_cases shard_row_cases split: shard.split)
  show "shard_from_str s = Inl e \<Longrightarrow> e = InvalidIdentifier" for s e
    by (auto simp: shard_from_str_def dest: zone_from_str_error split: if_splits sum.splits)
qed

section \<open>Properties\<close>


end
