(* ===== verification/Hex_Bytes.thy ===== *)
theory Hex_Bytes
  imports Quai_Prelude
begin

text \<open>
  Hexadecimal digits shared by the address, hash and encoding components: the digit table
  and the digit match that the sources write inline, and the facts that make the text of a
  byte string decode to it again.
\<close>

unbundle bit_operations_syntax

section \<open>Digits\<close>

text \<open>The constant \<open>HEX\<close> of the sources, indexed by a nibble.\<close>

definition HEX :: bytes where
  "HEX = as_bytes ''0123456789abcdef''"

definition hex_high :: "u8 \<Rightarrow> u8" where
  "hex_high b = HEX ! unat (drop_bit 4 b)"

definition hex_low :: "u8 \<Rightarrow> u8" where
  "hex_low b = HEX ! unat (b AND 15)"

primrec hex_digits :: "bytes \<Rightarrow> bytes" where
  "hex_digits [] = []"
| "hex_digits (b # bs) = hex_high b # hex_low b # hex_digits bs"

text \<open>The digit match: decimal, lowercase and uppercase digits, nothing else.\<close>

definition hex_nibble :: "u8 \<Rightarrow> u8 option" where
  "hex_nibble d =
     (if 48 \<le> d \<and> d \<le> 57 then Some (d - 48)
      else if 97 \<le> d \<and> d \<le> 102 then Some (d - 97 + 10)
      else if 65 \<le> d \<and> d \<le> 70 then Some (d - 65 + 10)
      else None)"

definition to_ascii_uppercase :: "u8 \<Rightarrow> u8" where
  "to_ascii_uppercase d = (if 97 \<le> d \<and> d \<le> 122 then d - 32 else d)"

definition to_ascii_lowercase :: "u8 \<Rightarrow> u8" where
  "to_ascii_lowercase d = (if 65 \<le> d \<and> d \<le> 90 then d + 32 else d)"

definition is_ascii_digit :: "u8 \<Rightarrow> bool" where
  "is_ascii_digit d \<longleftrightarrow> 48 \<le> d \<and> d \<le> 57"

definition is_ascii_hexdigit :: "u8 \<Rightarrow> bool" where
  "is_ascii_hexdigit d \<longleftrightarrow>
     48 \<le> d \<and> d \<le> 57 \<or> 97 \<le> d \<and> d \<le> 102 \<or> 65 \<le> d \<and> d \<le> 70"

text \<open>Pairs of nibbles, high nibble first.\<close>

fun nibble_pairs :: "u8 list \<Rightarrow> bytes" where
  "nibble_pairs (a # b # ns) = (a * 16 + b) # nibble_pairs ns"
| "nibble_pairs _ = []"

section \<open>Facts about single digits\<close>

lemma HEX_eq:
  "HEX = [48, 49, 50, 51, 52, 53, 54, 55, 56, 57, 97, 98, 99, 100, 101, 102]"
  by (simp add: HEX_def as_bytes_def char_byte_def)

lemma nibble_cases:
  fixes n :: u8
  assumes "unat n < 16"
  shows "n \<in> {0, 1, 2, 3, 4, 5, 6, 7, 8, 9, 10, 11, 12, 13, 14, 15}"
proof -
  have "word_of_nat (unat n) \<in> (word_of_nat ` set [0..<16] :: u8 set)"
    using assms by (intro imageI) simp
  then show ?thesis
    by (simp add: upt_conv_Cons del: set_upt)
qed

lemma high_nibble_lt [simp]: "unat (drop_bit 4 (b :: u8)) < 16"
  using byte_lt [of b] by (simp add: drop_bit_eq_div unat_div less_mult_imp_div_less)

lemma low_nibble_lt [simp]: "unat (b AND (15 :: u8)) < 16"
proof -
  have "b AND 15 \<le> 15"
    by (rule word_and_le1)
  then show ?thesis
    by (simp add: word_le_nat_alt)
qed

lemma low_nibble_take_bit: "b AND 15 = take_bit 4 (b :: u8)"
  by (simp add: take_bit_eq_mask mask_eq_exp_minus_1)

lemma nibbles_join: "drop_bit 4 b * 16 + (b AND 15) = (b :: u8)"
  using bits_ident [of 4 b] by (simp add: low_nibble_take_bit push_bit_eq_mult)

lemma nibbles_or: "push_bit 4 (drop_bit 4 b) OR (b AND 15) = (b :: u8)"
  unfolding low_nibble_take_bit by (rule bit_word_eqI) (auto simp: bit_simps)

lemma HEX_nibble: "unat n < 16 \<Longrightarrow> hex_nibble (HEX ! unat n) = Some n"
  by (drule nibble_cases, elim insertE emptyE) (simp_all add: HEX_eq hex_nibble_def)

lemma HEX_upper_nibble: "unat n < 16 \<Longrightarrow> hex_nibble (to_ascii_uppercase (HEX ! unat n)) = Some n"
  by (drule nibble_cases, elim insertE emptyE) (simp_all add: HEX_eq hex_nibble_def to_ascii_uppercase_def)

lemma hex_nibble_lt: "hex_nibble d = Some n \<Longrightarrow> unat n < 16"
proof -
  have "d - 97 + 10 = d - 87" "d - 65 + 10 = d - 55"
    by simp_all
  then show "hex_nibble d = Some n \<Longrightarrow> unat n < 16"
    by (auto simp: hex_nibble_def unat_sub word_le_nat_alt split: if_splits)
qed

lemma is_ascii_hexdigit_iff: "is_ascii_hexdigit d \<longleftrightarrow> hex_nibble d \<noteq> None"
  by (auto simp: is_ascii_hexdigit_def hex_nibble_def)

section \<open>Digit strings\<close>

lemma length_hex_digits [simp]: "length (hex_digits bs) = 2 * length bs"
  by (induction bs) auto

lemma hex_digits_append: "hex_digits (xs @ ys) = hex_digits xs @ hex_digits ys"
  by (induction xs) auto

lemma hex_high_nibble: "hex_nibble (hex_high b) = Some (drop_bit 4 b)"
  by (simp add: hex_high_def HEX_nibble)

lemma hex_low_nibble: "hex_nibble (hex_low b) = Some (b AND 15)"
  by (simp add: hex_low_def HEX_nibble)

lemmas hex_nibble_simps = hex_high_nibble hex_low_nibble nibbles_join

lemma hex_digits_nibbles: "\<forall>d \<in> set (hex_digits bs). hex_nibble d \<noteq> None"
  by (induction bs) (auto simp: hex_nibble_simps)

lemma nibble_pairs_hex_digits:
  "nibble_pairs (map (\<lambda>d. the (hex_nibble d)) (hex_digits bs)) = bs"
  by (induction bs) (auto simp: hex_nibble_simps)

lemma length_nibble_pairs: "length (nibble_pairs ns) = length ns div 2"
  by (induction ns rule: nibble_pairs.induct) auto

end
