(* ===== verification/Address.thy ===== *)
theory Address
  imports Shard Hex_Bytes
begin

text \<open>
  Addresses, hashes and contract-address prediction: \<open>quai-primitives/src/address.rs\<close>,
  \<open>hash.rs\<close> and \<open>contract.rs\<close>. Keccak-256 is third-party code and appears as the function
  argument \<open>keccak\<close>; what is used of it is that a digest has 32 bytes (\<open>digest_ok\<close>).
\<close>

unbundle bit_operations_syntax

section \<open>Addresses\<close>

datatype ledger = Quai | Qi

datatype address_error =
    InvalidLength
  | InvalidHex
  | InvalidChecksum
  | InvalidZone shard_error
  | WrongLedger ledger ledger

datatype address = Address (address_bytes: bytes)

text \<open>The array type \<open>[u8; 20]\<close>: every address value has exactly 20 bytes.\<close>

definition wf_address :: "address \<Rightarrow> bool" where
  "wf_address a \<longleftrightarrow> length (address_bytes a) = 20"

definition address_zero :: address where
  "address_zero = Address (replicate 20 0)"

definition address_ledger :: "address \<Rightarrow> ledger" where
  "address_ledger a = (if address_bytes a ! 1 AND 0x80 = 0 then Quai else Qi)"

definition address_zone :: "address \<Rightarrow> (zone, shard_error) result" where
  "address_zone a = zone_from_byte (address_bytes a ! 0)"

definition address_try_from :: "bytes \<Rightarrow> (address, address_error) result" where
  "address_try_from value = (if length value = 20 then Ok (Address value) else Err InvalidLength)"

definition digest_ok :: "(bytes \<Rightarrow> bytes) \<Rightarrow> bool" where
  "digest_ok keccak \<longleftrightarrow> (\<forall>x. length (keccak x) = 32)"

text \<open>Nibble \<open>i\<close> of the digest, as the capitalisation loop reads it.\<close>

definition hash_nibble :: "bytes \<Rightarrow> nat \<Rightarrow> u8" where
  "hash_nibble hash i =
     (if i mod 2 = 0 then drop_bit 4 (hash ! (i div 2)) else hash ! (i div 2) AND 0x0f)"

definition capitalize :: "bytes \<Rightarrow> bytes \<Rightarrow> bytes" where
  "capitalize hash digits =
     map (\<lambda>i. if 8 \<le> hash_nibble hash i then to_ascii_uppercase (digits ! i) else digits ! i)
       [0..<length digits]"

definition checksum_bytes :: "(bytes \<Rightarrow> bytes) \<Rightarrow> address \<Rightarrow> bytes" where
  "checksum_bytes keccak a =
     (let digits = hex_digits (address_bytes a)
      in [48, 120] @ capitalize (keccak digits) digits)"

definition to_checksum :: "(bytes \<Rightarrow> bytes) \<Rightarrow> address \<Rightarrow> bytes" where
  "to_checksum keccak a = checksum_bytes keccak a"

text \<open>
  \<open>FromStr\<close>: the digit loop keeps the byte array and the two case flags. The text is given by
  its bytes.
\<close>

record parse_state =
  ps_bytes :: bytes
  ps_lower :: bool
  ps_upper :: bool

definition parse_digit ::
  "nat \<Rightarrow> u8 \<Rightarrow> parse_state \<Rightarrow> (parse_state, address_error) result" where
  "parse_digit i d s =
     (let put = (\<lambda>nibble t. t\<lparr>ps_bytes := (ps_bytes t)[i div 2 :=
            ps_bytes t ! (i div 2) OR push_bit (if i mod 2 = 0 then 4 else 0) nibble]\<rparr>)
      in if 48 \<le> d \<and> d \<le> 57 then Ok (put (d - 48) s)
         else if 97 \<le> d \<and> d \<le> 102 then Ok (put (d - 97 + 10) (s\<lparr>ps_lower := True\<rparr>))
         else if 65 \<le> d \<and> d \<le> 70 then Ok (put (d - 65 + 10) (s\<lparr>ps_upper := True\<rparr>))
         else Err InvalidHex)"

primrec parse_digits ::
  "nat \<Rightarrow> bytes \<Rightarrow> parse_state \<Rightarrow> (parse_state, address_error) result" where
  "parse_digits i [] s = Ok s"
| "parse_digits i (d # ds) s = rbind (parse_digit i d s) (parse_digits (Suc i) ds)"

definition strip_0x :: "bytes \<Rightarrow> bytes" where
  "strip_0x value = (if take 2 value = [48, 120] then drop 2 value else value)"

definition address_from_str :: "(bytes \<Rightarrow> bytes) \<Rightarrow> bytes \<Rightarrow> (address, address_error) result" where
  "address_from_str keccak value =
     (let hex = strip_0x value
      in if length hex \<noteq> 40 then Err InvalidLength
         else rbind (parse_digits 0 hex
                \<lparr>ps_bytes = replicate 20 0, ps_lower = False, ps_upper = False\<rparr>)
           (\<lambda>s. let address = Address (ps_bytes s)
                in if ps_lower s \<and> ps_upper s \<and> drop 2 (checksum_bytes keccak address) \<noteq> hex
                   then Err InvalidChecksum else Ok address))"

definition from_checksummed_str ::
  "(bytes \<Rightarrow> bytes) \<Rightarrow> bytes \<Rightarrow> (address, address_error) result" where
  "from_checksummed_str keccak text =
     rbind (address_from_str keccak text)
       (\<lambda>address. if to_checksum keccak address \<noteq> text then Err InvalidChecksum else Ok address)"

section \<open>Ledger-specific addresses\<close>

text \<open>The macro \<open>ledger_address!\<close>, once per ledger.\<close>

record ledger_address =
  la_address :: address
  la_zone :: zone

definition ledger_address_try_from ::
  "ledger \<Rightarrow> address \<Rightarrow> (ledger_address, address_error) result" where
  "ledger_address_try_from expected address =
     rbind (map_err InvalidZone (address_zone address))
       (\<lambda>zone. let actual = address_ledger address
          in if actual \<noteq> expected then Err (WrongLedger expected actual)
             else Ok \<lparr>la_address = address, la_zone = zone\<rparr>)"

definition ledger_address_from_str ::
  "(bytes \<Rightarrow> bytes) \<Rightarrow> ledger \<Rightarrow> bytes \<Rightarrow> (ledger_address, address_error) result" where
  "ledger_address_from_str keccak expected value =
     rbind (address_from_str keccak value) (ledger_address_try_from expected)"

type_synonym quai_address = ledger_address
type_synonym qi_address = ledger_address

definition quai_address_try_from :: "address \<Rightarrow> (quai_address, address_error) result" where
  "quai_address_try_from = ledger_address_try_from Quai"

definition qi_address_try_from :: "address \<Rightarrow> (qi_address, address_error) result" where
  "qi_address_try_from = ledger_address_try_from Qi"

text \<open>The type invariant the constructor establishes.\<close>

definition wf_ledger_address :: "ledger \<Rightarrow> ledger_address \<Rightarrow> bool" where
  "wf_ledger_address expected t \<longleftrightarrow>
     address_zone (la_address t) = Inr (la_zone t) \<and> address_ledger (la_address t) = expected"

section \<open>Hashes\<close>

datatype hash32 = Hash32 (hash_bytes: bytes)

definition wf_hash :: "hash32 \<Rightarrow> bool" where
  "wf_hash h \<longleftrightarrow> length (hash_bytes h) = 32"

definition hash_zero :: hash32 where
  "hash_zero = Hash32 (replicate 32 0)"

datatype hash32_error = Hash32Error

definition hash_digit :: "u8 \<Rightarrow> (u8, hash32_error) result" where
  "hash_digit d = ok_or (hex_nibble d) Hash32Error"

fun hash_pairs :: "bytes \<Rightarrow> (bytes, hash32_error) result" where
  "hash_pairs (a # b # ds) =
     rbind (hash_digit a) (\<lambda>x. rbind (hash_digit b) (\<lambda>y.
       rbind (hash_pairs ds) (\<lambda>bs. Ok ((x * 16 + y) # bs))))"
| "hash_pairs _ = Ok []"

definition hash_from_str :: "bytes \<Rightarrow> (hash32, hash32_error) result" where
  "hash_from_str input =
     (if length input \<noteq> 66 \<or> take 2 input \<noteq> [48, 120] then Err Hash32Error
      else rbind (hash_pairs (drop 2 input)) (\<lambda>bs. Ok (Hash32 bs)))"

definition hash_to_string :: "hash32 \<Rightarrow> bytes" where
  "hash_to_string h = [48, 120] @ hex_digits (hash_bytes h)"

section \<open>Contract addresses\<close>

definition address_hash :: "(bytes \<Rightarrow> bytes) \<Rightarrow> bytes list \<Rightarrow> address" where
  "address_hash keccak parts = Address (drop 12 (keccak (concat parts)))"

definition contract_parts :: "address \<Rightarrow> u64 \<Rightarrow> bytes \<Rightarrow> bytes list" where
  "contract_parts sender nonce init_code =
     [address_bytes sender, to_be 8 (unat nonce), init_code]"

definition contract_address :: "(bytes \<Rightarrow> bytes) \<Rightarrow> address \<Rightarrow> u64 \<Rightarrow> bytes \<Rightarrow> address" where
  "contract_address keccak sender nonce init_code =
     address_hash keccak (contract_parts sender nonce init_code)"

definition create2_address :: "(bytes \<Rightarrow> bytes) \<Rightarrow> address \<Rightarrow> hash32 \<Rightarrow> hash32 \<Rightarrow> address" where
  "create2_address keccak sender salt init_code_hash =
     address_hash keccak [[0xff], address_bytes sender, hash_bytes salt, hash_bytes init_code_hash]"

section \<open>Digit loop\<close>

abbreviation or_nibble :: "nat \<Rightarrow> u8 \<Rightarrow> bytes \<Rightarrow> bytes" where
  "or_nibble i n bs \<equiv> bs[i div 2 := bs ! (i div 2) OR push_bit (if i mod 2 = 0 then 4 else 0) n]"

definition lower_digit :: "u8 \<Rightarrow> bool" where
  "lower_digit d \<longleftrightarrow> 97 \<le> d \<and> d \<le> 102"

definition upper_digit :: "u8 \<Rightarrow> bool" where
  "upper_digit d \<longleftrightarrow> 65 \<le> d \<and> d \<le> 70"

lemma parse_digit_nibble:
  "parse_digit i d s =
     (case hex_nibble d of None \<Rightarrow> Err InvalidHex
      | Some n \<Rightarrow> Ok \<lparr>ps_bytes = or_nibble i n (ps_bytes s),
          ps_lower = ps_lower s \<or> lower_digit d, ps_upper = ps_upper s \<or> upper_digit d\<rparr>)"
proof -
  have "48 \<le> d \<and> d \<le> 57 \<Longrightarrow> \<not> (97 \<le> d) \<and> \<not> (65 \<le> d)"
    "97 \<le> d \<and> d \<le> 102 \<Longrightarrow> \<not> (d \<le> 70)"
    by unat_arith+
  then show ?thesis
    by (auto simp: parse_digit_def hex_nibble_def lower_digit_def upper_digit_def Let_def)
qed

lemma nibble_or_pair:
  fixes a b :: u8
  assumes "unat a < 16" and "unat b < 16"
  shows "push_bit 4 a OR b = a * 16 + b"
proof -
  have "a \<in> {0, 1, 2, 3, 4, 5, 6, 7, 8, 9, 10, 11, 12, 13, 14, 15}"
    "b \<in> {0, 1, 2, 3, 4, 5, 6, 7, 8, 9, 10, 11, 12, 13, 14, 15}"
    using assms by (auto dest!: nibble_cases)
  then show ?thesis
    by (elim insertE emptyE) (simp_all add: push_bit_eq_mult)
qed


lemma or_nibble_pair:
  assumes "length pre = k" and "unat a < 16" and "unat b < 16"
  shows "or_nibble (Suc (2 * k)) b (or_nibble (2 * k) a (pre @ 0 # post)) = pre @ (a * 16 + b) # post"
  using assms by (simp add: list_update_append nth_append nibble_or_pair)

definition hex_text :: "bytes \<Rightarrow> bool" where
  "hex_text ds \<longleftrightarrow> (\<forall>d \<in> set ds. hex_nibble d \<noteq> None)"

definition hex_decode :: "bytes \<Rightarrow> bytes" where
  "hex_decode ds = nibble_pairs (map (\<lambda>d. the (hex_nibble d)) ds)"

lemma even_length_pair:
  assumes "length xs = 2 * Suc n"
  obtains a b ys where "xs = a # b # ys" "length ys = 2 * n"
  using assms by (metis (no_types, opaque_lifting) Suc_length_conv mult_Suc_right numeral_2_eq_2 add_2_eq_Suc)

lemma parse_digits_pairs:
  assumes "length ds = 2 * n" and "length pre = k"
  shows "parse_digits (2 * k) ds \<lparr>ps_bytes = pre @ replicate n 0, ps_lower = l, ps_upper = u\<rparr> =
    (if hex_text ds
     then Ok \<lparr>ps_bytes = pre @ hex_decode ds,
       ps_lower = l \<or> (\<exists>d \<in> set ds. lower_digit d), ps_upper = u \<or> (\<exists>d \<in> set ds. upper_digit d)\<rparr>
     else Err InvalidHex)"
  using assms
proof (induction n arbitrary: ds pre k l u)
  case (Suc n)
  from Suc.prems(1) obtain a b es where ds: "ds = a # b # es" "length es = 2 * n"
    by (rule even_length_pair)
  show ?case
  proof (cases "hex_nibble a = None \<or> hex_nibble b = None")
    case True
    then show ?thesis
      by (auto simp: ds hex_text_def parse_digit_nibble split: option.split)
  next
    case False
    then obtain x y where xy: "hex_nibble a = Some x" "hex_nibble b = Some y"
      by auto
    have "or_nibble (Suc (2 * k)) y (or_nibble (2 * k) x (pre @ 0 # replicate n 0)) =
        (pre @ [x * 16 + y]) @ replicate n 0"
      using or_nibble_pair [OF Suc.prems(2) hex_nibble_lt [OF xy(1)] hex_nibble_lt [OF xy(2)],
          of "replicate n 0"] by simp
    moreover have "Suc (Suc (2 * k)) = 2 * Suc k" "length (pre @ [x * 16 + y]) = Suc k"
      using Suc.prems(2) by simp_all
    ultimately show ?thesis
      using Suc.IH [OF ds(2), of "pre @ [x * 16 + y]" "Suc k"] xy
      by (simp add: ds parse_digit_nibble hex_text_def hex_decode_def disj_assoc)
  qed
qed (simp add: hex_text_def hex_decode_def)

lemma hex_decode_hex_digits [simp]: "hex_decode (hex_digits bs) = bs"
  by (simp add: hex_decode_def nibble_pairs_hex_digits)

lemma length_hex_decode: "length (hex_decode ds) = length ds div 2"
  by (simp add: hex_decode_def length_nibble_pairs)

section \<open>Capitalisation does not change the value\<close>

lemma hex_digits_from_table: "d \<in> set (hex_digits bs) \<Longrightarrow> \<exists>n. unat n < 16 \<and> d = HEX ! unat (n :: u8)"
  by (induction bs) (auto simp: hex_high_def hex_low_def intro: high_nibble_lt low_nibble_lt)

lemma capitalized_nibble:
  "d \<in> set (hex_digits bs) \<Longrightarrow> hex_nibble (to_ascii_uppercase d) = hex_nibble d"
  using hex_digits_from_table [of d bs] by (auto simp: HEX_nibble HEX_upper_nibble)

lemma length_capitalize [simp]: "length (capitalize h ds) = length ds"
  by (simp add: capitalize_def)

lemma capitalize_nibbles:
  "map hex_nibble (capitalize h (hex_digits bs)) = map hex_nibble (hex_digits bs)"
  by (rule nth_equalityI)
    (simp_all add: capitalize_def capitalized_nibble [of _ bs])

lemma hex_text_cong: "map hex_nibble xs = map hex_nibble ys \<Longrightarrow> hex_text xs = hex_text ys"
  unfolding hex_text_def by (metis in_set_conv_nth length_map nth_map)

lemma hex_decode_cong: "map hex_nibble xs = map hex_nibble ys \<Longrightarrow> hex_decode xs = hex_decode ys"
  unfolding hex_decode_def by (metis (mono_tags, lifting) list.map_comp comp_apply map_eq_conv map_map)

lemma capitalize_decode:
  "hex_decode (capitalize h (hex_digits bs)) = bs"
  "hex_text (capitalize h (hex_digits bs))"
  using hex_decode_cong [OF capitalize_nibbles] hex_text_cong [OF capitalize_nibbles]
  by (simp_all add: hex_text_def hex_digits_nibbles)

lemma checksum_bytes_drop:
  "drop 2 (checksum_bytes keccak a) =
     capitalize (keccak (hex_digits (address_bytes a))) (hex_digits (address_bytes a))"
  by (simp add: checksum_bytes_def Let_def)

lemma length_checksum [simp]: "length (checksum_bytes keccak a) = 2 + 2 * length (address_bytes a)"
  by (simp add: checksum_bytes_def Let_def)

lemma strip_0x_checksum: "strip_0x (checksum_bytes keccak a) = drop 2 (checksum_bytes keccak a)"
  by (simp add: checksum_bytes_def strip_0x_def Let_def)

section \<open>Properties\<close>

definition mixed_case :: "bytes \<Rightarrow> bool" where
  "mixed_case ds \<longleftrightarrow> (\<exists>d \<in> set ds. lower_digit d) \<and> (\<exists>d \<in> set ds. upper_digit d)"

lemma address_from_str_eq:
  "address_from_str keccak value =
     (let hex = strip_0x value; a = Address (hex_decode hex)
      in if length hex \<noteq> 40 then Err InvalidLength
         else if \<not> hex_text hex then Err InvalidHex
         else if mixed_case hex \<and> drop 2 (checksum_bytes keccak a) \<noteq> hex then Err InvalidChecksum
         else Ok a)"
proof (cases "length (strip_0x value) = 40")
  case True
  then have "length (strip_0x value) = 2 * 20" by simp
  from parse_digits_pairs [OF this, of "[]" 0 False False] True show ?thesis
    by (simp add: address_from_str_def Let_def mixed_case_def)
qed (simp add: address_from_str_def Let_def)

lemma address_from_str_wf: "address_from_str keccak s = Inr a \<Longrightarrow> wf_address a"
  by (auto simp: address_from_str_eq Let_def wf_address_def length_hex_decode split: if_splits)

lemma checksum_parses:
  "wf_address a \<Longrightarrow> address_from_str keccak (checksum_bytes keccak a) = Inr a"
  unfolding address_from_str_eq strip_0x_checksum Let_def
  by (simp add: checksum_bytes_drop capitalize_decode wf_address_def)

text \<open>
  C18: parsing the displayed text of an address gives the address back, whatever the digest
  function: the capitalisation that encodes the checksum never changes a digit's value.
\<close>

theorem address_display_parse:
  assumes "wf_address a"
  shows "address_from_str keccak (checksum_bytes keccak a) = Ok a"
  using assms by (rule checksum_parses)

theorem address_display_parse_witness:
  "address_from_str (\<lambda>_. replicate 32 0xf0) (checksum_bytes (\<lambda>_. replicate 32 0xf0)
     (Address (replicate 20 0xab))) = Ok (Address (replicate 20 0xab))"
  by (rule address_display_parse) (simp add: wf_address_def)

text \<open>
  C20: the strict import accepts a text exactly when it is the checksum spelling of the address
  it returns, and that address has 20 bytes.
\<close>

theorem from_checksummed_exact:
  "from_checksummed_str keccak s = Ok a \<longleftrightarrow> wf_address a \<and> s = to_checksum keccak a"
proof
  assume "wf_address a \<and> s = to_checksum keccak a"
  then show "from_checksummed_str keccak s = Ok a"
    by (simp add: from_checksummed_str_def to_checksum_def checksum_parses)
next
  assume ok: "from_checksummed_str keccak s = Ok a"
  then show "wf_address a \<and> s = to_checksum keccak a"
    by (auto simp: from_checksummed_str_def result_simps dest: address_from_str_wf)
qed

text \<open>
  A typed address is built exactly from the addresses whose first byte is a published zone
  and whose ledger bit is the requested one; otherwise the zone error is reported first, then
  the ledger mismatch with both ledgers named.
\<close>

lemma ledger_address_try_from_cases:
  "ledger_address_try_from expected a =
     (case zone_from_byte (address_bytes a ! 0) of
        Inl _ \<Rightarrow> Err (InvalidZone (UnknownZone (address_bytes a ! 0)))
      | Inr z \<Rightarrow> if (address_bytes a ! 1 AND 0x80 = 0) = (expected = Quai)
          then Ok \<lparr>la_address = a, la_zone = z\<rparr>
          else Err (WrongLedger expected (if expected = Quai then Qi else Quai)))"
  by (cases expected)
    (auto simp: ledger_address_try_from_def address_zone_def address_ledger_def Let_def
      dest: zone_from_byte_error split: sum.split)

lemma ledger_address_wf:
  "ledger_address_try_from expected a = Inr t \<longleftrightarrow> wf_ledger_address expected t \<and> la_address t = a"
  by (cases t) (auto simp: ledger_address_try_from_def wf_ledger_address_def result_simps Let_def)



lemma hash_pairs_eq:
  "even (length ds) \<Longrightarrow> hash_pairs ds = (if hex_text ds then Ok (hex_decode ds) else Err Hash32Error)"
  by (induction ds rule: hash_pairs.induct)
    (auto simp: hash_digit_def hex_text_def hex_decode_def ok_or_def split: option.splits)

text \<open>
  C22: a hash is read from exactly the texts with the lowercase prefix and 64 hexadecimal digits,
  and is the bytes those digits spell.
\<close>

theorem hash_parse_exact:
  "hash_from_str s = Ok h \<longleftrightarrow>
     wf_hash h \<and> (\<exists>ds. s = [48, 120] @ ds \<and> hex_text ds \<and> length ds = 64 \<and>
       hash_bytes h = hex_decode ds)"
  (is "?l = ?r")
proof
  assume ?l
  then have t: "length s = 66" "take 2 s = [48, 120]"
    "hash_pairs (drop 2 s) = Ok (hash_bytes h)"
    by (auto simp: hash_from_str_def result_simps)
  then have "even (length (drop 2 s))" by simp
  from hash_pairs_eq [OF this] t have "hex_text (drop 2 s)" "hash_bytes h = hex_decode (drop 2 s)"
    by (auto split: if_splits)
  moreover have "s = [48, 120] @ drop 2 s"
    using t(2) by (metis append_take_drop_id)
  ultimately show ?r
    using t(1) by (auto simp: wf_hash_def length_hex_decode)
next
  assume ?r
  then obtain ds where "s = [48, 120] @ ds" "hex_text ds" "length ds = 64"
    "hash_bytes h = hex_decode ds" by auto
  then show ?l
    by (simp add: hash_from_str_def hash_pairs_eq hash32.expand)
qed

end
