(* ===== verification/Consensus_Base.thy ===== *)
theory Consensus_Base
  imports Address
begin

text \<open>
  Vocabulary of the consensus crate: its error type and limits, the minimal big-endian integer
  fields of \<open>quai-consensus/src/lib.rs\<close>, and the Qi denominations and outpoints of
  \<open>quai-consensus/src/qi.rs\<close>.
\<close>

section \<open>Errors and limits\<close>

datatype transaction_error =
    TxTooLarge
  | TxInvalidEncoding
  | TxInvalidField string
  | TxWrongType
  | TxInvalidScope
  | TxInvalidSignature
  | TxMultiInputSigningUnavailable

definition MAX_TRANSACTION_BYTES :: nat where
  "MAX_TRANSACTION_BYTES = 1024 * 1024"

definition MAX_POOL_TRANSACTION_BYTES :: nat where
  "MAX_POOL_TRANSACTION_BYTES = 4 * 32 * 1024"

definition MAX_TRANSACTION_MESSAGES :: nat where
  "MAX_TRANSACTION_MESSAGES = 16384"

section \<open>Integer fields\<close>

text \<open>Minimal big-endian bytes: everything from the first nonzero byte on.\<close>

definition integer_bytes :: "u256 \<Rightarrow> bytes" where
  "integer_bytes n = dropWhile (\<lambda>b. b = 0) (to_be 32 (unat n))"

definition integer_field :: "bytes option \<Rightarrow> string \<Rightarrow> (u256, transaction_error) result" where
  "integer_field bs name =
     rbind (ok_or bs (TxInvalidField name))
       (\<lambda>b. if 32 < length b \<or> (b \<noteq> [] \<and> hd b = 0) then Err (TxInvalidField name)
            else Ok (word_of_nat (be_nat b)))"

lemma be_nat_integer_bytes [simp]: "be_nat (integer_bytes n) = unat n"
  unfolding integer_bytes_def be_nat_dropWhile by (rule be_nat_to_be_id [OF u256_be])

lemma length_integer_bytes: "length (integer_bytes n) \<le> 32"
  using length_dropWhile_le [of "\<lambda>b. b = 0" "to_be 32 (unat n)"] by (simp add: integer_bytes_def)

lemma integer_bytes_minimal: "integer_bytes n \<noteq> [] \<Longrightarrow> hd (integer_bytes n) \<noteq> 0"
  unfolding integer_bytes_def by (rule hd_dropWhile)

lemma minimal_bytes_unique:
  assumes "length b \<le> 32" and "b = [] \<or> hd b \<noteq> 0"
  shows "integer_bytes (word_of_nat (be_nat b)) = b"
proof -
  have "be_nat b < 256 ^ 32"
    using be_nat_lt [of b] assms(1) by (meson less_le_trans one_le_numeral power_increasing)
  then have "unat (word_of_nat (be_nat b) :: u256) = be_nat b"
    by (simp add: unat_of_nat_small)
  moreover have "to_be 32 (be_nat b) = replicate (32 - length b) 0 @ b"
    using to_be_be_nat [of "replicate (32 - length b) 0 @ b"] assms(1)
    by (simp add: be_nat_pad_left)
  ultimately show ?thesis
    using assms(2) by (cases b) (auto simp: integer_bytes_def dropWhile_append)
qed

lemma integer_field_roundtrip [simp]: "integer_field (Some (integer_bytes n)) name = Inr n"
  using length_integer_bytes [of n] integer_bytes_minimal [of n]
  by (auto simp: integer_field_def)

lemma integer_field_canonical:
  assumes "integer_field b name = Inr n"
  shows "b = Some (integer_bytes n)"
proof -
  from assms obtain c where c: "b = Some c" "length c \<le> 32" "c = [] \<or> hd c \<noteq> 0"
    "n = word_of_nat (be_nat c)"
    by (auto simp: integer_field_def rbind_eq_Ok ok_or_eq not_less split: if_splits)
  then show ?thesis
    using minimal_bytes_unique [OF c(2,3)] by metis
qed

interpretation intfield: partial_codec "\<lambda>_. True" "\<lambda>n. Some (integer_bytes n)"
    "\<lambda>b. integer_field b name" for name
  by unfold_locales (auto dest: integer_field_canonical)

section \<open>Denominations\<close>

definition VALUES :: "u64 list" where
  "VALUES = [1, 5, 10, 50, 100, 500, 1000, 5000, 10000, 20000, 100000, 1000000, 10000000,
     100000000, 1000000000]"

datatype denomination = Denomination (denomination_index: u8)

definition denomination_new :: "u8 \<Rightarrow> (denomination, transaction_error) result" where
  "denomination_new index =
     (if length VALUES \<le> unat index then Err (TxInvalidField ''denomination'')
      else Ok (Denomination index))"

definition denomination_value :: "denomination \<Rightarrow> u64" where
  "denomination_value d = VALUES ! unat (denomination_index d)"

definition wf_denomination :: "denomination \<Rightarrow> bool" where
  "wf_denomination d \<longleftrightarrow> unat (denomination_index d) < 15"

text \<open>Denomination by list position, and its value in Qits as a natural number.\<close>

definition denom :: "nat \<Rightarrow> denomination" where
  "denom i = Denomination (word_of_nat i)"

abbreviation dix :: "denomination \<Rightarrow> nat" where
  "dix d \<equiv> unat (denomination_index d)"

definition qits :: "nat \<Rightarrow> nat" where
  "qits i = unat (VALUES ! i)"

section \<open>Outpoints\<close>

record outpoint =
  op_hash :: hash32
  op_index :: u16

definition wf_outpoint :: "outpoint \<Rightarrow> bool" where
  "wf_outpoint p \<longleftrightarrow> wf_hash (op_hash p)"

section \<open>Facts about denominations\<close>

lemma length_VALUES [simp]: "length VALUES = 15"
  by (simp add: VALUES_def)

lemma denomination_new_Ok: "denomination_new i = Inr d \<longleftrightarrow> unat i < 15 \<and> d = Denomination i"
  by (auto simp: denomination_new_def not_le)

lemma denomination_new_denom: "i < 15 \<Longrightarrow> denomination_new (word_of_nat i) = Inr (denom i)"
  by (simp add: denomination_new_Ok unat_of_nat_small denom_def)

lemma dix_denom [simp]: "i < 15 \<Longrightarrow> dix (denom i) = i"
  by (simp add: unat_of_nat_small denom_def)

lemma denom_dix [simp]: "denom (dix d) = d"
  by (simp add: denom_def)

lemma wf_denom [simp]: "i < 15 \<Longrightarrow> wf_denomination (denom i)"
  by (simp add: wf_denomination_def)

lemma level_cases:
  assumes "i < 15"
  shows "i \<in> {0, 1, 2, 3, 4, 5, 6, 7, 8, 9, 10, 11, 12, 13, 14 :: nat}"
proof -
  have "i \<in> set [0..<15]" using assms by simp
  then show ?thesis
    by (simp add: upt_conv_Cons eval_nat_numeral del: set_upt)
qed

lemma qits_values:
  "qits 0 = 1" "qits (Suc 0) = 5" "qits 1 = 5" "qits 2 = 10" "qits 3 = 50" "qits 4 = 100" "qits 5 = 500"
  "qits 6 = 1000" "qits 7 = 5000" "qits 8 = 10000" "qits 9 = 20000" "qits 10 = 100000"
  "qits 11 = 1000000" "qits 12 = 10000000" "qits 13 = 100000000" "qits 14 = 1000000000"
  by (simp_all add: qits_def VALUES_def)

lemma qits_pos [simp]: "i < 15 \<Longrightarrow> 0 < qits i"
  by (drule level_cases, elim insertE emptyE) (simp_all add: qits_values)

lemma qits_le: "i < 15 \<Longrightarrow> qits i \<le> 1000000000"
  by (drule level_cases, elim insertE emptyE) (simp_all add: qits_values)

lemma qits_dvd_Suc: "Suc i < 15 \<Longrightarrow> qits i dvd qits (Suc i)"
  using level_cases [of "Suc i"] by (auto simp: qits_values simp flip: numeral_2_eq_2)

lemma qits_less_Suc: "Suc i < 15 \<Longrightarrow> qits i < qits (Suc i)"
  using level_cases [of "Suc i"] by (auto simp: qits_values simp flip: numeral_2_eq_2)

lemma qits_mono: "i \<le> j \<Longrightarrow> j < 15 \<Longrightarrow> qits i \<le> qits j"
proof (induction j rule: dec_induct)
  case (step n)
  then show ?case using qits_less_Suc [of n] by simp
qed simp

lemma qits_strict_mono: "i < j \<Longrightarrow> j < 15 \<Longrightarrow> qits i < qits j"
  using qits_less_Suc [of i] qits_mono [of "Suc i" j] by simp

lemma unat_denomination_value: "unat (denomination_value d) = qits (dix d)"
  by (simp add: denomination_value_def qits_def)

end
