(* ===== verification/Inventory.thy ===== *)
theory Inventory
  imports Consensus_Base
begin

text \<open>
  Denomination inventories of \<open>quai-wallet/src/selection.rs\<close>: the two decompositions of an
  amount into denominations. \<open>denominate_available\<close> consumes a shared inventory of coins and may
  split a larger coin but never joins smaller ones; \<open>denominate_largest\<close> is unbounded. The value
  held at level \<open>k\<close> or above (\<open>upper_value\<close>) is the abstract view of an inventory; the interface
  \<open>coin_inventory\<close> states how taking one coin changes it, and the loop is verified over that
  interface alone.
\<close>

section \<open>Source definitions\<close>

datatype selection_error =
    InvalidRequest
  | InvalidCoin
  | Overflow
  | InsufficientFunds
  | LimitExceeded
  | FeeBudgetExceeded
  | FeeDidNotConverge
  | EstimationFailed

definition selection_denomination :: "nat \<Rightarrow> (denomination, selection_error) result" where
  "selection_denomination i = map_err (\<lambda>_. InvalidCoin) (denomination_new (word_of_nat i))"

definition denomination_u256 :: "denomination \<Rightarrow> u256" where
  "denomination_u256 d = ucast (denomination_value d)"

text \<open>The loop over \<open>j\<close> from \<open>source\<close> down to \<open>i + 1\<close> that splits one coin of level \<open>i + n\<close>.\<close>

primrec borrow :: "nat \<Rightarrow> nat \<Rightarrow> u64 list \<Rightarrow> (u64 list, selection_error) result" where
  "borrow i 0 capacity = Ok capacity"
| "borrow i (Suc n) capacity =
     (let j = i + Suc n; capacity' = capacity[j := capacity ! j - 1]
      in rbind (selection_denomination j) (\<lambda>larger.
         rbind (selection_denomination (j - 1)) (\<lambda>smaller.
         rbind (ok_or (checked_add (capacity' ! (j - 1))
                  (denomination_value larger div denomination_value smaller)) Overflow)
           (\<lambda>count. borrow i n (capacity'[j - 1 := count])))))"

text \<open>One coin of level \<open>i\<close>: the smallest source at or above it, split down, then removed.\<close>

definition take_source :: "nat \<Rightarrow> u64 list \<Rightarrow> nat option" where
  "take_source i capacity = find (\<lambda>j. 0 < capacity ! j) [i..<15]"

definition take_coin :: "nat \<Rightarrow> nat \<Rightarrow> u64 list \<Rightarrow> (u64 list, selection_error) result" where
  "take_coin i source capacity =
     rbind (borrow i (source - i) capacity) (\<lambda>c. Ok (c[i := c ! i - 1]))"

text \<open>
  The \<open>while\<close> loop at level \<open>i\<close>. The bound \<open>i < 15\<close> is the range of the enclosing \<open>for\<close>; it
  makes the denomination positive, so each round lowers \<open>value\<close>.
\<close>

function denominate_level ::
  "nat \<Rightarrow> nat \<Rightarrow> u256 \<Rightarrow> u64 list \<Rightarrow> denomination list \<Rightarrow>
     (u256 \<times> u64 list \<times> denomination list, selection_error) result" where
  "denominate_level i max_outputs value capacity result =
     (if i < 15 \<and> denomination_u256 (denom i) \<le> value then
        (case take_source i capacity of
           None \<Rightarrow> Ok (value, capacity, result)
         | Some source \<Rightarrow>
             if length result = max_outputs then Err LimitExceeded
             else rbind (take_coin i source capacity) (\<lambda>capacity'.
               denominate_level i max_outputs (value - denomination_u256 (denom i)) capacity'
                 (result @ [denom i])))
      else Ok (value, capacity, result))"
  by pat_completeness auto

lemma unat_denomination_u256: "unat (denomination_u256 d) = qits (dix d)"
proof -
  have "unat (denomination_value d) < 2 ^ 256"
    using unsigned_less [of "denomination_value d", where ?'a = nat] by simp
  then have "take_bit 256 (unat (denomination_value d)) = unat (denomination_value d)"
    by (simp only: take_bit_nat_eq_self_iff)
  then show ?thesis
    by (simp add: denomination_u256_def unsigned_ucast_eq flip: unat_denomination_value)
qed

lemma denomination_u256_le: "denomination_u256 d \<le> v \<longleftrightarrow> qits (dix d) \<le> unat v"
  by (simp add: word_le_nat_alt unat_denomination_u256)

lemma unat_sub_denomination:
  "denomination_u256 d \<le> v \<Longrightarrow> unat (v - denomination_u256 d) = unat v - qits (dix d)"
  by (simp add: unat_sub unat_denomination_u256)

termination denominate_level
proof (relation "measure (\<lambda>(i, m, v, c, r). unat v)")
  fix i m source and v :: u256 and c c' :: "u64 list" and r :: "denomination list"
  assume guard: "i < 15 \<and> denomination_u256 (denom i) \<le> v"
  then show "((i, m, v - denomination_u256 (denom i), c', r @ [denom i]), (i, m, v, c, r))
      \<in> measure (\<lambda>(i, m, v, c, r). unat v)"
    by (auto simp: unat_sub_denomination denomination_u256_le intro!: diff_less less_le_trans [OF qits_pos])
qed simp

declare denominate_level.simps [simp del]

primrec denominate_levels ::
  "nat \<Rightarrow> nat \<Rightarrow> u256 \<times> u64 list \<times> denomination list \<Rightarrow>
     (u256 \<times> u64 list \<times> denomination list, selection_error) result" where
  "denominate_levels 0 max_outputs s = Ok s"
| "denominate_levels (Suc i) max_outputs s =
     rbind (selection_denomination i) (\<lambda>_. case s of (value, capacity, result) \<Rightarrow>
       rbind (denominate_level i max_outputs value capacity result)
         (denominate_levels i max_outputs))"

definition denominate_available ::
  "u256 \<Rightarrow> u64 list \<Rightarrow> nat \<Rightarrow> (denomination list \<times> u64 list, selection_error) result" where
  "denominate_available value capacity max_outputs =
     rbind (denominate_levels 15 max_outputs (value, capacity, []))
       (\<lambda>(value', capacity', result).
          if value' \<noteq> 0 then Err InsufficientFunds else Ok (result, capacity'))"

text \<open>\<open>denominate_largest\<close>: the same loops without an inventory.\<close>

function largest_level ::
  "nat \<Rightarrow> nat \<Rightarrow> u256 \<Rightarrow> denomination list \<Rightarrow> (u256 \<times> denomination list, selection_error) result" where
  "largest_level i max_outputs value result =
     (if i < 15 \<and> denomination_u256 (denom i) \<le> value then
        if length result = max_outputs then Err LimitExceeded
        else largest_level i max_outputs (value - denomination_u256 (denom i)) (result @ [denom i])
      else Ok (value, result))"
  by pat_completeness auto

termination largest_level
proof (relation "measure (\<lambda>(i, m, v, r). unat v)")
  fix i m and v :: u256 and r :: "denomination list"
  assume guard: "i < 15 \<and> denomination_u256 (denom i) \<le> v"
  then show "((i, m, v - denomination_u256 (denom i), r @ [denom i]), (i, m, v, r))
      \<in> measure (\<lambda>(i, m, v, r). unat v)"
    by (auto simp: unat_sub_denomination denomination_u256_le intro!: diff_less less_le_trans [OF qits_pos])
qed simp

declare largest_level.simps [simp del]

primrec largest_levels ::
  "nat \<Rightarrow> nat \<Rightarrow> u256 \<times> denomination list \<Rightarrow> (u256 \<times> denomination list, selection_error) result" where
  "largest_levels 0 max_outputs s = Ok s"
| "largest_levels (Suc i) max_outputs s =
     rbind (selection_denomination i) (\<lambda>_.
       rbind (largest_level i max_outputs (fst s) (snd s)) (largest_levels i max_outputs))"

definition denominate_largest :: "u256 \<Rightarrow> nat \<Rightarrow> (denomination list, selection_error) result" where
  "denominate_largest value max_outputs =
     rbind (largest_levels 15 max_outputs (value, []))
       (\<lambda>(value', result). if value' \<noteq> 0 then Err InsufficientFunds else Ok result)"

section \<open>The abstract view of an inventory\<close>

definition upper_value :: "nat \<Rightarrow> u64 list \<Rightarrow> nat" where
  "upper_value k capacity = (\<Sum>j = k..<15. unat (capacity ! j) * qits j)"

lemma upper_value_code [code]:
  "upper_value k c = sum_list (map (\<lambda>j. unat (c ! j) * qits j) [k..<15])"
  by (simp add: upper_value_def interv_sum_list_conv_sum_set_nat)

definition wf_capacity :: "u64 list \<Rightarrow> bool" where
  "wf_capacity capacity \<longleftrightarrow> length capacity = 15 \<and> upper_value 0 capacity < 2 ^ 64"

definition dvalue :: "denomination list \<Rightarrow> nat" where
  "dvalue ds = sum_list (map (\<lambda>d. qits (dix d)) ds)"

definition dupper :: "nat \<Rightarrow> denomination list \<Rightarrow> nat" where
  "dupper k ds = dvalue (filter (\<lambda>d. k \<le> dix d) ds)"

lemma dvalue_simps [simp]:
  "dvalue [] = 0" "dvalue (d # ds) = qits (dix d) + dvalue ds" "dvalue (xs @ ys) = dvalue xs + dvalue ys"
  by (simp_all add: dvalue_def)

lemma dupper_simps [simp]:
  "dupper k [] = 0" "dupper k (xs @ ys) = dupper k xs + dupper k ys"
  by (simp_all add: dupper_def)

lemma dupper_Cons: "dupper k (d # ds) = (if k \<le> dix d then qits (dix d) else 0) + dupper k ds"
  by (simp add: dupper_def)

lemma dupper_0 [simp]: "dupper 0 ds = dvalue ds"
  by (simp add: dupper_def)

lemma upper_value_antimono: "j \<le> k \<Longrightarrow> upper_value k c \<le> upper_value j c"
  unfolding upper_value_def by (rule sum_mono2) auto

lemma upper_value_update:
  assumes "j < 15" and "length c = 15"
  shows "upper_value k (c[j := x]) + (if k \<le> j then unat (c ! j) * qits j else 0) =
    upper_value k c + (if k \<le> j then unat x * qits j else 0)"
proof (cases "k \<le> j")
  case True
  have "(\<Sum>i \<in> {k..<15} - {j}. unat (c[j := x] ! i) * qits i) =
      (\<Sum>i \<in> {k..<15} - {j}. unat (c ! i) * qits i)"
    by (rule sum.cong) auto
  then show ?thesis
    using True assms sum.remove [of "{k..<15}" j "\<lambda>i. unat (c[j := x] ! i) * qits i"]
      sum.remove [of "{k..<15}" j "\<lambda>i. unat (c ! i) * qits i"]
    by (simp add: upper_value_def)
next
  case False
  then show ?thesis
    by (auto simp: upper_value_def intro!: sum.cong)
qed

lemma level_value_le: "j < 15 \<Longrightarrow> k \<le> j \<Longrightarrow> unat (c ! j) * qits j \<le> upper_value k c"
  unfolding upper_value_def by (rule member_le_sum) auto

lemma upper_value_0_iff: "upper_value k c = 0 \<longleftrightarrow> (\<forall>j \<in> {k..<15}. c ! j = 0)"
proof -
  have "upper_value k c = 0 \<longleftrightarrow> (\<forall>j \<in> {k..<15}. unat (c ! j) * qits j = 0)"
    by (simp add: upper_value_def)
  also have "\<dots> \<longleftrightarrow> (\<forall>j \<in> {k..<15}. c ! j = 0)"
    by (intro ball_cong) (auto simp: unat_eq_zero dest: qits_pos)
  finally show ?thesis .
qed

section \<open>Taking a coin\<close>

lemma ratio_exact:
  assumes "Suc j < 15"
  shows "unat (denomination_value (denom (Suc j)) div denomination_value (denom j)) * qits j = qits (Suc j)"
    and "0 < unat (denomination_value (denom (Suc j)) div denomination_value (denom j))"
proof -
  have "unat (denomination_value (denom (Suc j)) div denomination_value (denom j)) = qits (Suc j) div qits j"
    using assms by (simp add: unat_div unat_denomination_value)
  moreover have "0 < qits j" "qits j < qits (Suc j)" "qits j dvd qits (Suc j)"
    using assms qits_less_Suc qits_dvd_Suc by auto
  ultimately show "unat (denomination_value (denom (Suc j)) div denomination_value (denom j)) * qits j = qits (Suc j)"
    "0 < unat (denomination_value (denom (Suc j)) div denomination_value (denom j))"
    by (simp_all add: div_greater_zero_iff)
qed

lemma selection_denomination_Ok [simp]: "i < 15 \<Longrightarrow> selection_denomination i = Ok (denom i)"
  by (simp add: selection_denomination_def denomination_new_denom)

lemma capacity_level_bound: "wf_capacity c \<Longrightarrow> j < 15 \<Longrightarrow> unat (c ! j) * qits j < 2 ^ 64"
  using level_value_le [of j 0 c] by (simp add: wf_capacity_def)

text \<open>Splitting one coin of level \<open>Suc j\<close> into coins of level \<open>j\<close>.\<close>

lemma split_step:
  assumes wf: "wf_capacity c" and j: "Suc j < 15" and pos: "0 < c ! Suc j"
  defines "ratio \<equiv> denomination_value (denom (Suc j)) div denomination_value (denom j)"
  defines "c1 \<equiv> c[Suc j := c ! Suc j - 1]"
  shows "\<exists>count. checked_add (c1 ! j) ratio = Some count \<and> 0 < count \<and> wf_capacity (c1[j := count]) \<and>
    (\<forall>k. upper_value k (c1[j := count]) + (if k = Suc j then qits (Suc j) else 0) = upper_value k c)"
proof -
  have len: "length c = 15" using wf by (simp add: wf_capacity_def)
  have c1j: "c1 ! j = c ! j" by (simp add: c1_def)
  have dec: "unat (c ! Suc j - 1) + 1 = unat (c ! Suc j)"
    using pos by (simp add: unat_minus_one word_greater_zero_iff unat_gt_0)
  have ratio: "unat ratio * qits j = qits (Suc j)" "0 < unat ratio"
    using ratio_exact [OF j] by (simp_all add: ratio_def)
  have v1: "upper_value k c1 + (if k \<le> Suc j then qits (Suc j) else 0) = upper_value k c" for k
    using upper_value_update [of "Suc j" c k "c ! Suc j - 1"] j len
    by (auto simp: c1_def algebra_simps simp flip: dec)
  have "(unat (c1 ! j) + unat ratio) * qits j \<le> upper_value 0 c"
    using v1 [of 0] level_value_le [of j 0 c1] j ratio(1) by (simp add: algebra_simps)
  moreover have "unat (c1 ! j) + unat ratio \<le> (unat (c1 ! j) + unat ratio) * qits j"
    using j mult_le_mono2 [of 1 "qits j" "unat (c1 ! j) + unat ratio"] by (simp add: Suc_le_eq)
  moreover have "upper_value 0 c < 2 ^ 64"
    using wf by (simp add: wf_capacity_def)
  ultimately have small: "unat (c1 ! j) + unat ratio < 2 ^ 64"
    by (meson le_less_trans order_trans)
  then obtain count where count: "checked_add (c1 ! j) ratio = Some count"
    by (simp add: checked_add_def)
  then have un: "unat count = unat (c1 ! j) + unat ratio"
    by (simp add: checked_simps)
  have v2: "upper_value k (c1[j := count]) = upper_value k c1 + (if k \<le> j then qits (Suc j) else 0)" for k
    using upper_value_update [of j c1 k count] j len ratio(1)
    by (auto simp: c1_def un algebra_simps)
  have v: "upper_value k (c1[j := count]) + (if k = Suc j then qits (Suc j) else 0) = upper_value k c" for k
    using v1 [of k] v2 [of k] by (auto simp: le_Suc_eq split: if_splits)
  moreover have "wf_capacity (c1[j := count])"
    using v [of 0] wf by (simp add: wf_capacity_def c1_def)
  moreover have "0 < count"
    using ratio(2) un by (metis add_gr_0 unat_gt_0 word_greater_zero_iff)
  ultimately show ?thesis
    using count by blast
qed

lemma borrow_Ok:
  assumes "wf_capacity c" and "i + n < 15" and "0 < c ! (i + n)"
  shows "\<exists>c'. borrow i n c = Ok c' \<and> wf_capacity c' \<and> 0 < c' ! i \<and>
    (\<forall>k \<le> i. upper_value k c' = upper_value k c) \<and> (\<forall>k. upper_value k c' \<le> upper_value k c)"
  using assms
proof (induction n arbitrary: c)
  case (Suc n)
  define c1 where "c1 = c[Suc (i + n) := c ! Suc (i + n) - 1]"
  obtain count where count: "checked_add (c1 ! (i + n))
        (denomination_value (denom (Suc (i + n))) div denomination_value (denom (i + n))) = Some count"
      "0 < count" "wf_capacity (c1[i + n := count])"
    and v: "\<And>k. upper_value k (c1[i + n := count]) +
      (if k = Suc (i + n) then qits (Suc (i + n)) else 0) = upper_value k c"
    using split_step [of c "i + n"] Suc.prems unfolding c1_def by auto
  have len: "length c1 = 15"
    using Suc.prems(1) by (simp add: c1_def wf_capacity_def)
  have "\<exists>c'. borrow i n (c1[i + n := count]) = Ok c' \<and> wf_capacity c' \<and> 0 < c' ! i \<and>
    (\<forall>k \<le> i. upper_value k c' = upper_value k (c1[i + n := count])) \<and>
    (\<forall>k. upper_value k c' \<le> upper_value k (c1[i + n := count]))"
    using Suc.IH [of "c1[i + n := count]"] count(2,3) Suc.prems(2) len by simp
  then obtain c' where c': "borrow i n (c1[i + n := count]) = Ok c'" "wf_capacity c'" "0 < c' ! i"
    "\<And>k. k \<le> i \<Longrightarrow> upper_value k c' = upper_value k (c1[i + n := count])"
    "\<And>k. upper_value k c' \<le> upper_value k (c1[i + n := count])"
    by blast
  have "borrow i (Suc n) c = Ok c'"
    using count(1) c'(1) Suc.prems(2) by (simp add: c1_def Let_def)
  moreover have "upper_value k c' = upper_value k c" if "k \<le> i" for k
    using c'(4) [OF that] v [of k] that by simp
  moreover have "upper_value k c' \<le> upper_value k c" for k
    using c'(5) [of k] v [of k] by linarith
  ultimately show ?case
    using c'(2,3) by blast
qed auto

lemma take_source_Some:
  "take_source i c = Some j \<Longrightarrow> i \<le> j \<and> j < 15 \<and> 0 < c ! j"
  by (auto simp: take_source_def find_Some_iff nth_append dest!: nth_mem)

lemma take_source_None: "take_source i c = None \<longleftrightarrow> upper_value i c = 0"
  by (auto simp: take_source_def find_None_iff upper_value_0_iff word_greater_zero_iff)

lemma take_coin_Ok:
  assumes "wf_capacity c" and "take_source i c = Some j"
  shows "\<exists>c'. take_coin i j c = Ok c' \<and> wf_capacity c' \<and>
    (\<forall>k \<le> i. upper_value k c' + qits i = upper_value k c) \<and> (\<forall>k. upper_value k c' \<le> upper_value k c)"
proof -
  have j: "i \<le> j" "j < 15" "0 < c ! j"
    using take_source_Some [OF assms(2)] by auto
  then obtain b where b: "borrow i (j - i) c = Ok b" "wf_capacity b" "0 < b ! i"
    "\<And>k. k \<le> i \<Longrightarrow> upper_value k b = upper_value k c" "\<And>k. upper_value k b \<le> upper_value k c"
    using borrow_Ok [of c i "j - i"] assms(1) by auto
  have len: "length b = 15" using b(2) by (simp add: wf_capacity_def)
  have dec: "unat (b ! i - 1) + 1 = unat (b ! i)"
    using b(3) by (simp add: unat_minus_one word_greater_zero_iff unat_gt_0)
  have v: "upper_value k (b[i := b ! i - 1]) + (if k \<le> i then qits i else 0) = upper_value k b" for k
    using upper_value_update [of i b k "b ! i - 1"] j len
    by (auto simp: algebra_simps simp flip: dec)
  have "wf_capacity (b[i := b ! i - 1])"
    using v [of 0] b(2) by (simp add: wf_capacity_def)
  moreover have "upper_value k (b[i := b ! i - 1]) \<le> upper_value k c" for k
    using v [of k] b(5) [of k] by linarith
  moreover have "upper_value k (b[i := b ! i - 1]) + qits i = upper_value k c" if "k \<le> i" for k
    using v [of k] b(4) [OF that] that by simp
  ultimately show ?thesis
    using b(1) by (simp add: take_coin_def)
qed

section \<open>The inventory interface\<close>

text \<open>
  What the decomposition loops rely on. \<open>worth k c\<close> is the value held at level \<open>k\<close> or above.
  Taking a coin of level \<open>i\<close> succeeds exactly when something is held at or above \<open>i\<close>; it lowers
  the worth of every level up to \<open>i\<close> by the coin and never raises the worth of a higher level.
\<close>

definition demand :: "nat \<Rightarrow> nat list \<Rightarrow> nat" where
  "demand k is = sum_list (map qits (filter (\<lambda>i. k \<le> i) is))"

lemma demand_simps [simp]:
  "demand k [] = 0" "demand k (i # is) = (if k \<le> i then qits i else 0) + demand k is"
  "demand k (xs @ ys) = demand k xs + demand k ys"
  by (simp_all add: demand_def)

lemma demand_replicate [simp]: "demand k (replicate n i) = (if k \<le> i then n * qits i else 0)"
  by (induction n) auto

locale coin_inventory =
  fixes sound :: "'c \<Rightarrow> bool"
    and worth :: "nat \<Rightarrow> 'c \<Rightarrow> nat"
    and take_one :: "nat \<Rightarrow> 'c \<Rightarrow> 'c option"
  assumes take_None: "sound c \<Longrightarrow> i < 15 \<Longrightarrow> take_one i c = None \<longleftrightarrow> worth i c = 0"
    and take_Some: "sound c \<Longrightarrow> i < 15 \<Longrightarrow> take_one i c = Some c' \<Longrightarrow>
      sound c' \<and> (\<forall>k \<le> i. worth k c' + qits i = worth k c) \<and> (\<forall>k. worth k c' \<le> worth k c)"
begin

primrec takes :: "'c \<Rightarrow> nat list \<Rightarrow> 'c option" where
  "takes c [] = Some c"
| "takes c (i # is) = (case take_one i c of None \<Rightarrow> None | Some c' \<Rightarrow> takes c' is)"

lemma takes_append: "takes c (xs @ ys) = (case takes c xs of None \<Rightarrow> None | Some c' \<Rightarrow> takes c' ys)"
  by (induction xs arbitrary: c) (auto split: option.splits)

text \<open>Nothing is created: at every level, what is left and what was taken fit in what was held.\<close>

lemma takes_conserve:
  assumes "sound c" and "set is \<subseteq> {..<15}" and "takes c is = Some c'"
  shows "sound c' \<and> worth k c' + demand k is \<le> worth k c \<and> worth 0 c' + demand 0 is = worth 0 c"
  using assms
proof (induction "is" arbitrary: c)
  case (Cons i "is")
  then obtain c1 where c1: "take_one i c = Some c1" "takes c1 is = Some c'"
    by (auto split: option.splits)
  have step: "sound c1" "\<And>k. k \<le> i \<Longrightarrow> worth k c1 + qits i = worth k c" "worth k c1 \<le> worth k c"
    using take_Some [OF Cons.prems(1) _ c1(1)] Cons.prems(2) by auto
  have "sound c' \<and> worth k c' + demand k is \<le> worth k c1 \<and> worth 0 c' + demand 0 is = worth 0 c1"
    using Cons.IH [OF step(1) _ c1(2)] Cons.prems(2) by simp
  then show ?case
    using step(2) [of k] step(2) [of 0] step(3) by (cases "k \<le> i") auto
qed simp

lemma takes_sound: "sound c \<Longrightarrow> set is \<subseteq> {..<15} \<Longrightarrow> takes c is = Some c' \<Longrightarrow> sound c'"
  using takes_conserve by blast

text \<open>
  Largest first, every demand that fits at each level is met: the levels above the one being
  taken no longer matter.
\<close>

lemma takes_descending:
  assumes "sound c" and "set is \<subseteq> {..<15}" and "sorted (rev is)"
    and "\<And>k. k < 15 \<Longrightarrow> demand k is \<le> worth k c"
  shows "\<exists>c'. takes c is = Some c'"
  using assms
proof (induction "is" arbitrary: c)
  case (Cons i "is")
  have i: "i < 15" "0 < qits i" using Cons.prems(2) by auto
  have "0 < worth i c"
    using Cons.prems(4) [OF i(1)] i(2) by simp
  then obtain c1 where c1: "take_one i c = Some c1"
    using take_None [OF Cons.prems(1) i(1)] by auto
  have step: "sound c1" "\<And>k. k \<le> i \<Longrightarrow> worth k c1 + qits i = worth k c"
    using take_Some [OF Cons.prems(1) i(1) c1] by auto
  have desc: "sorted (rev is)" "\<forall>j \<in> set is. j \<le> i"
    using Cons.prems(3) by (auto simp: sorted_append)
  have "demand k is \<le> worth k c1" if "k < 15" for k
  proof (cases "k \<le> i")
    case True
    then show ?thesis
      using Cons.prems(4) [OF that] step(2) [of k] by simp
  next
    case False
    then have "filter (\<lambda>j. k \<le> j) is = []"
      using desc(2) by (auto simp: filter_empty_conv)
    then show ?thesis
      by (simp add: demand_def)
  qed
  then show ?case
    using Cons.IH [OF step(1) _ desc(1)] Cons.prems(2) c1 by auto
qed simp

lemma takes_iff:
  assumes "sound c" and "set is \<subseteq> {..<15}" and "sorted (rev is)"
  shows "takes c is \<noteq> None \<longleftrightarrow> (\<forall>k < 15. demand k is \<le> worth k c)"
  using takes_conserve [OF assms(1,2)] takes_descending [OF assms]
  by (metis add_leD2 not_None_eq)

end

definition take_at :: "nat \<Rightarrow> u64 list \<Rightarrow> u64 list option" where
  "take_at i c = (case take_source i c of None \<Rightarrow> None | Some j \<Rightarrow> result_ok (take_coin i j c))"

interpretation inv: coin_inventory wf_capacity upper_value take_at
proof
  fix c :: "u64 list" and i :: nat
  assume "wf_capacity c" "i < 15"
  then show "take_at i c = None \<longleftrightarrow> upper_value i c = 0"
    using take_coin_Ok [of c i]
    by (auto simp: take_at_def simp flip: take_source_None split: option.splits)
next
  fix c c' :: "u64 list" and i :: nat
  assume "wf_capacity c" "i < 15" "take_at i c = Some c'"
  then show "wf_capacity c' \<and> (\<forall>k \<le> i. upper_value k c' + qits i = upper_value k c) \<and>
      (\<forall>k. upper_value k c' \<le> upper_value k c)"
    using take_coin_Ok [of c i]
    by (fastforce simp: take_at_def split: option.splits)
qed

section \<open>The bounded decomposition\<close>

lemma take_at_eq:
  assumes "wf_capacity c" and "take_source i c = Some j"
  shows "take_at i c = Some c' \<longleftrightarrow> take_coin i j c = Ok c'"
  using assms by (auto simp: take_at_def result_simps)

text \<open>The \<open>while\<close> loop takes some number of level-\<open>i\<close> coins and stops when none fits or none is left.\<close>

lemma denominate_level_Ok:
  assumes "denominate_level i m v c r = Ok (v', c', r')" and "wf_capacity c" and "i < 15"
  shows "\<exists>n. r' = r @ replicate n (denom i) \<and> unat v' + n * qits i = unat v \<and>
    inv.takes c (replicate n i) = Some c' \<and> (unat v' < qits i \<or> upper_value i c' = 0) \<and>
    (length r \<le> m \<longrightarrow> length r' \<le> m)"
  using assms
proof (induction i m v c r rule: denominate_level.induct)
  case (1 i m v c r)
  show ?case
  proof (cases "denomination_u256 (denom i) \<le> v \<and> take_source i c \<noteq> None")
    case False
    then have "denominate_level i m v c r = Ok (v, c, r)" "unat v < qits i \<or> upper_value i c = 0"
      using 1(4) by (auto simp: denominate_level.simps [of i m v c r] denomination_u256_le
          simp flip: take_source_None)
    then have "v' = v" "c' = c" "r' = r" "unat v < qits i \<or> upper_value i c = 0"
      using 1(2) by auto
    then show ?thesis by (intro exI [of _ 0]) simp
  next
    case True
    then obtain j c1 where j: "take_source i c = Some j" "take_coin i j c = Ok c1" "wf_capacity c1"
      using take_coin_Ok [OF 1(3)] by blast
    have len: "length r \<noteq> m"
      and rec: "denominate_level i m (v - denomination_u256 (denom i)) c1 (r @ [denom i]) = Ok (v', c', r')"
      using 1(2) True j 1(4) by (auto simp: denominate_level.simps [of i m v c r] split: if_splits)
    obtain n where n: "r' = (r @ [denom i]) @ replicate n (denom i)"
      "unat v' + n * qits i = unat (v - denomination_u256 (denom i))"
      "inv.takes c1 (replicate n i) = Some c'" "unat v' < qits i \<or> upper_value i c' = 0"
      "length (r @ [denom i]) \<le> m \<longrightarrow> length r' \<le> m"
      using 1(1) [OF _ j(1) len j(2) rec j(3) 1(4)] True 1(4) by blast
    have v: "qits i \<le> unat v" "unat (v - denomination_u256 (denom i)) = unat v - qits i"
      using True 1(4) denomination_u256_le [of "denom i" v] unat_sub_denomination [of "denom i" v]
      by simp_all
    have "unat v' + Suc n * qits i = unat v"
      using n(2) v by simp
    moreover have "inv.takes c (replicate (Suc n) i) = Some c'"
      using n(3) take_at_eq [OF 1(3) j(1), of c1] j(2) by simp
    moreover have "length r \<le> m \<longrightarrow> length r' \<le> m"
      using n(5) len by auto
    moreover have "r' = r @ replicate (Suc n) (denom i)"
      using n(1) by simp
    ultimately show ?thesis
      using n(4) by blast
  qed
qed

lemma denominate_level_Err:
  assumes "denominate_level i m v c r = Err e" and "wf_capacity c"
  shows "e = LimitExceeded \<and> m < length r + unat v"
  using assms
proof (induction i m v c r rule: denominate_level.induct)
  case (1 i m v c r)
  have fits: "i < 15" "denomination_u256 (denom i) \<le> v" and src: "take_source i c \<noteq> None"
    using 1(2) by (auto simp: denominate_level.simps [of i m v c r] split: if_splits option.splits)
  then obtain j c1 where j: "take_source i c = Some j" "take_coin i j c = Ok c1" "wf_capacity c1"
    using take_coin_Ok [OF 1(3)] by blast
  have v: "0 < qits i" "qits i \<le> unat v" "unat (v - denomination_u256 (denom i)) = unat v - qits i"
    using fits denomination_u256_le [of "denom i" v] unat_sub_denomination [of "denom i" v] by simp_all
  have pos: "0 < unat v"
    using v(1,2) by linarith
  show ?case
  proof (cases "length r = m")
    case True
    then show ?thesis
      using 1(2) fits j pos by (simp add: denominate_level.simps [of i m v c r])
  next
    case False
    then have "denominate_level i m (v - denomination_u256 (denom i)) c1 (r @ [denom i]) = Err e"
      using 1(2) fits j by (simp add: denominate_level.simps [of i m v c r])
    then have "e = LimitExceeded \<and> m < length (r @ [denom i]) + unat (v - denomination_u256 (denom i))"
      using 1(1) [OF _ j(1) False j(2)] fits j(3) by blast
    then show ?thesis
      using v pos by (auto simp del: qits_pos)
  qed
qed

lemma denominate_levels_Ok:
  assumes "denominate_levels n m (v, c, r) = Ok (v', c', r')" and "wf_capacity c" and "n \<le> 15"
  shows "\<exists>is. r' = r @ map denom is \<and> set is \<subseteq> {..<n} \<and> sorted (rev is) \<and>
    unat v' + demand 0 is = unat v \<and> inv.takes c is = Some c' \<and>
    (0 < n \<longrightarrow> unat v' = 0 \<or> upper_value 0 c' = 0) \<and> (length r \<le> m \<longrightarrow> length r' \<le> m)"
  using assms
proof (induction n arbitrary: v c r)
  case 0
  then show ?case by (intro exI [of _ "[]"]) auto
next
  case (Suc n)
  then obtain v1 c1 r1 where lvl: "denominate_level n m v c r = Ok (v1, c1, r1)"
    and rest: "denominate_levels n m (v1, c1, r1) = Ok (v', c', r')"
    by (auto simp: result_simps)
  obtain q where q: "r1 = r @ replicate q (denom n)" "unat v1 + q * qits n = unat v"
    "inv.takes c (replicate q n) = Some c1" "unat v1 < qits n \<or> upper_value n c1 = 0"
    "length r \<le> m \<longrightarrow> length r1 \<le> m"
    using denominate_level_Ok [OF lvl Suc.prems(2)] Suc.prems(3) by auto
  have wf1: "wf_capacity c1"
    by (rule inv.takes_sound [OF Suc.prems(2) _ q(3)]) (use Suc.prems(3) in auto)
  obtain js where js: "r' = r1 @ map denom js" "set js \<subseteq> {..<n}" "sorted (rev js)"
    "unat v' + demand 0 js = unat v1" "inv.takes c1 js = Some c'"
    "0 < n \<longrightarrow> unat v' = 0 \<or> upper_value 0 c' = 0" "length r1 \<le> m \<longrightarrow> length r' \<le> m"
    using Suc.IH [OF rest wf1] Suc.prems(3) by auto
  have "unat v' = 0 \<or> upper_value 0 c' = 0"
    using js(2,4,5,6) q(4) rest by (cases n) (auto simp: qits_values)
  moreover have "sorted (rev (replicate q n @ js))"
    using js(2,3) by (auto simp: sorted_append)
  moreover have "set (replicate q n @ js) \<subseteq> {..<Suc n}"
    using js(2) by auto
  ultimately show ?case
    using q js by (intro exI [of _ "replicate q n @ js"]) (simp add: inv.takes_append map_replicate)
qed

lemma denominate_levels_Err:
  assumes "denominate_levels n m (v, c, r) = Err e" and "wf_capacity c" and "n \<le> 15"
  shows "e = LimitExceeded \<and> m < length r + unat v"
  using assms
proof (induction n arbitrary: v c r)
  case (Suc n)
  show ?case
  proof (cases "denominate_level n m v c r")
    case (Inl e')
    then show ?thesis
      using Suc.prems denominate_level_Err [OF Inl Suc.prems(2)] by simp
  next
    case (Inr s)
    obtain v1 c1 r1 where s: "s = (v1, c1, r1)" by (cases s)
    obtain q where q: "r1 = r @ replicate q (denom n)" "unat v1 + q * qits n = unat v"
      "inv.takes c (replicate q n) = Some c1"
      using denominate_level_Ok [of n m v c r v1 c1 r1] Suc.prems Inr s by auto
    have "wf_capacity c1"
      by (rule inv.takes_sound [OF Suc.prems(2) _ q(3)]) (use Suc.prems(3) in auto)
    then have e: "e = LimitExceeded" "m < length r1 + unat v1"
      using Suc.IH [of v1 c1 r1] Suc.prems(1,3) Inr s by simp_all
    have "q \<le> q * qits n" "length r1 = length r + q"
      using Suc.prems(3) q(1) by (simp_all add: Suc_le_eq)
    then have "m < length r + unat v"
      using e(2) q(2) by linarith
    then show ?thesis
      using e(1) by simp
  qed
qed simp

text \<open>The result as a run of \<open>takes\<close>, and its two errors.\<close>

lemma denominate_available_Ok:
  assumes "denominate_available v c m = Ok (r, c')" and "wf_capacity c"
  shows "\<exists>is. r = map denom is \<and> set is \<subseteq> {..<15} \<and> sorted (rev is) \<and> demand 0 is = unat v \<and>
    inv.takes c is = Some c' \<and> length r \<le> m"
proof -
  from assms(1) have "denominate_levels 15 m (v, c, []) = Ok (0, c', r)"
    by (auto simp: denominate_available_def result_simps split: if_splits prod.splits)
  from denominate_levels_Ok [OF this assms(2)] show ?thesis
    by auto
qed

lemma denominate_available_Err:
  assumes "denominate_available v c m = Err e" and "wf_capacity c"
  shows "e = LimitExceeded \<and> m < unat v \<or> e = InsufficientFunds \<and> upper_value 0 c < unat v"
proof (cases "denominate_levels 15 m (v, c, [])")
  case (Inl e')
  then show ?thesis
    using assms denominate_levels_Err [OF Inl assms(2)] by (simp add: denominate_available_def)
next
  case (Inr s)
  obtain v' c' r where s: "s = (v', c', r)" by (cases s)
  with assms(1) Inr have e: "e = InsufficientFunds" "v' \<noteq> 0"
    by (auto simp: denominate_available_def split: if_splits)
  obtain "is" where i: "set is \<subseteq> {..<15}" "unat v' + demand 0 is = unat v"
    "inv.takes c is = Some c'" "unat v' = 0 \<or> upper_value 0 c' = 0"
    using denominate_levels_Ok [of 15 m v c "[]" v' c' r] Inr s assms(2) by auto
  have "upper_value 0 c' + demand 0 is = upper_value 0 c"
    using inv.takes_conserve [OF assms(2) i(1,3)] by blast
  then show ?thesis
    using e i(2,4) by (metis add_cancel_left_left less_add_same_cancel2 unat_0_iff zero_less_iff_neq_zero)
qed

lemma denomination_at_level:
  assumes "i < 15"
  shows "denomination_u256 (denom i) = word_of_nat (qits i)"
    and "denomination_value (denom i) = word_of_nat (qits i)"
proof -
  have "qits i < 2 ^ 64"
    using qits_le [OF assms] by simp
  then show "denomination_u256 (denom i) = word_of_nat (qits i)"
    "denomination_value (denom i) = word_of_nat (qits i)"
    using assms by (simp_all add: word_unat_eq_iff unat_denomination_u256 unat_denomination_value
        unat_of_nat_small)
qed

lemmas level_eval =
  denominate_levels.simps(2) [of "pred_numeral n" for n, folded numeral_eq_Suc]
  borrow.simps(2) [of _ "pred_numeral n" for n, folded numeral_eq_Suc]
  denominate_level.simps denomination_at_level qits_values numeral_2_eq_2 [symmetric] take_source_def take_coin_def checked_add_def

lemmas largest_eval =
  largest_levels.simps(2) [of "pred_numeral n" for n, folded numeral_eq_Suc]
  largest_level.simps denomination_at_level qits_values numeral_2_eq_2 [symmetric]

lemma demand_dupper: "set is \<subseteq> {..<15} \<Longrightarrow> demand k is = dupper k (map denom is)"
  by (induction "is") (auto simp: dupper_Cons)

lemma denominate_available_cases:
  assumes "wf_capacity capacity"
  shows "case denominate_available v capacity m of
      Ok (outs, rest) \<Rightarrow>
        dvalue outs = unat v \<and> length outs \<le> m \<and> sorted (rev (map dix outs)) \<and>
        list_all wf_denomination outs \<and> wf_capacity rest \<and>
        (\<forall>k. dupper k outs + upper_value k rest \<le> upper_value k capacity) \<and>
        unat v + upper_value 0 rest = upper_value 0 capacity
    | Err e \<Rightarrow>
        e = LimitExceeded \<and> m < unat v \<or> e = InsufficientFunds \<and> upper_value 0 capacity < unat v"
proof (cases "denominate_available v capacity m")
  case (Inl e)
  then show ?thesis
    using denominate_available_Err [OF Inl assms] by simp
next
  case (Inr s)
  obtain outs rest where s: "s = (outs, rest)" by (cases s)
  obtain "is" where i: "outs = map denom is" "set is \<subseteq> {..<15}" "sorted (rev is)" "demand 0 is = unat v"
    "inv.takes capacity is = Some rest" "length outs \<le> m"
    using denominate_available_Ok [OF _ assms] Inr s by blast
  have ix: "map dix outs = is"
    using i(1,2) by (auto intro!: map_idI)
  have "list_all wf_denomination outs"
    using i(1,2) by (auto simp: list_all_iff)
  then show ?thesis
    using Inr s i inv.takes_conserve [OF assms i(2,5)] ix demand_dupper [OF i(2)]
    by (auto simp: add.commute)
qed

text \<open>
  C14: \<open>denominate_available\<close> pays out exactly the requested value, largest coins first, within the
  output limit, and conserves the inventory. At every level, the coins paid out at or above it
  and those left at or above it never exceed those held at or above it, so coins are split and
  never combined. It fails only when the limit is below the value, or with \<open>InsufficientFunds\<close>
  when the whole inventory is worth less than the value; \<open>Overflow\<close> and \<open>InvalidCoin\<close> do not
  arise for an inventory worth less than \<open>2 ^ 64\<close>.
\<close>

theorem denominate_available_exact:
  assumes "wf_capacity capacity"
  shows "case denominate_available v capacity m of
      Ok (outs, rest) \<Rightarrow>
        dvalue outs = unat v \<and> length outs \<le> m \<and> sorted (rev (map dix outs)) \<and>
        list_all wf_denomination outs \<and> wf_capacity rest \<and>
        (\<forall>k. dupper k outs + upper_value k rest \<le> upper_value k capacity) \<and>
        unat v + upper_value 0 rest = upper_value 0 capacity
    | Err e \<Rightarrow>
        e = LimitExceeded \<and> m < unat v \<or> e = InsufficientFunds \<and> upper_value 0 capacity < unat v"
  by (rule denominate_available_cases [OF assms])

theorem denominate_available_exact_witness:
  "denominate_available 7 ([0, 0, 1] @ replicate 12 0) 4 =
     Ok ([denom 1, denom 0, denom 0], [3] @ replicate 14 0) \<and>
   (\<forall>k. dupper k [denom 1, denom 0, denom 0] + upper_value k ([3] @ replicate 14 0)
      \<le> upper_value k ([0, 0, 1] @ replicate 12 0))"
proof -
  have wf: "wf_capacity ([0, 0, 1] @ replicate 12 0)"
    by (simp add: wf_capacity_def upper_value_code level_eval list_eval)
  have run: "denominate_available 7 ([0, 0, 1] @ replicate 12 0) 4 =
      Ok ([denom 1, denom 0, denom 0], [3] @ replicate 14 0)"
    by (simp add: denominate_available_def level_eval list_eval)
  show ?thesis
    using denominate_available_exact [OF wf, of 4 7] unfolding run by simp
qed

section \<open>The unbounded decomposition\<close>

text \<open>The greedy number of coins of level below \<open>n\<close> for a value.\<close>

primrec fewest :: "nat \<Rightarrow> nat \<Rightarrow> nat" where
  "fewest 0 v = 0"
| "fewest (Suc n) v = v div qits n + fewest n (v mod qits n)"

text \<open>Adding multiples of the next denomination costs at least one coin each below it.\<close>

lemma fewest_add:
  assumes "0 < n" and "n < 15"
  shows "fewest n x + k \<le> fewest n (x + k * qits n)"
proof -
  obtain p where p: "n = Suc p" using assms(1) by (cases n) auto
  then obtain a where a: "qits n = qits p * a" using qits_dvd_Suc [of p] assms(2) by (auto simp: dvd_def)
  have q: "0 < qits p" "0 < qits n" using p assms(2) by simp_all
  then have "0 < a" using a by (cases a) auto
  have kq: "k * qits n = qits p * (k * a)"
    by (simp add: a)
  have "(x + k * qits n) mod qits p = x mod qits p"
    unfolding kq by (rule mod_mult_self2)
  moreover have "(x + k * qits n) div qits p = x div qits p + k * a"
    unfolding kq using q by (simp add: div_mult_self2)
  moreover have "k \<le> k * a" using \<open>0 < a\<close> by simp
  ultimately show ?thesis by (simp add: p)
qed

lemma dvalue_partition: "dvalue ds = length (filter (\<lambda>d. dix d = n) ds) * qits n + dvalue (filter (\<lambda>d. dix d \<noteq> n) ds)"
  by (induction ds) auto

text \<open>No list of coins of level below \<open>n\<close> is shorter than the greedy one.\<close>

lemma fewest_least:
  assumes "n \<le> 15" and "\<forall>d \<in> set ds. dix d < n"
  shows "fewest n (dvalue ds) \<le> length ds"
  using assms
proof (induction n arbitrary: ds)
  case (Suc n)
  define t where "t = length (filter (\<lambda>d. dix d = n) ds)"
  define rest where "rest = filter (\<lambda>d. dix d \<noteq> n) ds"
  have v: "dvalue ds = t * qits n + dvalue rest" unfolding t_def rest_def by (rule dvalue_partition)
  have len: "length ds = t + length rest"
    unfolding t_def rest_def by (metis sum_length_filter_compl)
  have lv: "\<forall>d \<in> set rest. dix d < n" using Suc.prems(2) by (auto simp: rest_def)
  have q: "0 < qits n" using Suc.prems(1) by simp
  have "fewest n (dvalue rest) \<le> length rest"
    using Suc.IH lv Suc.prems(1) by simp
  moreover have "dvalue rest div qits n + fewest n (dvalue rest mod qits n) \<le> fewest n (dvalue rest)"
  proof (cases "n = 0")
    case True
    then have "rest = []" using lv by (cases rest) auto
    then show ?thesis by (simp add: True)
  next
    case False
    then show ?thesis
      using fewest_add [of n "dvalue rest mod qits n" "dvalue rest div qits n"] Suc.prems(1)
      by (simp add: add.commute mod_mult_div_eq mult.commute)
  qed
  ultimately show ?case
    using v len q by (simp add: add.commute)
qed simp

lemma largest_level_spec:
  assumes "i < 15" and "length r \<le> m"
  shows "largest_level i m v r =
    (if length r + unat v div qits i \<le> m
     then Ok (v mod denomination_u256 (denom i), r @ replicate (unat v div qits i) (denom i))
     else Err LimitExceeded)"
  using assms
proof (induction i m v r rule: largest_level.induct)
  case (1 i m v r)
  have u: "unat (denomination_u256 (denom i)) = qits i" "0 < qits i"
    using 1(2) by (simp_all add: unat_denomination_u256)
  show ?case
  proof (cases "denomination_u256 (denom i) \<le> v")
    case False
    then have "unat v < qits i" using u by (simp add: word_le_nat_alt)
    moreover from this have "v mod denomination_u256 (denom i) = v"
      by (simp add: word_unat_eq_iff unat_mod u)
    ultimately show ?thesis
      using False 1(3) by (simp add: largest_level.simps [of i m v r])
  next
    case True
    define w where "w = v - denomination_u256 (denom i)"
    have w: "unat v = unat w + qits i"
      using True u by (simp add: w_def unat_sub word_le_nat_alt)
    then have "w mod denomination_u256 (denom i) = v mod denomination_u256 (denom i)"
      by (simp add: word_unat_eq_iff unat_mod u)
    moreover have d: "unat v div qits i = Suc (unat w div qits i)"
      using w u(2) by (simp add: div_add_self2)
    ultimately show ?thesis
      using 1 True d by (auto simp: largest_level.simps [of i m v r] w_def [symmetric])
  qed
qed

lemma largest_levels_spec:
  assumes "n \<le> 15" and "length r \<le> m"
  shows "case largest_levels n m (v, r) of
      Ok (v', r') \<Rightarrow> \<exists>ds. r' = r @ ds \<and> dvalue ds + unat v' = unat v \<and> length ds = fewest n (unat v) \<and>
        list_all wf_denomination ds \<and> length r' \<le> m \<and> (0 < n \<longrightarrow> v' = 0)
    | Err e \<Rightarrow> e = LimitExceeded \<and> m < length r + fewest n (unat v)"
  using assms
proof (induction n arbitrary: v r)
  case (Suc n)
  define q where "q = unat v div qits n"
  define w where "w = v mod denomination_u256 (denom n)"
  have n: "n < 15" using Suc.prems by simp
  have w: "unat w = unat v mod qits n"
    using n by (simp add: w_def unat_mod unat_denomination_u256)
  have v: "q * qits n + unat w = unat v" by (simp add: q_def w)
  show ?case
  proof (cases "length r + q \<le> m")
    case False
    then show ?thesis
      using largest_level_spec [OF n Suc.prems(2), of v] n by (simp add: q_def)
  next
    case True
    then have run: "largest_levels (Suc n) m (v, r) = largest_levels n m (w, r @ replicate q (denom n))"
      using largest_level_spec [OF n Suc.prems(2), of v] n by (simp add: q_def w_def)
    have dv: "dvalue (replicate q (denom n)) = q * qits n"
      using n by (simp add: dvalue_def sum_list_replicate)
    have IH: "case largest_levels n m (w, r @ replicate q (denom n)) of
      Ok (v', r') \<Rightarrow> \<exists>ds. r' = (r @ replicate q (denom n)) @ ds \<and> dvalue ds + unat v' = unat w \<and>
        length ds = fewest n (unat w) \<and> list_all wf_denomination ds \<and> length r' \<le> m \<and> (0 < n \<longrightarrow> v' = 0)
    | Err e \<Rightarrow> e = LimitExceeded \<and> m < length (r @ replicate q (denom n)) + fewest n (unat w)"
      using Suc.IH [of "r @ replicate q (denom n)" w] Suc.prems True by simp
    show ?thesis
    proof (cases "largest_levels n m (w, r @ replicate q (denom n))")
      case (Inl e)
      then show ?thesis
        using IH run w by (simp add: q_def del: largest_levels.simps)
    next
      case (Inr s)
      obtain v' r' where s: "s = (v', r')" by (cases s)
      obtain ds where ds: "r' = (r @ replicate q (denom n)) @ ds" "dvalue ds + unat v' = unat w"
        "length ds = fewest n (unat w)" "list_all wf_denomination ds" "length r' \<le> m" "0 < n \<longrightarrow> v' = 0"
        using IH Inr s by auto
      have "v' = 0"
      proof (cases n)
        case 0
        then have "unat w = 0" using w by (simp add: qits_values)
        then show ?thesis using ds(2) by (simp add: unat_eq_0)
      qed (use ds(6) in simp)
      then show ?thesis
        using run Inr s ds dv v w n
        by (auto intro!: exI [of _ "replicate q (denom n) @ ds"] simp: q_def list_all_iff
            simp del: largest_levels.simps)
    qed
  qed
qed simp

lemma denominate_largest_cases:
  shows "case denominate_largest v m of
      Ok outs \<Rightarrow> dvalue outs = unat v \<and> length outs \<le> m \<and> list_all wf_denomination outs \<and>
        (\<forall>ds. list_all wf_denomination ds \<and> dvalue ds = unat v \<longrightarrow> length outs \<le> length ds)
    | Err e \<Rightarrow> e = LimitExceeded \<and>
        (\<forall>ds. list_all wf_denomination ds \<and> dvalue ds = unat v \<longrightarrow> m < length ds)"
proof -
  have least: "fewest 15 (unat v) \<le> length ds" if "list_all wf_denomination ds" "dvalue ds = unat v" for ds
    using fewest_least [of 15 ds] that by (auto simp: list_all_iff wf_denomination_def)
  show ?thesis
    using largest_levels_spec [of 15 "[]" m v] least
    by (fastforce simp: denominate_largest_def split: sum.splits prod.splits if_splits)
qed

text \<open>
  C17: \<open>denominate_largest\<close> decomposes every value exactly and with the fewest coins of any
  decomposition; it fails only with \<open>LimitExceeded\<close>, and then every decomposition exceeds the
  limit.
\<close>

theorem denominate_largest_optimal:
  shows "case denominate_largest v m of
      Ok outs \<Rightarrow> dvalue outs = unat v \<and> length outs \<le> m \<and> list_all wf_denomination outs \<and>
        (\<forall>ds. list_all wf_denomination ds \<and> dvalue ds = unat v \<longrightarrow> length outs \<le> length ds)
    | Err e \<Rightarrow> e = LimitExceeded \<and>
        (\<forall>ds. list_all wf_denomination ds \<and> dvalue ds = unat v \<longrightarrow> m < length ds)"
  by (rule denominate_largest_cases)

theorem denominate_largest_optimal_witness:
  "denominate_largest 27 5 = Ok [denom 2, denom 2, denom 1, denom 0, denom 0] \<and>
   length [denom 2, denom 2, denom 1, denom 0, denom 0] \<le> length (replicate 5 (denom 1) @ [denom 0, denom 0])"
proof -
  have run: "denominate_largest 27 5 = Ok [denom 2, denom 2, denom 1, denom 0, denom 0]"
    by (simp add: denominate_largest_def largest_eval)
  have "dvalue (replicate 5 (denom 1) @ [denom 0, denom 0]) = 27"
    by (simp add: list_eval qits_values)
  moreover have "list_all wf_denomination (replicate 5 (denom 1) @ [denom 0, denom 0])"
    by (simp add: list_all_iff)
  ultimately show ?thesis
    using denominate_largest_optimal [of 27 5] unfolding run by fastforce
qed

section \<open>Checking outputs against inputs\<close>

definition tally :: "denomination list \<Rightarrow> u64 list" where
  "tally ds = foldl (\<lambda>capacity d. capacity[dix d := capacity ! dix d + 1]) (replicate 15 0) ds"

primrec check_outputs :: "u64 list \<Rightarrow> denomination list \<Rightarrow> (unit, selection_error) result" where
  "check_outputs capacity [] = Ok ()"
| "check_outputs capacity (d # ds) =
     rbind (denominate_available (denomination_u256 d) capacity 1) (\<lambda>(outs, capacity').
       if outs \<noteq> [d] then Err InvalidRequest else check_outputs capacity' ds)"

text \<open>Equal sort keys are equal denominations, so the unstable sort has one possible result.\<close>

definition preserves_denominations ::
  "denomination list \<Rightarrow> denomination list \<Rightarrow> (unit, selection_error) result" where
  "preserves_denominations inputs outputs =
     (if inputs = [] \<or> 4096 < length inputs \<or> 4096 < length outputs then Err InvalidRequest
      else check_outputs (tally inputs) (rev (sort_key denomination_index outputs)))"

lemma tally_fold:
  assumes "length c = 15" and "\<forall>j < 15. unat (c ! j) + length ds < 2 ^ 64" and "list_all wf_denomination ds"
  defines "c' \<equiv> foldl (\<lambda>c d. c[dix d := c ! dix d + 1]) c ds"
  shows "length c' = 15 \<and> upper_value k c' = upper_value k c + dupper k ds"
  using assms(1-3) unfolding c'_def
proof (induction ds arbitrary: c)
  case (Cons d ds)
  have d: "dix d < 15" using Cons.prems(3) by (simp add: wf_denomination_def)
  then have "unat (c ! dix d) + 1 < 2 ^ 64"
    using Cons.prems(2) by fastforce
  then have inc: "unat (c ! dix d + 1) = unat (c ! dix d) + 1"
    by (simp add: unat_add_exact)
  have "upper_value k (c[dix d := c ! dix d + 1]) = upper_value k c + dupper k [d]"
    using upper_value_update [OF d Cons.prems(1), of k "c ! dix d + 1"]
    unfolding inc by (auto simp: dupper_Cons add_mult_distrib)
  moreover have "\<forall>j < 15. unat (c[dix d := c ! dix d + 1] ! j) + length ds < 2 ^ 64"
    using Cons.prems(1,2) d inc by (auto simp: nth_list_update)
  ultimately show ?case
    using Cons.IH [of "c[dix d := c ! dix d + 1]"] Cons.prems(1,3) by (simp add: dupper_Cons)
qed simp

lemma dvalue_bound: "list_all wf_denomination ds \<Longrightarrow> dvalue ds \<le> length ds * 1000000000"
  by (induction ds) (auto simp: wf_denomination_def dest: qits_le)

lemma tally_upper:
  assumes "list_all wf_denomination ds" and "length ds \<le> 4096"
  shows "wf_capacity (tally ds)" and "upper_value k (tally ds) = dupper k ds"
proof -
  have z: "upper_value j (replicate 15 0) = 0" for j
    by (simp add: upper_value_0_iff)
  have t: "length (tally ds) = 15 \<and> upper_value j (tally ds) = dupper j ds" for j
    using tally_fold [of "replicate 15 0" ds j] assms z [of j] by (simp add: tally_def)
  moreover have "dvalue ds < 2 ^ 64"
    using dvalue_bound [OF assms(1)] assms(2) by simp
  ultimately show "wf_capacity (tally ds)" "upper_value k (tally ds) = dupper k ds"
    by (simp_all add: wf_capacity_def)
qed

text \<open>Asking for the value of one coin with room for one output is taking that coin.\<close>

lemma levels_skip:
  assumes "n \<le> 15" and "\<And>j. l \<le> j \<Longrightarrow> j < n \<Longrightarrow> unat v < qits j" and "l \<le> n"
  shows "denominate_levels n m (v, c, r) = denominate_levels l m (v, c, r)"
  using assms
proof (induction n)
  case (Suc n)
  show ?case
  proof (cases "l = Suc n")
    case False
    then have "l \<le> n" and lt: "unat v < qits n" using Suc.prems by auto
    then have "denominate_level n m v c r = Ok (v, c, r)"
      using denomination_u256_le [of "denom n" v] Suc.prems(1)
      by (simp add: denominate_level.simps [of n m v c r])
    then show ?thesis
      using Suc.IH Suc.prems \<open>l \<le> n\<close> by simp
  qed simp
qed simp

lemma denominate_available_single:
  assumes "wf_capacity c" and "i < 15" and "take_at i c = Some c'"
  shows "denominate_available (denomination_u256 (denom i)) c 1 = Ok ([denom i], c')"
proof -
  let ?u = "denomination_u256 (denom i)"
  have u: "unat ?u = qits i" using assms(2) by (simp add: unat_denomination_u256)
  obtain j where j: "take_source i c = Some j" "take_coin i j c = Ok c'"
    using assms take_at_eq [OF assms(1)] by (auto simp: take_at_def split: option.splits)
  have "\<not> ?u \<le> 0"
    using u assms(2) by (auto simp: word_le_nat_alt)
  then have lvl: "denominate_level i 1 ?u c [] = Ok (0, c', [denom i])"
    using assms(2) j by (simp add: denominate_level.simps [of i "Suc 0" ?u c "[]"]
        denominate_level.simps [of i "Suc 0" 0 c' "[denom i]"])
  have "denominate_levels 15 1 (?u, c, []) = denominate_levels (Suc i) 1 (?u, c, [])"
    by (rule levels_skip) (use assms(2) u qits_strict_mono in auto)
  also have "\<dots> = denominate_levels i 1 (0, c', [denom i])"
    using lvl assms(2) by simp
  also have "\<dots> = denominate_levels 0 1 (0, c', [denom i])"
    by (rule levels_skip) (use assms(2) in auto)
  finally show ?thesis
    by (simp add: denominate_available_def)
qed

lemma denominate_available_single_Ok:
  assumes "wf_capacity c" and "i < 15" and "denominate_available (denomination_u256 (denom i)) c 1 = Ok (r, c')"
  shows "r = [denom i] \<and> take_at i c = Some c'"
proof -
  obtain "is" where i: "r = map denom is" "set is \<subseteq> {..<15}" "demand 0 is = qits i"
    "inv.takes c is = Some c'" "length r \<le> 1"
    using denominate_available_Ok [OF assms(3,1)] assms(2) by (auto simp: unat_denomination_u256)
  have "is \<noteq> []" using i(3) qits_pos [OF assms(2)] by (auto simp del: qits_pos)
  then obtain j where j: "is = [j]" "j < 15" using i(1,2,5) by (cases "is") auto
  then have "j = i"
    using i(3) assms(2) qits_strict_mono [of i j] qits_strict_mono [of j i] by (cases i j rule: linorder_cases) auto
  then show ?thesis using i j by (auto split: option.splits)
qed

lemma check_outputs_takes:
  assumes "wf_capacity c" and "set is \<subseteq> {..<15}"
  shows "check_outputs c (map denom is) = Ok () \<longleftrightarrow> inv.takes c is \<noteq> None"
  using assms
proof (induction "is" arbitrary: c)
  case (Cons i "is")
  have i: "i < 15" using Cons.prems(2) by simp
  show ?case
  proof (cases "take_at i c")
    case None
    then have "denominate_available (denomination_u256 (denom i)) c 1 \<noteq> Ok (r, c')" for r c'
      using denominate_available_single_Ok [OF Cons.prems(1) i] by fastforce
    then show ?thesis
      using None by (auto simp: result_simps)
  next
    case (Some c')
    then have "wf_capacity c'"
      using inv.take_Some [OF Cons.prems(1) i] by blast
    then show ?thesis
      using Some denominate_available_single [OF Cons.prems(1) i Some] Cons.IH [of c'] Cons.prems(2) by simp
  qed
qed simp

lemma preserves_denominations_iff:
  assumes "list_all wf_denomination ins" and "list_all wf_denomination outs"
  shows "preserves_denominations ins outs = Ok () \<longleftrightarrow>
    ins \<noteq> [] \<and> length ins \<le> 4096 \<and> length outs \<le> 4096 \<and> (\<forall>k < 15. dupper k outs \<le> dupper k ins)"
proof (cases "ins = [] \<or> 4096 < length ins \<or> 4096 < length outs")
  case False
  define ord where "ord = rev (sort_key denomination_index outs)"
  define js where "js = map dix ord"
  have set_ord: "mset ord = mset outs" by (simp add: ord_def)
  have js: "set js \<subseteq> {..<15}" "ord = map denom js"
    using assms(2) by (auto simp: js_def ord_def list_all_iff wf_denomination_def o_def)
  have "sorted (map denomination_index (sort_key denomination_index outs))"
    by simp
  then have "sorted (map dix (sort_key denomination_index outs))"
    by (simp add: sorted_map word_le_nat_alt del: sorted_sort_key)
  then have desc: "sorted (rev js)"
    by (simp add: js_def ord_def rev_map)
  have demand: "demand k js = dupper k outs" for k
  proof -
    have "mset (map (\<lambda>d. qits (dix d)) (filter (\<lambda>d. k \<le> dix d) ord)) =
        mset (map (\<lambda>d. qits (dix d)) (filter (\<lambda>d. k \<le> dix d) outs))"
      by (simp add: set_ord)
    then have "dupper k ord = dupper k outs"
      unfolding dupper_def dvalue_def by (metis sum_mset_sum_list)
    then show ?thesis using demand_dupper [OF js(1)] js(2) by simp
  qed
  have cap: "wf_capacity (tally ins)" "\<And>k. upper_value k (tally ins) = dupper k ins"
    using tally_upper [OF assms(1)] False by auto
  have "preserves_denominations ins outs = Ok () \<longleftrightarrow> inv.takes (tally ins) js \<noteq> None"
    using False check_outputs_takes [OF cap(1) js(1)] js(2)
    by (simp add: preserves_denominations_def flip: ord_def)
  then show ?thesis
    using inv.takes_iff [OF cap(1) js(1) desc] False by (simp add: demand cap(2) not_less)
qed (auto simp: preserves_denominations_def)

text \<open>
  C4: \<open>preserves_denominations\<close> accepts exactly the output lists that the inputs can be split
  into: within the size limits, for every level the outputs at or above it are worth no more
  than the inputs at or above it.
\<close>

theorem preserves_denominations_exact:
  assumes "list_all wf_denomination ins" and "list_all wf_denomination outs"
  shows "preserves_denominations ins outs = Ok () \<longleftrightarrow>
    ins \<noteq> [] \<and> length ins \<le> 4096 \<and> length outs \<le> 4096 \<and> (\<forall>k < 15. dupper k outs \<le> dupper k ins)"
  by (rule preserves_denominations_iff [OF assms])

theorem preserves_denominations_exact_witness:
  "preserves_denominations [denom 3] [denom 1, denom 2, denom 2] = Ok () \<and>
   preserves_denominations [denom 2, denom 2] [denom 3] \<noteq> Ok ()"
proof
  have up: "dupper k [denom 1, denom 2, denom 2] \<le> dupper k [denom 3]" for k
    by (simp add: dupper_Cons qits_values)
  show "preserves_denominations [denom 3] [denom 1, denom 2, denom 2] = Ok ()"
    using preserves_denominations_exact [of "[denom 3]" "[denom 1, denom 2, denom 2]"] up by simp
  have "\<not> dupper 3 [denom 3] \<le> dupper 3 [denom 2, denom 2]"
    by (simp add: dupper_Cons qits_values)
  then show "preserves_denominations [denom 2, denom 2] [denom 3] \<noteq> Ok ()"
    using preserves_denominations_exact [of "[denom 2, denom 2]" "[denom 3]"] by fastforce
qed

end
