(* ===== verification/Selection.thy ===== *)
theory Selection
  imports Inventory
begin

text \<open>
  Coin selection of \<open>quai-wallet/src/selection.rs\<close>: the candidate snapshot and its validation,
  the fewest-input choice, and the fee loop around it. The sweep and the threshold aggregation
  are in \<open>Sweep\<close>.
\<close>

section \<open>Snapshot, request and result\<close>

record candidate_coin =
  cc_outpoint :: outpoint
  cc_address :: qi_address
  cc_denomination :: denomination
  cc_unlock_height :: u256
  cc_expires_at :: "u256 option"
  cc_reserved :: bool

record selection_request =
  sr_zone :: zone
  sr_candidate_height :: u256
  sr_target :: u256
  sr_fee :: u256
  sr_max_fee :: u256
  sr_max_inputs :: nat
  sr_max_outputs :: nat

record coin_selection =
  cs_inputs :: "candidate_coin list"
  cs_spend_outputs :: "denomination list"
  cs_change_outputs :: "denomination list"
  cs_input_value :: u256
  cs_fee :: u256

definition candidate_coin_new :: "outpoint \<Rightarrow> qi_address \<Rightarrow> denomination \<Rightarrow> candidate_coin" where
  "candidate_coin_new p a d =
     \<lparr>cc_outpoint = p, cc_address = a, cc_denomination = d, cc_unlock_height = 0,
      cc_expires_at = None, cc_reserved = False\<rparr>"

definition selection_request_new :: "zone \<Rightarrow> u256 \<Rightarrow> u256 \<Rightarrow> nat \<Rightarrow> nat \<Rightarrow> selection_request" where
  "selection_request_new z h t ins outs =
     \<lparr>sr_zone = z, sr_candidate_height = h, sr_target = t, sr_fee = 0, sr_max_fee = 0,
      sr_max_inputs = ins, sr_max_outputs = outs\<rparr>"

definition with_fee :: "selection_request \<Rightarrow> u256 \<Rightarrow> u256 \<Rightarrow> selection_request" where
  "with_fee r f m = r\<lparr>sr_fee := f, sr_max_fee := m\<rparr>"

abbreviation coin_value :: "candidate_coin \<Rightarrow> u256" where
  "coin_value c \<equiv> denomination_u256 (cc_denomination c)"

section \<open>Validation and buckets\<close>

definition validate_request :: "selection_request \<Rightarrow> (unit, selection_error) result" where
  "validate_request r =
     (if sr_target r = 0 \<or> sr_max_fee r < sr_fee r \<or> sr_max_inputs r \<notin> {1..4096} \<or>
         sr_max_outputs r \<notin> {1..4096}
      then Err InvalidRequest else Ok ())"

definition bad_coin :: "outpoint set \<Rightarrow> candidate_coin \<Rightarrow> bool" where
  "bad_coin seen c \<longleftrightarrow>
     (let h = hash_bytes (op_hash (cc_outpoint c))
      in cc_outpoint c \<in> seen \<or> h ! 2 \<noteq> zone_byte (la_zone (cc_address c)) \<or> h = replicate 32 0)"

definition eligible :: "selection_request \<Rightarrow> candidate_coin \<Rightarrow> bool" where
  "eligible r c \<longleftrightarrow>
     la_zone (cc_address c) = sr_zone r \<and> \<not> cc_reserved c \<and>
     cc_unlock_height c \<le> sr_candidate_height r \<and>
     (case cc_expires_at c of None \<Rightarrow> True | Some height \<Rightarrow> sr_candidate_height r < height)"

type_synonym buckets = "candidate_coin list list"

definition push_coin :: "buckets \<Rightarrow> candidate_coin \<Rightarrow> buckets" where
  "push_coin b c = b[dix (cc_denomination c) := b ! dix (cc_denomination c) @ [c]]"

definition bucket_step ::
  "selection_request \<Rightarrow> outpoint set \<times> buckets \<Rightarrow> candidate_coin \<Rightarrow>
     (outpoint set \<times> buckets, selection_error) result" where
  "bucket_step r s c =
     (if bad_coin (fst s) c then Err InvalidCoin
      else Ok (insert (cc_outpoint c) (fst s), if eligible r c then push_coin (snd s) c else snd s))"

definition validate_and_bucket ::
  "candidate_coin list \<Rightarrow> selection_request \<Rightarrow> (buckets, selection_error) result" where
  "validate_and_bucket coins r =
     (if 100000 < length coins then Err LimitExceeded
      else rbind (try_fold (bucket_step r) ({}, replicate 15 []) coins) (\<lambda>s. Ok (snd s)))"

section \<open>Choosing inputs\<close>

primrec greedy_inputs ::
  "nat \<Rightarrow> u256 \<Rightarrow> candidate_coin list \<Rightarrow> u256 \<Rightarrow> candidate_coin list \<Rightarrow>
     (candidate_coin list \<times> u256, selection_error) result" where
  "greedy_inputs max_inputs required chosen tot [] = Ok (chosen, tot)"
| "greedy_inputs max_inputs required chosen tot (c # cs) =
     (if required \<le> tot then Ok (chosen, tot)
      else if length chosen = max_inputs then Err LimitExceeded
      else rbind (ok_or (checked_add tot (coin_value c)) Overflow)
        (\<lambda>t. greedy_inputs max_inputs required (chosen @ [c]) t cs))"

definition choose_inputs ::
  "buckets \<Rightarrow> nat \<Rightarrow> u256 \<Rightarrow> (candidate_coin list \<times> u256, selection_error) result" where
  "choose_inputs b max_inputs required =
     rbind (case find (\<lambda>c. required \<le> coin_value c) (concat b) of
         Some c \<Rightarrow> Ok ([c], coin_value c)
       | None \<Rightarrow> greedy_inputs max_inputs required [] 0 (concat (map rev (rev b))))
     (\<lambda>(chosen, tot). if tot < required then Err InsufficientFunds else Ok (chosen, tot))"

definition choose_coins ::
  "buckets \<Rightarrow> selection_request \<Rightarrow> u256 \<Rightarrow> bool \<Rightarrow> (coin_selection, selection_error) result" where
  "choose_coins b r required aggregated_spend =
     rbind (choose_inputs b (sr_max_inputs r) required) (\<lambda>(chosen, tot).
       let capacity = tally (map cc_denomination chosen)
       in rbind
         (if aggregated_spend
          then rbind (denominate_largest (sr_target r) (sr_max_outputs r)) (\<lambda>outs. Ok (outs, capacity))
          else denominate_available (sr_target r) capacity (sr_max_outputs r))
         (\<lambda>(spend, capacity').
           rbind (denominate_available (tot - required) capacity' (sr_max_outputs r - length spend))
             (\<lambda>(change, _).
               if MAX_TRANSACTION_MESSAGES < length chosen * 3 + length spend + length change + 3
               then Err LimitExceeded
               else Ok \<lparr>cs_inputs = chosen, cs_spend_outputs = spend, cs_change_outputs = change,
                 cs_input_value = tot, cs_fee = sr_fee r\<rparr>)))"

definition select_fewest_inner ::
  "candidate_coin list \<Rightarrow> selection_request \<Rightarrow> bool \<Rightarrow> (coin_selection, selection_error) result" where
  "select_fewest_inner coins r aggregated_spend =
     rbind (validate_request r) (\<lambda>_.
     rbind (ok_or (checked_add (sr_target r) (sr_fee r)) Overflow) (\<lambda>required.
     rbind (validate_and_bucket coins r) (\<lambda>b. choose_coins b r required aggregated_spend)))"

definition select_fewest ::
  "candidate_coin list \<Rightarrow> selection_request \<Rightarrow> (coin_selection, selection_error) result" where
  "select_fewest coins r = select_fewest_inner coins r False"

definition select_fewest_converting ::
  "candidate_coin list \<Rightarrow> selection_request \<Rightarrow> (coin_selection, selection_error) result" where
  "select_fewest_converting coins r = select_fewest_inner coins r True"

section \<open>The fee loop\<close>

text \<open>The estimator is the caller's \<open>FnMut\<close>: its captured state is passed through explicitly.\<close>

type_synonym 's estimator = "'s \<Rightarrow> coin_selection \<Rightarrow> (u256, selection_error) result \<times> 's"

primrec fee_rounds ::
  "'s estimator \<Rightarrow> buckets \<Rightarrow> u256 \<Rightarrow> nat \<Rightarrow> selection_request \<Rightarrow> 's \<Rightarrow>
     (coin_selection, selection_error) result" where
  "fee_rounds estimate b max_fee 0 current st = Err FeeDidNotConverge"
| "fee_rounds estimate b max_fee (Suc n) current st =
     rbind (ok_or (checked_add (sr_target current) (sr_fee current)) Overflow) (\<lambda>required.
     rbind (choose_coins b current required False) (\<lambda>selection.
       case estimate st selection of (quote, st') \<Rightarrow>
         rbind quote (\<lambda>quoted.
           if quoted \<le> sr_fee current then Ok selection
           else if max_fee < quoted then Err FeeBudgetExceeded
           else fee_rounds estimate b max_fee n (current\<lparr>sr_fee := quoted\<rparr>) st')))"

definition select_with_fee ::
  "candidate_coin list \<Rightarrow> selection_request \<Rightarrow> u8 \<Rightarrow> 's estimator \<Rightarrow> 's \<Rightarrow>
     (coin_selection, selection_error) result" where
  "select_with_fee coins r max_rounds estimate st =
     (if max_rounds \<notin> {1..32} then Err InvalidRequest
      else rbind (validate_request r) (\<lambda>_.
        rbind (validate_and_bucket coins r) (\<lambda>b.
          fee_rounds estimate b (sr_max_fee r) (unat max_rounds) r st)))"

section \<open>Sample values\<close>

text \<open>A small snapshot used by the concrete instances below.\<close>

definition sample_address :: qi_address where
  "sample_address = \<lparr>la_address = Address (0 # 0x80 # replicate 18 0), la_zone = Cyprus1\<rparr>"

definition sample_coin :: "u8 \<Rightarrow> nat \<Rightarrow> candidate_coin" where
  "sample_coin n i =
     candidate_coin_new \<lparr>op_hash = Hash32 (n # replicate 31 0), op_index = 0\<rparr> sample_address (denom i)"

definition sample_request :: "u256 \<Rightarrow> selection_request" where
  "sample_request target = with_fee (selection_request_new Cyprus1 5 target 10 10) 1 2"

section \<open>What the buckets hold\<close>

definition wf_coin :: "candidate_coin \<Rightarrow> bool" where
  "wf_coin c \<longleftrightarrow> wf_denomination (cc_denomination c) \<and> wf_outpoint (cc_outpoint c) \<and>
     wf_ledger_address Qi (cc_address c)"

definition coins_value :: "candidate_coin list \<Rightarrow> nat" where
  "coins_value cs = dvalue (map cc_denomination cs)"

definition valid_snapshot :: "candidate_coin list \<Rightarrow> bool" where
  "valid_snapshot coins \<longleftrightarrow> distinct (map cc_outpoint coins) \<and> (\<forall>c \<in> set coins. \<not> bad_coin {} c)"

lemma wf_sample_coin: "i < 15 \<Longrightarrow> wf_coin (sample_coin n i)"
  by (simp add: wf_coin_def sample_coin_def candidate_coin_new_def wf_outpoint_def wf_hash_def
      wf_ledger_address_def sample_address_def address_ledger_def address_zone_def zone_from_byte_def)

lemma wf_sample: "\<forall>c \<in> set [sample_coin 1 2]. wf_coin c"
  by (simp add: wf_sample_coin)

lemmas sample_eval =
  sample_coin_def candidate_coin_new_def sample_address_def sample_request_def with_fee_def
  selection_request_new_def validate_request_def validate_and_bucket_def bucket_step_def bad_coin_def
  eligible_def push_coin_def choose_inputs_def choose_coins_def tally_def denominate_available_def
  MAX_TRANSACTION_MESSAGES_def

lemma coins_value_simps [simp]:
  "coins_value [] = 0" "coins_value (c # cs) = qits (dix (cc_denomination c)) + coins_value cs"
  "coins_value (cs @ ds) = coins_value cs + coins_value ds"
  by (simp_all add: coins_value_def)

lemma bad_coin_seen: "bad_coin seen c \<longleftrightarrow> cc_outpoint c \<in> seen \<or> bad_coin {} c"
  by (auto simp: bad_coin_def Let_def)

lemma bucket_fold:
  "try_fold (bucket_step r) (seen, b) coins =
    (if (\<exists>c \<in> set coins. bad_coin {} c) \<or> \<not> distinct (map cc_outpoint coins) \<or>
        seen \<inter> cc_outpoint ` set coins \<noteq> {}
     then Err InvalidCoin
     else Ok (seen \<union> cc_outpoint ` set coins, foldl push_coin b (filter (eligible r) coins)))"
proof (induction coins arbitrary: seen b)
  case (Cons c coins)
  then show ?case
    using bad_coin_seen [of seen c] by (auto simp: bucket_step_def)
qed simp

lemma validate_and_bucket_eq:
  "validate_and_bucket coins r =
    (if 100000 < length coins then Err LimitExceeded
     else if valid_snapshot coins then Ok (foldl push_coin (replicate 15 []) (filter (eligible r) coins))
     else Err InvalidCoin)"
  by (auto simp: validate_and_bucket_def bucket_fold valid_snapshot_def)

lemma length_push_coin [simp]: "length (push_coin b c) = length b"
  by (simp add: push_coin_def)

text \<open>Bucket \<open>i\<close> holds the coins of level \<open>i\<close>, in snapshot order.\<close>

lemma push_coins:
  assumes "length b = 15" and "\<forall>c \<in> set coins. wf_coin c"
  shows "foldl push_coin b coins = map (\<lambda>i. b ! i @ filter (\<lambda>c. dix (cc_denomination c) = i) coins) [0..<15]"
  using assms
proof (induction coins arbitrary: b)
  case Nil
  then have "map (\<lambda>i. b ! i) [0..<15] = b"
    using map_nth [of b] by simp
  then show ?case by simp
next
  case (Cons c coins)
  have d: "dix (cc_denomination c) < 15"
    using Cons.prems(2) by (simp add: wf_coin_def wf_denomination_def)
  have "foldl push_coin b (c # coins) =
      map (\<lambda>i. push_coin b c ! i @ filter (\<lambda>c. dix (cc_denomination c) = i) coins) [0..<15]"
    using Cons.IH [of "push_coin b c"] Cons.prems by simp
  also have "\<dots> = map (\<lambda>i. b ! i @ filter (\<lambda>c. dix (cc_denomination c) = i) (c # coins)) [0..<15]"
    using d Cons.prems(1) by (intro map_cong) (auto simp: push_coin_def nth_list_update)
  finally show ?case .
qed

abbreviation level_buckets :: "candidate_coin list \<Rightarrow> buckets" where
  "level_buckets coins \<equiv> map (\<lambda>i. filter (\<lambda>c. dix (cc_denomination c) = i) coins) [0..<15]"

lemma buckets_eq:
  assumes "\<forall>c \<in> set coins. wf_coin c" and "validate_and_bucket coins r = Ok b"
  shows "b = level_buckets (filter (eligible r) coins)"
proof -
  have "b = foldl push_coin (replicate 15 []) (filter (eligible r) coins)"
    using assms(2) by (simp add: validate_and_bucket_eq split: if_splits)
  also have "\<dots> = map (\<lambda>i. replicate 15 [] ! i @
      filter (\<lambda>c. dix (cc_denomination c) = i) (filter (eligible r) coins)) [0..<15]"
    by (rule push_coins) (use assms(1) in auto)
  finally show ?thesis by simp
qed

lemma mset_by_level:
  assumes "\<forall>c \<in> set coins. f c < n"
  shows "mset (concat (map (\<lambda>i. filter (\<lambda>c. f c = i) coins) [0..<n])) = mset coins"
  using assms
proof (induction n arbitrary: coins)
  case (Suc n)
  let ?rest = "filter (\<lambda>c. f c \<noteq> n) coins"
  have same: "map (\<lambda>i. filter (\<lambda>c. f c = i) coins) [0..<n] = map (\<lambda>i. filter (\<lambda>c. f c = i) ?rest) [0..<n]"
    by (auto intro!: filter_cong)
  have "mset (concat (map (\<lambda>i. filter (\<lambda>c. f c = i) ?rest) [0..<n])) = mset ?rest"
    by (rule Suc.IH) (use Suc.prems in auto)
  then have "mset (concat (map (\<lambda>i. filter (\<lambda>c. f c = i) coins) [0..<Suc n])) =
      filter_mset (\<lambda>c. f c \<noteq> n) (mset coins) + filter_mset (\<lambda>c. f c = n) (mset coins)"
    unfolding upt_Suc_append [OF le0] map_append concat_append mset_append same by simp
  then show ?case
    using multiset_partition [of "mset coins" "\<lambda>c. f c = n"] by (simp add: union_commute)
qed simp

lemma sorted_by_level: "sorted (map f (concat (map (\<lambda>i. filter (\<lambda>c. f c = i) coins) [0..<n])))"
proof (induction n)
  case (Suc n)
  have "sorted (map f (filter (\<lambda>c. f c = n) coins))"
    by (induction coins) auto
  then show ?case using Suc by (auto simp: sorted_append)
qed simp

lemma rev_buckets: "concat (map rev (rev b)) = rev (concat b)"
  by (simp add: rev_concat rev_map)

text \<open>The ascending coin list of the buckets: a rearrangement of the eligible coins by level.\<close>

lemma level_buckets_props:
  assumes "\<forall>c \<in> set coins. wf_coin c"
  shows "mset (concat (level_buckets coins)) = mset coins"
    and "set (concat (level_buckets coins)) = set coins"
    and "sorted (map (\<lambda>c. dix (cc_denomination c)) (concat (level_buckets coins)))"
proof -
  have "\<forall>c \<in> set coins. dix (cc_denomination c) < 15"
    using assms by (auto simp: wf_coin_def wf_denomination_def)
  from mset_by_level [OF this]
  show m: "mset (concat (level_buckets coins)) = mset coins" .
  show "set (concat (level_buckets coins)) = set coins"
    using mset_eq_setD [OF m] .
  show "sorted (map (\<lambda>c. dix (cc_denomination c)) (concat (level_buckets coins)))"
    by (rule sorted_by_level)
qed

section \<open>The greedy choice\<close>

lemma coins_value_alt:
  "coins_value xs = sum_list (map (\<lambda>c. qits (dix (cc_denomination c))) xs)"
  "coins_value xs = sum_mset (image_mset (\<lambda>c. qits (dix (cc_denomination c))) (mset xs))"
  by (induction xs) auto

lemma coins_value_mset: "mset xs = mset ys \<Longrightarrow> coins_value xs = coins_value ys"
  by (simp add: coins_value_alt(2))

lemma coin_value_le: "coin_value c \<le> v \<longleftrightarrow> qits (dix (cc_denomination c)) \<le> unat v"
  by (rule denomination_u256_le)

text \<open>What the greedy loop takes is a prefix, no longer than the limit.\<close>

lemma greedy_inputs_Ok:
  assumes "greedy_inputs m required chosen tot cs = Ok (chosen', tot')" and "unat tot = coins_value chosen"
  shows "\<exists>k \<le> length cs. chosen' = chosen @ take k cs \<and> unat tot' = coins_value chosen' \<and>
    (k < length cs \<longrightarrow> required \<le> tot') \<and> (\<forall>j < k. coins_value (chosen @ take j cs) < unat required) \<and>
    (length chosen \<le> m \<longrightarrow> length chosen' \<le> m)"
  using assms
proof (induction cs arbitrary: chosen tot)
  case (Cons c cs)
  show ?case
  proof (cases "required \<le> tot")
    case True
    then show ?thesis
      using Cons.prems by (intro exI [of _ 0]) auto
  next
    case False
    then obtain t where t: "unat t = unat tot + qits (dix (cc_denomination c))" "length chosen \<noteq> m"
      "greedy_inputs m required (chosen @ [c]) t cs = Ok (chosen', tot')"
      using Cons.prems(1) by (auto simp: result_simps checked_simps unat_denomination_u256 split: if_splits)
    have "unat t = coins_value (chosen @ [c])"
      using t(1) Cons.prems(2) by simp
    from Cons.IH [OF t(3) this]
    obtain k where k: "k \<le> length cs" "chosen' = (chosen @ [c]) @ take k cs" "unat tot' = coins_value chosen'"
      "k < length cs \<longrightarrow> required \<le> tot'" "\<forall>j < k. coins_value ((chosen @ [c]) @ take j cs) < unat required"
      "length (chosen @ [c]) \<le> m \<longrightarrow> length chosen' \<le> m"
      by blast
    have "coins_value (chosen @ take j (c # cs)) < unat required" if "j < Suc k" for j
      using False Cons.prems(2) k(5) that by (cases j) (auto simp: word_le_nat_alt)
    moreover have "length chosen \<le> m \<longrightarrow> length chosen' \<le> m"
      using k(6) t(2) by auto
    ultimately show ?thesis
      using k by (intro exI [of _ "Suc k"]) auto
  qed
qed auto

lemma greedy_inputs_Err:
  assumes "greedy_inputs m required chosen tot cs = Err e" and "unat tot = coins_value chosen"
    and "coins_value chosen + coins_value cs < 2 ^ 256" and "length chosen \<le> m"
  shows "e = LimitExceeded \<and> m < length chosen + length cs \<and>
    coins_value (take m (chosen @ cs)) < unat required"
  using assms
proof (induction cs arbitrary: chosen tot)
  case (Cons c cs)
  have lt: "\<not> required \<le> tot" using Cons.prems(1) by (auto split: if_splits)
  show ?case
  proof (cases "length chosen = m")
    case True
    then show ?thesis
      using Cons.prems(1,2) lt by (auto simp: word_le_nat_alt)
  next
    case False
    have "unat tot + unat (coin_value c) < 2 ^ 256"
      using Cons.prems(2,3) by (simp add: unat_denomination_u256)
    then obtain t where t: "checked_add tot (coin_value c) = Some t"
      by (simp add: checked_add_def)
    then have "unat t = coins_value (chosen @ [c])"
      using Cons.prems(2) by (simp add: checked_simps unat_denomination_u256)
    moreover have "greedy_inputs m required (chosen @ [c]) t cs = Err e"
      using Cons.prems(1) lt False t by simp
    ultimately show ?thesis
      using Cons.IH [of "chosen @ [c]" t] Cons.prems(3,4) False by simp
  qed
qed simp

text \<open>
  The exchange argument: in a descending list, no choice of at most \<open>k\<close> members is worth more
  than the first \<open>k\<close>.
\<close>

lemma take_largest:
  fixes f :: "'a \<Rightarrow> nat"
  assumes "sorted (rev (map f xs))" and "T \<subseteq># mset xs" and "size T \<le> k"
  shows "sum_mset (image_mset f T) \<le> sum_list (map f (take k xs))"
  using assms
proof (induction xs arbitrary: T k)
  case (Cons x xs)
  show ?case
  proof (cases "T = {#}")
    case False
    then obtain z where "z \<in># T" by (auto dest: multiset_nonemptyE)
    then obtain y where y: "y \<in># T" "x \<in># T \<longrightarrow> y = x" by (cases "x \<in># T") auto
    define U where "U = T - {#y#}"
    have T: "T = add_mset y U" using y(1) by (simp add: U_def)
    obtain k' where k: "k = Suc k'" using Cons.prems(3) T by (cases k) auto
    have mem: "y \<in> set (x # xs)" using mset_subset_eqD [OF Cons.prems(2) y(1)] by simp
    then have fy: "f y \<le> f x" using Cons.prems(1) by (auto simp: sorted_append)
    have "U \<subseteq># mset xs"
    proof (cases "y = x")
      case True
      then show ?thesis using Cons.prems(2) T by simp
    next
      case ne: False
      then have "x \<notin># T" using y(2) by blast
      then have "T \<subseteq># mset xs"
        using Cons.prems(2) inter_add_right1 [of x T "mset xs"]
        by (simp add: subset_mset.inf.absorb_iff1)
      then show ?thesis
        unfolding U_def by (rule subset_mset.order_trans [OF diff_subset_eq_self])
    qed
    then have "sum_mset (image_mset f U) \<le> sum_list (map f (take k' xs))"
      using Cons.IH [of U k'] Cons.prems(1,3) T k by (auto simp: sorted_append)
    then show ?thesis using T k fy by simp
  qed simp
qed simp

lemma take_largest_coins:
  assumes "sorted (rev (map (\<lambda>c. dix (cc_denomination c)) xs))" and "\<forall>c \<in> set xs. wf_coin c"
    and "mset T \<subseteq># mset xs" and "length T \<le> k"
  shows "coins_value T \<le> coins_value (take k xs)"
proof -
  have "sorted (rev (map (\<lambda>c. qits (dix (cc_denomination c))) xs))"
    using assms(1,2)
    by (induction xs) (auto simp: sorted_append wf_coin_def wf_denomination_def intro: qits_mono)
  from take_largest [OF this assms(3), of k] show ?thesis
    using assms(4) by (simp add: coins_value_alt(2) [of T] coins_value_alt(1) [of "take k xs"])
qed

text \<open>
  The contract of the input choice over the eligible coins \<open>E\<close>: what is chosen covers the
  requirement with as few coins as any sub-multiset that does, and is the smallest single coin
  when one coin is enough.
\<close>

definition covers :: "candidate_coin list \<Rightarrow> nat \<Rightarrow> candidate_coin list \<Rightarrow> bool" where
  "covers E required T \<longleftrightarrow> mset T \<subseteq># mset E \<and> required \<le> coins_value T"

definition fewest_cover :: "candidate_coin list \<Rightarrow> nat \<Rightarrow> candidate_coin list \<Rightarrow> bool" where
  "fewest_cover E required T \<longleftrightarrow> covers E required T \<and>
     (\<forall>U. covers E required U \<longrightarrow> length T \<le> length U) \<and>
     (\<forall>c. covers E required [c] \<longrightarrow> length T = 1 \<and> coins_value T \<le> coins_value [c])"

lemma single_cover:
  assumes wf: "\<forall>c \<in> set E. wf_coin c" and pos: "0 < required"
    and found: "find (\<lambda>c. required \<le> qits (dix (cc_denomination c))) (concat (level_buckets E)) = Some c"
  shows "fewest_cover E required [c]"
proof -
  let ?L = "concat (level_buckets E)"
  obtain i where i: "i < length ?L" "required \<le> qits (dix (cc_denomination (?L ! i)))" "c = ?L ! i"
    "\<forall>j < i. \<not> required \<le> qits (dix (cc_denomination (?L ! j)))"
    using found unfolding find_Some_iff by blast
  have c: "c \<in> set E" "required \<le> qits (dix (cc_denomination c))"
    using i nth_mem [OF i(1)] unfolding level_buckets_props(2) [OF wf] by simp_all
  have "qits (dix (cc_denomination c)) \<le> qits (dix (cc_denomination d))"
    if d: "d \<in> set E" "required \<le> qits (dix (cc_denomination d))" for d
  proof -
    obtain j where j: "j < length ?L" "d = ?L ! j"
      using d(1) level_buckets_props(2) [OF wf] by (metis in_set_conv_nth)
    then have "i \<le> j" using i(4) d(2) by (metis not_less)
    then have "dix (cc_denomination c) \<le> dix (cc_denomination d)"
      using sorted_nth_mono [OF level_buckets_props(3) [OF wf], of i j] i j by simp
    then show ?thesis
      using d(1) wf by (auto simp: wf_coin_def wf_denomination_def intro: qits_mono)
  qed
  moreover have "0 < length U" if "covers E required U" for U
    using that pos by (cases U) (auto simp: covers_def)
  ultimately show ?thesis
    using c by (auto simp: fewest_cover_def covers_def Suc_le_eq)
qed

lemma prefix_cover:
  assumes wf: "\<forall>c \<in> set E. wf_coin c" and none: "\<forall>c \<in> set E. \<not> required \<le> qits (dix (cc_denomination c))"
    and D: "D = rev (concat (level_buckets E))" and k: "k \<le> length D"
    and enough: "required \<le> coins_value (take k D)" and least: "\<forall>j < k. coins_value (take j D) < required"
  shows "fewest_cover E required (take k D)"
proof -
  have desc: "sorted (rev (map (\<lambda>c. dix (cc_denomination c)) D))" "mset D = mset E"
    using level_buckets_props [OF wf] by (simp_all add: D rev_map)
  have wfD: "\<forall>c \<in> set D. wf_coin c"
    using wf mset_eq_setD [OF desc(2)] by simp
  have sub: "mset (take k D) \<subseteq># mset E"
    unfolding desc(2) [symmetric] by (metis append_take_drop_id mset_append mset_subset_eq_add_left)
  have "k \<le> length U" if "covers E required U" for U
  proof (rule ccontr)
    assume "\<not> k \<le> length U"
    then have "coins_value (take (length U) D) < required"
      using least by simp
    moreover have "coins_value U \<le> coins_value (take (length U) D)"
      using take_largest_coins [OF desc(1) wfD, of U "length U"] that desc(2) by (simp add: covers_def)
    ultimately have "coins_value U < required" by simp
    then show False using that by (simp add: covers_def)
  qed
  then show ?thesis
    using sub enough k none by (auto simp: fewest_cover_def covers_def)
qed

lemma choose_inputs_spec:
  assumes wf: "\<forall>c \<in> set E. wf_coin c" and pos: "0 < unat required" and m: "1 \<le> m"
    and bound: "coins_value E < 2 ^ 256"
  shows "case choose_inputs (level_buckets E) m required of
      Ok (chosen, tot) \<Rightarrow> fewest_cover E (unat required) chosen \<and> unat tot = coins_value chosen \<and> length chosen \<le> m
    | Err e \<Rightarrow> e = InsufficientFunds \<and> coins_value E < unat required \<or>
        e = LimitExceeded \<and> (\<forall>U. covers E (unat required) U \<longrightarrow> m < length U)"
proof (cases "find (\<lambda>c. required \<le> coin_value c) (concat (level_buckets E))")
  case (Some c)
  then have found: "find (\<lambda>c. unat required \<le> qits (dix (cc_denomination c))) (concat (level_buckets E)) = Some c"
    by (simp add: word_le_nat_alt unat_denomination_u256)
  have "\<not> coin_value c < required"
    using Some by (auto simp: find_Some_iff)
  then show ?thesis
    using single_cover [OF wf pos found] m
    by (simp add: choose_inputs_def Some unat_denomination_u256)
next
  case None
  define D where "D = rev (concat (level_buckets E))"
  have none: "\<forall>c \<in> set E. \<not> unat required \<le> qits (dix (cc_denomination c))"
    using None level_buckets_props(2) [OF wf]
    by (simp only: find_None_iff) (simp add: word_le_nat_alt unat_denomination_u256)
  have D: "sorted (rev (map (\<lambda>c. dix (cc_denomination c)) D))" "mset D = mset E"
    using level_buckets_props [OF wf] by (simp_all add: D_def rev_map)
  have wfD: "\<forall>c \<in> set D. wf_coin c"
    using wf mset_eq_setD [OF D(2)] by simp
  have val: "coins_value D = coins_value E" by (rule coins_value_mset [OF D(2)])
  have run: "choose_inputs (level_buckets E) m required =
      rbind (greedy_inputs m required [] 0 D) (\<lambda>(chosen, tot). if tot < required then Err InsufficientFunds else Ok (chosen, tot))"
    unfolding choose_inputs_def None rev_buckets D_def by simp
  show ?thesis
  proof (cases "greedy_inputs m required [] 0 D")
    case (Inl e)
    then have e: "e = LimitExceeded" "coins_value (take m D) < unat required"
      using greedy_inputs_Err [OF Inl] val bound by simp_all
    have "m < length U" if "covers E (unat required) U" for U
      using that take_largest_coins [OF D(1) wfD, of U m] D(2) e(2) by (cases "m < length U") (auto simp: covers_def)
    then show ?thesis using run Inl e by simp
  next
    case (Inr s)
    obtain chosen tot where s: "s = (chosen, tot)" by (cases s)
    have "\<exists>k \<le> length D. chosen = take k D \<and> unat tot = coins_value chosen \<and>
        (k < length D \<longrightarrow> required \<le> tot) \<and> (\<forall>j < k. coins_value (take j D) < unat required) \<and>
        length chosen \<le> m"
      using greedy_inputs_Ok [of m required "[]" 0 D chosen tot] Inr s by simp
    then obtain k where k: "k \<le> length D" "chosen = take k D" "unat tot = coins_value chosen"
      "k < length D \<longrightarrow> required \<le> tot" "\<forall>j < k. coins_value (take j D) < unat required" "length chosen \<le> m"
      by blast
    show ?thesis
    proof (cases "tot < required")
      case True
      then have "k = length D" using k(1,4) by auto
      then show ?thesis
        using True run Inr s k(2,3) val by (simp add: word_less_nat_alt)
    next
      case False
      then show ?thesis
        using run Inr s k prefix_cover [OF wf none D_def k(1) _ k(5)]
        by (simp add: word_less_nat_alt not_less)
    qed
  qed
qed

section \<open>The selection\<close>

definition selection_ok :: "candidate_coin list \<Rightarrow> selection_request \<Rightarrow> coin_selection \<Rightarrow> bool" where
  "selection_ok E r s \<longleftrightarrow>
     fewest_cover E (unat (sr_target r) + unat (sr_fee r)) (cs_inputs s) \<and>
     length (cs_inputs s) \<le> sr_max_inputs r \<and>
     length (cs_spend_outputs s) + length (cs_change_outputs s) \<le> sr_max_outputs r \<and>
     dvalue (cs_spend_outputs s) = unat (sr_target r) \<and>
     coins_value (cs_inputs s) = unat (sr_target r) + unat (sr_fee r) + dvalue (cs_change_outputs s) \<and>
     unat (cs_input_value s) = coins_value (cs_inputs s) \<and> cs_fee s = sr_fee r"

lemma covers_members: "covers E v T \<Longrightarrow> set T \<subseteq> set E"
  by (auto simp: covers_def dest: mset_subset_eqD)

lemma chosen_capacity:
  assumes "\<forall>c \<in> set E. wf_coin c" and "covers E v chosen" and "length chosen \<le> 4096"
  shows "wf_capacity (tally (map cc_denomination chosen))"
    and "upper_value k (tally (map cc_denomination chosen)) = dupper k (map cc_denomination chosen)"
    and "list_all wf_denomination (map cc_denomination chosen)"
proof -
  show wf: "list_all wf_denomination (map cc_denomination chosen)"
    using covers_members [OF assms(2)] assms(1) by (auto simp: list_all_iff wf_coin_def)
  show "wf_capacity (tally (map cc_denomination chosen))"
    "upper_value k (tally (map cc_denomination chosen)) = dupper k (map cc_denomination chosen)"
    using tally_upper [OF wf] assms(3) by simp_all
qed

text \<open>The spend step under both policies: it pays the target and leaves a sound inventory.\<close>

definition spend_outputs ::
  "bool \<Rightarrow> selection_request \<Rightarrow> u64 list \<Rightarrow> (denomination list \<times> u64 list, selection_error) result" where
  "spend_outputs aggregated_spend r capacity =
     (if aggregated_spend
      then rbind (denominate_largest (sr_target r) (sr_max_outputs r)) (\<lambda>outs. Ok (outs, capacity))
      else denominate_available (sr_target r) capacity (sr_max_outputs r))"

lemma spend_outputs_cases:
  assumes "wf_capacity c"
  shows "case spend_outputs agg r c of
      Ok (outs, rest) \<Rightarrow> dvalue outs = unat (sr_target r) \<and> length outs \<le> sr_max_outputs r \<and>
        list_all wf_denomination outs \<and> wf_capacity rest \<and>
        (\<not> agg \<longrightarrow> (\<forall>k. dupper k outs + upper_value k rest \<le> upper_value k c)) \<and>
        upper_value 0 c \<le> unat (sr_target r) + upper_value 0 rest
    | Err e \<Rightarrow> e = LimitExceeded \<or> e = InsufficientFunds \<and> upper_value 0 c < unat (sr_target r)"
  using denominate_available_cases [OF assms, where v = "sr_target r" and m = "sr_max_outputs r"]
    denominate_largest_cases [where v = "sr_target r" and m = "sr_max_outputs r"] assms
  by (cases agg; cases "denominate_largest (sr_target r) (sr_max_outputs r)")
    (auto simp: spend_outputs_def split: sum.splits)

lemma choose_coins_alt:
  "choose_coins b r required agg =
    rbind (choose_inputs b (sr_max_inputs r) required) (\<lambda>(chosen, tot).
    rbind (spend_outputs agg r (tally (map cc_denomination chosen))) (\<lambda>(spend, capacity').
    rbind (denominate_available (tot - required) capacity' (sr_max_outputs r - length spend)) (\<lambda>(change, _).
      if MAX_TRANSACTION_MESSAGES < length chosen * 3 + length spend + length change + 3 then Err LimitExceeded
      else Ok \<lparr>cs_inputs = chosen, cs_spend_outputs = spend, cs_change_outputs = change,
        cs_input_value = tot, cs_fee = sr_fee r\<rparr>)))"
  by (simp add: choose_coins_def spend_outputs_def Let_def)

lemma choose_coins_spec:
  assumes wf: "\<forall>c \<in> set E. wf_coin c" and bound: "coins_value E < 2 ^ 256"
    and lim: "1 \<le> sr_max_inputs r" "sr_max_inputs r \<le> 4096"
    and tgt: "0 < unat (sr_target r)" and req: "unat required = unat (sr_target r) + unat (sr_fee r)"
  shows "case choose_coins (level_buckets E) r required agg of
      Ok s \<Rightarrow> selection_ok E r s \<and> list_all wf_denomination (cs_spend_outputs s @ cs_change_outputs s) \<and>
        (\<not> agg \<longrightarrow> (\<forall>k. dupper k (cs_spend_outputs s @ cs_change_outputs s)
          \<le> dupper k (map cc_denomination (cs_inputs s))))
    | Err e \<Rightarrow> e = LimitExceeded \<or> e = InsufficientFunds \<and> coins_value E < unat required"
proof -
  have ci: "case choose_inputs (level_buckets E) (sr_max_inputs r) required of
      Ok (chosen, tot) \<Rightarrow> fewest_cover E (unat required) chosen \<and> unat tot = coins_value chosen \<and>
        length chosen \<le> sr_max_inputs r
    | Err e \<Rightarrow> e = InsufficientFunds \<and> coins_value E < unat required \<or>
        e = LimitExceeded \<and> (\<forall>U. covers E (unat required) U \<longrightarrow> sr_max_inputs r < length U)"
    by (rule choose_inputs_spec [OF wf _ lim(1) bound]) (use tgt req in simp)
  show ?thesis
  proof (cases "choose_inputs (level_buckets E) (sr_max_inputs r) required")
    case (Inl e)
    then show ?thesis using ci by (auto simp: choose_coins_alt)
  next
    case (Inr p)
    obtain chosen tot where p: "p = (chosen, tot)" by (cases p)
    have ch: "fewest_cover E (unat required) chosen" "unat tot = coins_value chosen" "length chosen \<le> sr_max_inputs r"
      using ci Inr p by simp_all
    then have cov: "covers E (unat required) chosen" by (simp add: fewest_cover_def)
    define cap where "cap = tally (map cc_denomination chosen)"
    have cap: "wf_capacity cap" "\<And>k. upper_value k cap = dupper k (map cc_denomination chosen)"
      using chosen_capacity [OF wf cov] ch(3) lim(2) by (simp_all add: cap_def)
    have worth: "upper_value 0 cap = coins_value chosen" using cap(2) [of 0] by (simp add: coins_value_def)
    have le: "required \<le> tot" using cov ch(2) by (simp add: covers_def word_le_nat_alt)
    then have rest: "unat (tot - required) = coins_value chosen - unat required"
      using ch(2) by (simp add: unat_sub)
    show ?thesis
    proof (cases "spend_outputs agg r cap")
      case (Inl e)
      then show ?thesis
        using spend_outputs_cases [OF cap(1), of r agg] Inr p cov req worth
        by (simp add: choose_coins_alt cap_def [symmetric] covers_def)
    next
      case (Inr q)
      obtain spend cap' where q: "q = (spend, cap')" by (cases q)
      have sp: "dvalue spend = unat (sr_target r)" "length spend \<le> sr_max_outputs r"
        "list_all wf_denomination spend" "wf_capacity cap'"
        "\<not> agg \<longrightarrow> (\<forall>k. dupper k spend + upper_value k cap' \<le> upper_value k cap)"
        "upper_value 0 cap \<le> unat (sr_target r) + upper_value 0 cap'"
        using spend_outputs_cases [OF cap(1), of r agg] Inr q by simp_all
      note av = denominate_available_cases [OF sp(4), where v = "tot - required" and m = "sr_max_outputs r - length spend"]
      have run: "choose_coins (level_buckets E) r required agg =
          rbind (denominate_available (tot - required) cap' (sr_max_outputs r - length spend)) (\<lambda>(change, _).
            if MAX_TRANSACTION_MESSAGES < length chosen * 3 + length spend + length change + 3 then Err LimitExceeded
            else Ok \<lparr>cs_inputs = chosen, cs_spend_outputs = spend, cs_change_outputs = change,
              cs_input_value = tot, cs_fee = sr_fee r\<rparr>)"
        using \<open>choose_inputs _ _ _ = _\<close> p Inr q by (simp add: choose_coins_alt cap_def)
      show ?thesis
      proof (cases "denominate_available (tot - required) cap' (sr_max_outputs r - length spend)")
        case (Inl e)
        then have "e = LimitExceeded"
          using av sp(6) rest worth req by auto
        then show ?thesis using run Inl by simp
      next
        case (Inr u)
        obtain change cap'' where u: "u = (change, cap'')" by (cases u)
        have up: "\<not> agg \<longrightarrow> (\<forall>k. dupper k (spend @ change) \<le> dupper k (map cc_denomination chosen))"
          using sp(5) av Inr u cap(2)
          by (auto simp: add_leD1) (metis (no_types, lifting) add_le_cancel_left add_leD1 order_trans)
        show ?thesis
          using run Inr u av sp ch req rest le up cov
          by (auto simp: selection_ok_def covers_def)
      qed
    qed
  qed
qed

lemma eligible_bound:
  assumes "\<forall>c \<in> set coins. wf_coin c" and "length coins \<le> 100000"
  shows "coins_value (filter P coins) < 2 ^ 256"
proof -
  have "coins_value (filter P coins) \<le> length (filter P coins) * 1000000000"
    using dvalue_bound [of "map cc_denomination (filter P coins)"] assms(1)
    by (simp add: coins_value_def list_all_iff wf_coin_def)
  also have "\<dots> \<le> 100000 * 1000000000"
    using assms(2) length_filter_le [of P coins] by (intro mult_le_mono1) linarith
  also have "\<dots> < 2 ^ 256" by simp
  finally show ?thesis .
qed

lemma validate_request_Ok:
  "validate_request r = Ok () \<longleftrightarrow> sr_target r \<noteq> 0 \<and> sr_fee r \<le> sr_max_fee r \<and>
    sr_max_inputs r \<in> {1..4096} \<and> sr_max_outputs r \<in> {1..4096}"
  by (auto simp: validate_request_def not_less)

lemma validate_request_Err: "validate_request r = Err e \<Longrightarrow> e = InvalidRequest"
  by (simp add: validate_request_def split: if_splits)

text \<open>One selection over a validated snapshot, as the plain and the fee-driven selectors run it.\<close>

lemma snapshot_choice:
  assumes "\<forall>c \<in> set coins. wf_coin c" and "validate_request r = Ok ()" and "validate_and_bucket coins r = Ok b"
    and "checked_add (sr_target r) (sr_fee r) = Some required"
  shows "case choose_coins b r required agg of
      Ok s \<Rightarrow> selection_ok (filter (eligible r) coins) r s \<and>
        list_all wf_denomination (cs_spend_outputs s @ cs_change_outputs s) \<and>
        (\<not> agg \<longrightarrow> (\<forall>k. dupper k (cs_spend_outputs s @ cs_change_outputs s)
          \<le> dupper k (map cc_denomination (cs_inputs s))))
    | Err e \<Rightarrow> e = LimitExceeded \<or> e = InsufficientFunds \<and>
        coins_value (filter (eligible r) coins) < unat (sr_target r) + unat (sr_fee r)"
proof -
  have len: "length coins \<le> 100000"
    using assms(3) by (simp add: validate_and_bucket_eq split: if_splits)
  have req: "unat required = unat (sr_target r) + unat (sr_fee r)"
    using assms(4) by (simp add: checked_simps)
  have "case choose_coins (level_buckets (filter (eligible r) coins)) r required agg of
      Ok s \<Rightarrow> selection_ok (filter (eligible r) coins) r s \<and>
        list_all wf_denomination (cs_spend_outputs s @ cs_change_outputs s) \<and>
        (\<not> agg \<longrightarrow> (\<forall>k. dupper k (cs_spend_outputs s @ cs_change_outputs s)
          \<le> dupper k (map cc_denomination (cs_inputs s))))
    | Err e \<Rightarrow> e = LimitExceeded \<or> e = InsufficientFunds \<and>
        coins_value (filter (eligible r) coins) < unat required"
    by (rule choose_coins_spec)
      (use assms(1,2) eligible_bound [OF assms(1) len] req in \<open>auto simp: validate_request_Ok unat_gt_0\<close>)
  then show ?thesis
    unfolding buckets_eq [OF assms(1,3)] req .
qed

lemma select_fewest_inner_Ok:
  "select_fewest_inner coins r agg = Ok s \<longleftrightarrow>
    validate_request r = Ok () \<and> (\<exists>required b. checked_add (sr_target r) (sr_fee r) = Some required \<and>
      validate_and_bucket coins r = Ok b \<and> choose_coins b r required agg = Ok s)"
  by (auto simp: select_fewest_inner_def result_simps)

lemma select_fewest_inner_sound:
  assumes "\<forall>c \<in> set coins. wf_coin c" and "select_fewest_inner coins r agg = Ok s"
  shows "selection_ok (filter (eligible r) coins) r s" and "valid_snapshot coins"
    and "list_all wf_denomination (cs_spend_outputs s @ cs_change_outputs s)"
    and "\<not> agg \<Longrightarrow> dupper k (cs_spend_outputs s @ cs_change_outputs s) \<le> dupper k (map cc_denomination (cs_inputs s))"
    and "validate_request r = Ok ()"
proof -
  obtain required b where v: "validate_request r = Ok ()" "checked_add (sr_target r) (sr_fee r) = Some required"
    "validate_and_bucket coins r = Ok b" "choose_coins b r required agg = Ok s"
    using assms(2) unfolding select_fewest_inner_Ok by blast
  show "valid_snapshot coins"
    using v(3) by (simp add: validate_and_bucket_eq split: if_splits)
  show "selection_ok (filter (eligible r) coins) r s" "list_all wf_denomination (cs_spend_outputs s @ cs_change_outputs s)"
    "\<not> agg \<Longrightarrow> dupper k (cs_spend_outputs s @ cs_change_outputs s) \<le> dupper k (map cc_denomination (cs_inputs s))"
    using snapshot_choice [OF assms(1) v(1,3,2), of agg] v(4) by simp_all
  show "validate_request r = Ok ()" by (rule v(1))
qed

lemma distinct_cover:
  assumes "distinct (map f E)" and "mset T \<subseteq># mset E"
  shows "distinct (map f T)"
proof -
  obtain U where "mset E = mset T + mset U"
    using assms(2) by (metis ex_mset mset_subset_eq_exists_conv)
  then have "mset (map f E) = mset (map f (T @ U))" by simp
  then have "distinct (map f (T @ U))"
    using assms(1) by (metis mset_eq_imp_distinct_iff)
  then show ?thesis by simp
qed

abbreviation sample_selection :: coin_selection where
  "sample_selection \<equiv> \<lparr>cs_inputs = [sample_coin 1 2], cs_spend_outputs = [denom 1, denom 0, denom 0],
     cs_change_outputs = [denom 0, denom 0], cs_input_value = 10, cs_fee = 1\<rparr>"

lemma sample_run: "select_fewest_inner [sample_coin 1 2] (sample_request 7) False = Ok sample_selection"
  by (simp add: select_fewest_inner_def sample_eval level_eval list_eval)

text \<open>
  C9: a selection of \<open>select_fewest\<close> or \<open>select_fewest_converting\<close> spends distinct, eligible coins
  of the snapshot, conserves value exactly (inputs = target + fee + change), reports its totals
  correctly and stays within the input and output limits.
\<close>

theorem select_fewest_conserves:
  assumes "\<forall>c \<in> set coins. wf_coin c" and "select_fewest_inner coins r aggregated = Ok s"
  shows "distinct (map cc_outpoint (cs_inputs s)) \<and>
    (\<forall>c \<in> set (cs_inputs s). c \<in> set coins \<and> eligible r c) \<and>
    dvalue (cs_spend_outputs s) = unat (sr_target r) \<and> cs_fee s = sr_fee r \<and>
    unat (cs_input_value s) = coins_value (cs_inputs s) \<and>
    coins_value (cs_inputs s) = unat (sr_target r) + unat (sr_fee r) + dvalue (cs_change_outputs s) \<and>
    length (cs_inputs s) \<le> sr_max_inputs r \<and>
    length (cs_spend_outputs s) + length (cs_change_outputs s) \<le> sr_max_outputs r"
proof -
  note f = select_fewest_inner_sound [OF assms]
  have sub: "mset (cs_inputs s) \<subseteq># mset (filter (eligible r) coins)"
    using f(1) by (simp add: selection_ok_def fewest_cover_def covers_def)
  then have "set (cs_inputs s) \<subseteq> set (filter (eligible r) coins)"
    by (metis set_mset_mono set_mset_mset)
  moreover have "distinct (map cc_outpoint (filter (eligible r) coins))"
    using f(2) by (simp add: valid_snapshot_def distinct_map_filter)
  ultimately show ?thesis
    using f(1) distinct_cover [OF _ sub] by (auto simp: selection_ok_def)
qed

theorem select_fewest_conserves_witness:
  "select_fewest_inner [sample_coin 1 2] (sample_request 7) False = Ok sample_selection \<and>
   coins_value [sample_coin 1 2] = unat (sr_target (sample_request 7)) + unat (sr_fee (sample_request 7)) +
     dvalue [denom 0, denom 0]"
  using select_fewest_conserves [OF wf_sample sample_run] sample_run
  by (simp only: coin_selection.select_convs simp_thms)

text \<open>
  C3: \<open>select_fewest\<close> is optimal: no sub-multiset of the eligible coins that covers target and
  fee has fewer coins, and when one coin is enough it takes the least valuable such coin.
\<close>

theorem select_fewest_optimal:
  assumes "\<forall>c \<in> set coins. wf_coin c" and "select_fewest_inner coins r aggregated = Ok s"
  shows "fewest_cover (filter (eligible r) coins) (unat (sr_target r) + unat (sr_fee r)) (cs_inputs s)"
  using select_fewest_inner_sound(1) [OF assms] by (simp add: selection_ok_def)

theorem select_fewest_optimal_witness:
  "select_fewest_inner [sample_coin 1 2] (sample_request 7) False = Ok sample_selection \<and>
   fewest_cover (filter (eligible (sample_request 7)) [sample_coin 1 2])
     (unat (sr_target (sample_request 7)) + unat (sr_fee (sample_request 7))) [sample_coin 1 2]"
  using select_fewest_optimal [OF wf_sample sample_run] sample_run
  by (simp only: coin_selection.select_convs simp_thms)

text \<open>
  C13: every ordinary selection passes the node's denomination rule: the outputs of
  \<open>select_fewest\<close>, recipient and change together, are accepted by \<open>preserves_denominations\<close>
  against its inputs.
\<close>

theorem select_fewest_preserves:
  assumes "\<forall>c \<in> set coins. wf_coin c" and "select_fewest coins r = Ok s"
  shows "preserves_denominations (map cc_denomination (cs_inputs s))
    (cs_spend_outputs s @ cs_change_outputs s) = Ok ()"
proof -
  note f = select_fewest_inner_sound [OF assms(1) assms(2) [unfolded select_fewest_def]]
  have req: "0 < unat (sr_target r)" "sr_max_inputs r \<le> 4096" "sr_max_outputs r \<le> 4096"
    using f(5) by (auto simp: validate_request_Ok unat_gt_0)
  have sel: "covers (filter (eligible r) coins) (unat (sr_target r) + unat (sr_fee r)) (cs_inputs s)"
    "length (cs_inputs s) \<le> sr_max_inputs r"
    "length (cs_spend_outputs s) + length (cs_change_outputs s) \<le> sr_max_outputs r"
    using f(1) by (simp_all add: selection_ok_def fewest_cover_def)
  have "cs_inputs s \<noteq> []"
    using sel(1) req(1) by (auto simp: covers_def)
  moreover have "list_all wf_denomination (map cc_denomination (cs_inputs s))"
    using covers_members [OF sel(1)] assms(1) by (auto simp: list_all_iff wf_coin_def)
  ultimately show ?thesis
    using preserves_denominations_iff [OF _ f(3)] f(4) sel(2,3) req by simp
qed

theorem select_fewest_preserves_witness:
  "select_fewest [sample_coin 1 2] (sample_request 7) = Ok sample_selection \<and>
   preserves_denominations [denom 2] [denom 1, denom 0, denom 0, denom 0, denom 0] = Ok ()"
proof -
  have "cc_denomination (sample_coin 1 2) = denom 2"
    by (simp add: sample_coin_def candidate_coin_new_def)
  then show ?thesis
    using select_fewest_preserves [OF wf_sample, unfolded select_fewest_def, OF sample_run] sample_run
    by (simp add: select_fewest_def)
qed



section \<open>The fee loop\<close>

lemma eligible_fee [simp]: "eligible (r\<lparr>sr_fee := f\<rparr>) = eligible r"
  by (simp add: eligible_def fun_eq_iff split: option.split)

lemma validate_and_bucket_fee [simp]:
  "validate_and_bucket coins (r\<lparr>sr_fee := f\<rparr>) = validate_and_bucket coins r"
  by (simp add: validate_and_bucket_eq)

lemma choose_coins_fee: "choose_coins b r required agg = Ok s \<Longrightarrow> cs_fee s = sr_fee r"
  by (auto simp: choose_coins_alt result_simps split: prod.splits if_splits)

lemma fee_rounds_Ok:
  assumes "fee_rounds estimate b m n r st = Ok s" and "sr_fee r \<le> m"
  shows "\<exists>f required st0 q st1. sr_fee r \<le> f \<and> f \<le> m \<and> checked_add (sr_target r) f = Some required \<and>
    choose_coins b (r\<lparr>sr_fee := f\<rparr>) required False = Ok s \<and> estimate st0 s = (Ok q, st1) \<and> q \<le> f"
  using assms
proof (induction n arbitrary: r st)
  case (Suc n)
  obtain required sel where sel: "checked_add (sr_target r) (sr_fee r) = Some required"
    "choose_coins b r required False = Ok sel"
    using Suc.prems(1) by (auto simp: rbind_eq_Ok ok_or_eq)
  obtain quote st' where est: "estimate st sel = (quote, st')" by (cases "estimate st sel")
  then obtain quoted where "quote = Ok quoted"
    using Suc.prems(1) sel by (auto simp: rbind_eq_Ok)
  note run = sel est [unfolded this]
  show ?case
  proof (cases "quoted \<le> sr_fee r")
    case True
    then have "sel = s" using Suc.prems(1) run by simp
    then have "choose_coins b (r\<lparr>sr_fee := sr_fee r\<rparr>) required False = Ok s" "estimate st s = (Ok quoted, st')"
      using run by simp_all
    then show ?thesis
      using run(1) True Suc.prems(2) order_refl by blast
  next
    case False
    then have q: "quoted \<le> m" "fee_rounds estimate b m n (r\<lparr>sr_fee := quoted\<rparr>) st' = Ok s"
      using Suc.prems(1) run by (auto simp: not_less split: if_splits)
    then obtain f required' st0 q' st1 where f: "quoted \<le> f" "f \<le> m" "checked_add (sr_target r) f = Some required'"
      "choose_coins b (r\<lparr>sr_fee := f\<rparr>) required' False = Ok s" "estimate st0 s = (Ok q', st1)" "q' \<le> f"
      using Suc.IH [of "r\<lparr>sr_fee := quoted\<rparr>" st'] by auto
    moreover have "sr_fee r \<le> f" using False f(1) by simp
    ultimately show ?thesis by blast
  qed
qed simp

text \<open>
  C15: \<open>select_with_fee\<close> returns a selection whose fee lies between the starting fee and the
  approved maximum, covers the estimator's own quote for exactly that selection, and is what
  \<open>select_fewest\<close> would choose for that fee.
\<close>

theorem select_with_fee_sound:
  assumes "select_with_fee coins r max_rounds estimate st = Ok s"
  shows "sr_fee r \<le> cs_fee s \<and> cs_fee s \<le> sr_max_fee r \<and>
    select_fewest coins (r\<lparr>sr_fee := cs_fee s\<rparr>) = Ok s \<and>
    (\<exists>st0 q st1. estimate st0 s = (Ok q, st1) \<and> q \<le> cs_fee s)"
proof -
  obtain b where v: "validate_request r = Ok ()" "validate_and_bucket coins r = Ok b"
    "fee_rounds estimate b (sr_max_fee r) (unat max_rounds) r st = Ok s"
    using assms by (auto simp: select_with_fee_def result_simps split: if_splits)
  have "sr_fee r \<le> sr_max_fee r" using v(1) by (simp add: validate_request_Ok)
  from fee_rounds_Ok [OF v(3) this]
  obtain f required st0 q st1 where f: "sr_fee r \<le> f" "f \<le> sr_max_fee r"
    "checked_add (sr_target r) f = Some required" "choose_coins b (r\<lparr>sr_fee := f\<rparr>) required False = Ok s"
    "estimate st0 s = (Ok q, st1)" "q \<le> f"
    by blast
  have fee: "cs_fee s = f" using choose_coins_fee [OF f(4)] by simp
  have "validate_request (r\<lparr>sr_fee := f\<rparr>) = Ok ()"
    using v(1) f(2) by (simp add: validate_request_Ok)
  then have "select_fewest coins (r\<lparr>sr_fee := f\<rparr>) = Ok s"
    using v(2) f(3,4) by (simp add: select_fewest_def select_fewest_inner_Ok)
  then show ?thesis using f fee by blast
qed

theorem select_with_fee_sound_witness:
  "\<exists>s. select_with_fee [sample_coin 1 2] (sample_request 7) 3 (\<lambda>st _. (Ok 1, st)) () = Ok s \<and>
    sr_fee (sample_request 7) \<le> cs_fee s \<and> cs_fee s \<le> sr_max_fee (sample_request 7)"
proof -
  have run: "select_with_fee [sample_coin 1 2] (sample_request 7) 3 (\<lambda>st _. (Ok 1, st)) () = Ok sample_selection"
    by (simp add: select_with_fee_def sample_eval level_eval list_eval
        fee_rounds.simps(2) [of _ _ _ "pred_numeral n" for n, folded numeral_eq_Suc])
  show ?thesis
    using run select_with_fee_sound [OF run] by (intro exI [of _ sample_selection] conjI) simp_all
qed

end
