(* ===== verification/Sweep.thy ===== *)
theory Sweep
  imports Selection
begin

text \<open>
  Sweeping and threshold aggregation: \<open>select_sweep\<close> of \<open>quai-wallet/src/selection.rs\<close> and
  \<open>select_aggregate\<close> of \<open>quai-wallet/src/selection/aggregation.rs\<close>. The aggregation indexes and
  slices its sorted coin list; \<open>None\<close> stands for the panic of an index out of range.
\<close>

section \<open>Policies\<close>

record aggregation_policy =
  ap_maximum_input :: denomination
  ap_maximum_output :: denomination
  ap_require_reduction :: bool

definition aggregation_policy_default :: aggregation_policy where
  "aggregation_policy_default =
     \<lparr>ap_maximum_input = denom 6, ap_maximum_output = denom 14, ap_require_reduction = True\<rparr>"

datatype sweep_mode =
    AggregateThreshold aggregation_policy
  | PreserveDenominations
  | Aggregate denomination

section \<open>Scanning the snapshot\<close>

definition skipped :: "selection_request \<Rightarrow> candidate_coin \<Rightarrow> bool" where
  "skipped r c \<longleftrightarrow>
     la_zone (cc_address c) \<noteq> sr_zone r \<or> cc_reserved c \<or>
     sr_candidate_height r < cc_unlock_height c \<or>
     (case cc_expires_at c of None \<Rightarrow> False | Some e \<Rightarrow> e \<le> sr_candidate_height r)"

definition sweep_request_invalid :: "selection_request \<Rightarrow> bool" where
  "sweep_request_invalid r \<longleftrightarrow>
     sr_target r \<noteq> 0 \<or> sr_max_fee r < sr_fee r \<or> sr_max_inputs r \<notin> {1..4096} \<or>
     sr_max_outputs r \<notin> {1..4096}"

record sweep_scan =
  ss_seen :: "outpoint set"
  ss_inputs :: "candidate_coin list"
  ss_capacity :: "u64 list"
  ss_total :: u256

definition sweep_step ::
  "selection_request \<Rightarrow> sweep_scan \<Rightarrow> candidate_coin \<Rightarrow> (sweep_scan, selection_error) result" where
  "sweep_step r s c =
     (if bad_coin (ss_seen s) c then Err InvalidCoin
      else let s = s\<lparr>ss_seen := insert (cc_outpoint c) (ss_seen s)\<rparr>
       in if skipped r c then Ok s
          else if length (ss_inputs s) = sr_max_inputs r then Err LimitExceeded
          else let i = dix (cc_denomination c); capacity = (ss_capacity s)[i := ss_capacity s ! i + 1]
           in rbind (ok_or (checked_add (ss_total s) (coin_value c)) Overflow) (\<lambda>tot.
                Ok (s\<lparr>ss_capacity := capacity, ss_total := tot, ss_inputs := ss_inputs s @ [c]\<rparr>)))"

text \<open>The loop over denominations from the largest permitted one down, by division.\<close>

primrec fill_levels ::
  "nat \<Rightarrow> nat \<Rightarrow> u256 \<Rightarrow> denomination list \<Rightarrow> (denomination list, selection_error) result" where
  "fill_levels 0 max_outputs value outputs = Ok outputs"
| "fill_levels (Suc i) max_outputs value outputs =
     rbind (selection_denomination i) (\<lambda>d.
       let unit = denomination_u256 d; count = value div unit
       in if word_of_nat (max_outputs - length outputs) < count then Err LimitExceeded
          else fill_levels i max_outputs (value mod unit) (outputs @ replicate (unat count) d))"

section \<open>Threshold aggregation\<close>

record aggregate_scan =
  as_seen :: "outpoint set"
  as_buckets :: buckets
  as_total :: u256
  as_small :: u256

definition aggregate_step ::
  "selection_request \<Rightarrow> aggregation_policy \<Rightarrow> aggregate_scan \<Rightarrow> candidate_coin \<Rightarrow>
     (aggregate_scan, selection_error) result" where
  "aggregate_step r p s c =
     (if bad_coin (as_seen s) c then Err InvalidCoin
      else let s = s\<lparr>as_seen := insert (cc_outpoint c) (as_seen s)\<rparr>
       in if skipped r c then Ok s
          else rbind (ok_or (checked_add (as_total s) (coin_value c)) Overflow) (\<lambda>tot.
            rbind (if denomination_index (cc_denomination c) \<le> denomination_index (ap_maximum_input p)
                   then ok_or (checked_add (as_small s) (coin_value c)) Overflow else Ok (as_small s))
              (\<lambda>small. Ok (s\<lparr>as_total := tot, as_small := small, as_buckets := push_coin (as_buckets s) c\<rparr>))))"

text \<open>
  The two \<open>while\<close> loops over the sorted list; the last argument is the part of the list from the
  running index on, and reaching its end is the index panic.
\<close>

primrec extend_interval :: "u256 \<Rightarrow> u256 \<Rightarrow> nat \<Rightarrow> candidate_coin list \<Rightarrow> (u256 \<times> nat) option" where
  "extend_interval wanted aggregate fin [] = (if aggregate < wanted then None else Some (aggregate, fin))"
| "extend_interval wanted aggregate fin (c # cs) =
     (if aggregate < wanted then extend_interval wanted (aggregate + coin_value c) (Suc fin) cs
      else Some (aggregate, fin))"

primrec shrink_interval ::
  "u256 \<Rightarrow> u256 \<Rightarrow> u256 \<Rightarrow> nat \<Rightarrow> candidate_coin list \<Rightarrow> (u256 \<times> nat) option" where
  "shrink_interval tot fee aggregate start [] =
     (if tot - aggregate < fee then None else Some (aggregate, start))"
| "shrink_interval tot fee aggregate start (c # cs) =
     (if tot - aggregate < fee then shrink_interval tot fee (aggregate - coin_value c) (Suc start) cs
      else Some (aggregate, start))"

primrec fee_inputs ::
  "nat \<Rightarrow> u256 \<Rightarrow> nat \<Rightarrow> nat \<Rightarrow> nat \<Rightarrow> candidate_coin list \<Rightarrow> u256 \<Rightarrow> candidate_coin list \<Rightarrow>
     (candidate_coin list \<times> u256, selection_error) result" where
  "fee_inputs max_inputs fee start fin i inputs fee_value [] = Ok (inputs, fee_value)"
| "fee_inputs max_inputs fee start fin i inputs fee_value (c # cs) =
     (if fee \<le> fee_value then Ok (inputs, fee_value)
      else if start \<le> i \<and> i < fin then fee_inputs max_inputs fee start fin (Suc i) inputs fee_value cs
      else if length inputs = max_inputs then Err LimitExceeded
      else fee_inputs max_inputs fee start fin (Suc i) (inputs @ [c]) (fee_value + coin_value c) cs)"

definition aggregate_outputs ::
  "selection_request \<Rightarrow> aggregation_policy \<Rightarrow> u256 \<Rightarrow> u256 \<Rightarrow> candidate_coin list \<Rightarrow>
     (coin_selection, selection_error) result" where
  "aggregate_outputs r p aggregate fee_value inputs =
     (let levels = Suc (dix (ap_maximum_output p))
      in rbind (fill_levels levels (sr_max_outputs r) aggregate []) (\<lambda>outs.
         rbind (fill_levels levels (sr_max_outputs r) (fee_value - sr_fee r) outs) (\<lambda>outputs.
           if outputs = [] \<or> ap_require_reduction p \<and> length inputs \<le> length outputs then Err InvalidRequest
           else if MAX_TRANSACTION_MESSAGES < length inputs * 3 + length outputs + 3 then Err LimitExceeded
           else Ok \<lparr>cs_inputs = inputs, cs_spend_outputs = outputs, cs_change_outputs = [],
             cs_input_value = aggregate + fee_value, cs_fee = sr_fee r\<rparr>)))"

definition aggregate_interval ::
  "selection_request \<Rightarrow> aggregation_policy \<Rightarrow> candidate_coin list \<Rightarrow> u256 \<Rightarrow> u256 \<Rightarrow> nat \<Rightarrow> nat \<Rightarrow>
     (coin_selection, selection_error) result option" where
  "aggregate_interval r p ordered tot aggregate start fin =
     (case fee_inputs (sr_max_inputs r) (sr_fee r) start fin 0 [] 0 ordered of
        Inl e \<Rightarrow> Some (Err e)
      | Inr (inputs, fee_value) \<Rightarrow>
          if fee_value < sr_fee r then Some (Err InsufficientFunds)
          else if fin < start \<or> sr_max_inputs r < length inputs then None
          else if sr_max_inputs r - length inputs < fin - start then Some (Err LimitExceeded)
          else if length ordered < fin then None
          else Some (aggregate_outputs r p aggregate fee_value
            (inputs @ take (fin - start) (drop start ordered))))"

definition saturating_sub :: "u256 \<Rightarrow> u256 \<Rightarrow> u256" where
  "saturating_sub a b = (if a < b then 0 else a - b)"

definition select_aggregate ::
  "candidate_coin list \<Rightarrow> selection_request \<Rightarrow> aggregation_policy \<Rightarrow>
     (coin_selection, selection_error) result option" where
  "select_aggregate coins r p =
     (if sweep_request_invalid r then Some (Err InvalidRequest)
      else if 100000 < length coins then Some (Err LimitExceeded)
      else case try_fold (aggregate_step r p)
          \<lparr>as_seen = {}, as_buckets = replicate 15 [], as_total = 0, as_small = 0\<rparr> coins of
        Inl e \<Rightarrow> Some (Err e)
      | Inr s \<Rightarrow>
          if as_total s \<le> sr_fee r \<or> as_small s = 0 then Some (Err InsufficientFunds)
          else let large = as_total s - as_small s;
                   wanted = as_small s - saturating_sub (sr_fee r) large;
                   ordered = concat (as_buckets s)
           in case extend_interval wanted 0 0 ordered of
                None \<Rightarrow> None
              | Some (aggregate, fin) \<Rightarrow>
                  (case shrink_interval (as_total s) (sr_fee r) aggregate 0 ordered of
                     None \<Rightarrow> None
                   | Some (aggregate, start) \<Rightarrow>
                       aggregate_interval r p ordered (as_total s) aggregate start fin))"

section \<open>Sweeping\<close>

definition sweep_outputs ::
  "selection_request \<Rightarrow> sweep_mode \<Rightarrow> sweep_scan \<Rightarrow> (denomination list, selection_error) result option" where
  "sweep_outputs r mode s =
     (let value = ss_total s - sr_fee r
      in case mode of
           AggregateThreshold _ \<Rightarrow> None
         | PreserveDenominations \<Rightarrow>
             Some (rbind (denominate_available value (ss_capacity s) (sr_max_outputs r)) (\<lambda>(outs, _). Ok outs))
         | Aggregate maximum \<Rightarrow>
             Some (rbind (fill_levels (Suc (dix maximum)) (sr_max_outputs r) value []) (\<lambda>outs.
               if length (ss_inputs s) \<le> length outs then Err InvalidRequest else Ok outs)))"

definition select_sweep ::
  "candidate_coin list \<Rightarrow> selection_request \<Rightarrow> sweep_mode \<Rightarrow> (coin_selection, selection_error) result option" where
  "select_sweep coins r mode =
     (case mode of AggregateThreshold p \<Rightarrow> select_aggregate coins r p
      | _ \<Rightarrow>
        if sweep_request_invalid r then Some (Err InvalidRequest)
        else if 100000 < length coins then Some (Err LimitExceeded)
        else case try_fold (sweep_step r)
            \<lparr>ss_seen = {}, ss_inputs = [], ss_capacity = replicate 15 0, ss_total = 0\<rparr> coins of
          Inl e \<Rightarrow> Some (Err e)
        | Inr s \<Rightarrow>
            if ss_total s \<le> sr_fee r then Some (Err InsufficientFunds)
            else case sweep_outputs r mode s of
              None \<Rightarrow> None
            | Some res \<Rightarrow> Some (rbind res (\<lambda>outs.
                if MAX_TRANSACTION_MESSAGES < length (ss_inputs s) * 3 + length outs + 3
                then Err LimitExceeded
                else Ok \<lparr>cs_inputs = ss_inputs s, cs_spend_outputs = outs, cs_change_outputs = [],
                  cs_input_value = ss_total s, cs_fee = sr_fee r\<rparr>)))"

section \<open>Filling by division\<close>

lemma skipped_eligible: "skipped r c \<longleftrightarrow> \<not> eligible r c"
  by (auto simp: skipped_def eligible_def not_le not_less split: option.splits)

lemma fill_levels_Ok:
  assumes "fill_levels n m v outs = Ok outs'" and "n \<le> 15" and "length outs \<le> m" and "m \<le> 4096"
  shows "\<exists>ds. outs' = outs @ ds \<and> (\<forall>d \<in> set ds. dix d < n) \<and> length outs' \<le> m \<and>
    (0 < n \<longrightarrow> dvalue ds = unat v)"
  using assms
proof (induction n arbitrary: v outs)
  case (Suc n)
  define q where "q = v div denomination_u256 (denom n)"
  define w where "w = v mod denomination_u256 (denom n)"
  have n: "n < 15" using Suc.prems(2) by simp
  have u: "unat q = unat v div qits n" "unat w = unat v mod qits n"
    using n by (simp_all add: q_def w_def unat_div unat_mod unat_denomination_u256)
  have lim: "\<not> word_of_nat (m - length outs) < q"
    and rest: "fill_levels n m w (outs @ replicate (unat q) (denom n)) = Ok outs'"
    using Suc.prems(1) n by (simp_all add: Let_def q_def w_def split: if_splits)
  have "unat (word_of_nat (m - length outs) :: u256) = m - length outs"
    using Suc.prems(4) by (intro unat_of_nat_small) simp
  then have fits: "length (outs @ replicate (unat q) (denom n)) \<le> m"
    using lim Suc.prems(3) by (simp add: word_less_nat_alt not_less)
  obtain ds where ds: "outs' = (outs @ replicate (unat q) (denom n)) @ ds" "\<forall>d \<in> set ds. dix d < n"
    "length outs' \<le> m" "0 < n \<longrightarrow> dvalue ds = unat w"
    using Suc.IH [OF rest _ fits Suc.prems(4)] Suc.prems(2) by auto
  have "dvalue ds = unat w"
  proof (cases n)
    case 0
    then have "ds = []" "unat w = 0" using ds(2) u(2) by (auto simp: qits_values)
    then show ?thesis by simp
  qed (use ds(4) in simp)
  then have "dvalue (replicate (unat q) (denom n) @ ds) = unat v"
    using n by (simp add: u dvalue_def sum_list_replicate)
  moreover have "\<forall>d \<in> set (replicate (unat q) (denom n) @ ds). dix d < Suc n"
    using ds(2) n by (auto simp: less_Suc_eq)
  ultimately show ?case
    using ds(1,3) by (intro exI [of _ "replicate (unat q) (denom n) @ ds"]) simp
qed simp

lemma fill_levels_Err:
  assumes "fill_levels n m v outs = Err e" and "n \<le> 15"
  shows "e = LimitExceeded"
  using assms by (induction n arbitrary: v outs) (auto simp: Let_def split: if_splits)

section \<open>The sweep\<close>

definition scan_ok :: "selection_request \<Rightarrow> sweep_scan \<Rightarrow> bool" where
  "scan_ok r s \<longleftrightarrow> ss_capacity s = tally (map cc_denomination (ss_inputs s)) \<and>
     unat (ss_total s) = coins_value (ss_inputs s) \<and> length (ss_inputs s) \<le> sr_max_inputs r"

lemma tally_snoc: "tally (ds @ [d]) = (tally ds)[dix d := tally ds ! dix d + 1]"
  by (simp add: tally_def)

lemma sweep_fold:
  assumes "try_fold (sweep_step r) s coins = Ok s'" and "scan_ok r s"
  shows "scan_ok r s' \<and> ss_inputs s' = ss_inputs s @ filter (eligible r) coins \<and>
    distinct (map cc_outpoint coins) \<and> ss_seen s \<inter> cc_outpoint ` set coins = {}"
  using assms
proof (induction coins arbitrary: s)
  case (Cons c coins)
  obtain t where t: "sweep_step r s c = Ok t" "try_fold (sweep_step r) t coins = Ok s'"
    using Cons.prems(1) by (auto simp: rbind_eq_Ok)
  have good: "cc_outpoint c \<notin> ss_seen s"
    using t(1) by (auto simp: sweep_step_def bad_coin_def Let_def split: if_splits)
  have "scan_ok r t \<and> ss_inputs t = ss_inputs s @ filter (eligible r) [c] \<and> ss_seen t = insert (cc_outpoint c) (ss_seen s)"
    using t(1) Cons.prems(2)
    by (auto simp: sweep_step_def scan_ok_def Let_def skipped_eligible result_simps checked_simps tally_snoc
        unat_denomination_u256 split: if_splits)
  then show ?case
    using Cons.IH [OF t(2)] good by auto
qed simp

definition sweep_ok ::
  "candidate_coin list \<Rightarrow> selection_request \<Rightarrow> coin_selection \<Rightarrow> bool" where
  "sweep_ok coins r s \<longleftrightarrow>
     distinct (map cc_outpoint (cs_inputs s)) \<and> (\<forall>c \<in> set (cs_inputs s). c \<in> set coins \<and> eligible r c) \<and>
     coins_value (cs_inputs s) = dvalue (cs_spend_outputs s) + unat (sr_fee r) \<and>
     unat (cs_input_value s) = coins_value (cs_inputs s) \<and> cs_change_outputs s = [] \<and>
     cs_fee s = sr_fee r \<and> length (cs_inputs s) \<le> sr_max_inputs r \<and>
     length (cs_spend_outputs s) \<le> sr_max_outputs r"

lemma select_sweep_scan:
  assumes "select_sweep coins r mode = Some (Ok s)" and "\<And>p. mode \<noteq> AggregateThreshold p"
  shows "\<exists>scan. scan_ok r scan \<and> ss_inputs scan = filter (eligible r) coins \<and>
    distinct (map cc_outpoint coins) \<and> \<not> sweep_request_invalid r \<and> sr_fee r < ss_total scan \<and>
    (\<exists>outs. sweep_outputs r mode scan = Some (Ok outs) \<and>
      s = \<lparr>cs_inputs = ss_inputs scan, cs_spend_outputs = outs, cs_change_outputs = [],
           cs_input_value = ss_total scan, cs_fee = sr_fee r\<rparr>)"
proof -
  let ?s0 = "\<lparr>ss_seen = {}, ss_inputs = [], ss_capacity = replicate 15 0, ss_total = 0\<rparr>"
  obtain scan where scan: "try_fold (sweep_step r) ?s0 coins = Ok scan"
    using assms by (cases mode) (auto simp: select_sweep_def split: if_splits sum.splits)
  then have f: "scan_ok r scan" "ss_inputs scan = filter (eligible r) coins" "distinct (map cc_outpoint coins)"
    using sweep_fold [OF scan] by (auto simp: scan_ok_def tally_def)
  have "\<not> sweep_request_invalid r \<and> sr_fee r < ss_total scan \<and>
    (\<exists>outs. sweep_outputs r mode scan = Some (Ok outs) \<and>
      s = \<lparr>cs_inputs = ss_inputs scan, cs_spend_outputs = outs, cs_change_outputs = [],
           cs_input_value = ss_total scan, cs_fee = sr_fee r\<rparr>)"
    using assms scan
    by (cases mode) (auto simp: select_sweep_def result_simps split: if_splits option.splits)
  then show ?thesis using f by blast
qed

text \<open>
  C23: a sweep spends every eligible coin of the snapshot, pays out exactly their value less the
  fee with no change, and stays within the limits. A preserving sweep passes the denomination
  check; an aggregating sweep emits fewer outputs than inputs, none above the permitted
  denomination.
\<close>

theorem select_sweep_exact:
  assumes "\<forall>c \<in> set coins. wf_coin c" and "select_sweep coins r mode = Some (Ok s)"
    and "\<And>p. mode \<noteq> AggregateThreshold p" and "\<And>d. mode = Aggregate d \<Longrightarrow> wf_denomination d"
  shows "cs_inputs s = filter (eligible r) coins \<and> sweep_ok coins r s \<and>
    (mode = PreserveDenominations \<longrightarrow>
       preserves_denominations (map cc_denomination (cs_inputs s)) (cs_spend_outputs s) = Ok ()) \<and>
    (\<forall>d. mode = Aggregate d \<longrightarrow> length (cs_spend_outputs s) < length (cs_inputs s) \<and>
       (\<forall>x \<in> set (cs_spend_outputs s). dix x \<le> dix d))"
proof -
  obtain scan outs where scan: "scan_ok r scan" "ss_inputs scan = filter (eligible r) coins"
    "distinct (map cc_outpoint coins)" "\<not> sweep_request_invalid r" "sr_fee r < ss_total scan"
    and outs: "sweep_outputs r mode scan = Some (Ok outs)"
    and s: "s = \<lparr>cs_inputs = ss_inputs scan, cs_spend_outputs = outs, cs_change_outputs = [],
           cs_input_value = ss_total scan, cs_fee = sr_fee r\<rparr>"
    using select_sweep_scan [OF assms(2,3)] by blast
  let ?ds = "map cc_denomination (ss_inputs scan)"
  have lim: "length (ss_inputs scan) \<le> 4096" "sr_max_outputs r \<le> 4096" "ss_inputs scan \<noteq> []"
    using scan(1,4,5) by (auto simp: scan_ok_def sweep_request_invalid_def word_less_nat_alt)
  have wf: "list_all wf_denomination ?ds"
    using assms(1) scan(2) by (auto simp: list_all_iff wf_coin_def)
  have val: "unat (ss_total scan - sr_fee r) = coins_value (ss_inputs scan) - unat (sr_fee r)"
    "unat (sr_fee r) \<le> coins_value (ss_inputs scan)"
    using scan(1,5) unat_sub [of "sr_fee r" "ss_total scan"]
    by (simp_all add: scan_ok_def word_less_nat_alt word_le_nat_alt)
  have base: "cs_inputs s = filter (eligible r) coins" "distinct (map cc_outpoint (cs_inputs s))"
    "\<forall>c \<in> set (cs_inputs s). c \<in> set coins \<and> eligible r c"
    using s scan(2,3) by (auto simp: distinct_map_filter)
  show ?thesis
  proof (cases mode)
    case (AggregateThreshold p)
    then show ?thesis using assms(3) by blast
  next
    case PreserveDenominations
    then obtain rest where d: "denominate_available (ss_total scan - sr_fee r) (tally ?ds) (sr_max_outputs r) = Ok (outs, rest)"
      using outs scan(1) by (auto simp: sweep_outputs_def scan_ok_def result_simps)
    have cap: "wf_capacity (tally ?ds)"
      using tally_upper(1) [OF wf] lim(1) by simp
    have av: "dvalue outs = unat (ss_total scan - sr_fee r)" "length outs \<le> sr_max_outputs r"
      "list_all wf_denomination outs" "\<And>k. dupper k outs + upper_value k rest \<le> upper_value k (tally ?ds)"
      using denominate_available_cases [OF cap, where v = "ss_total scan - sr_fee r" and m = "sr_max_outputs r"]
      by (simp_all add: d)
    have up: "\<And>k. upper_value k (tally ?ds) = dupper k ?ds"
      using tally_upper(2) [OF wf] lim(1) by simp
    have "dupper k outs \<le> dupper k ?ds" for k
      using av(4) [of k] up [of k] by simp
    then have "preserves_denominations ?ds outs = Ok ()"
      using preserves_denominations_iff [OF wf av(3)] lim av(2) by simp
    moreover have "sweep_ok coins r s"
      using base(2,3) av(1,2) val scan(1) by (simp add: s sweep_ok_def scan_ok_def)
    ultimately show ?thesis
      using base(1) PreserveDenominations by (simp add: s)
  next
    case (Aggregate d)
    then have f: "fill_levels (Suc (dix d)) (sr_max_outputs r) (ss_total scan - sr_fee r) [] = Ok outs"
      "length outs < length (ss_inputs scan)"
      using outs by (auto simp: sweep_outputs_def Let_def rbind_eq_Ok simp del: fill_levels.simps split: if_splits)
    have "dix d < 15" using assms(4) [OF Aggregate] by (simp add: wf_denomination_def)
    then have g: "\<forall>x \<in> set outs. dix x < Suc (dix d)" "length outs \<le> sr_max_outputs r"
        "dvalue outs = unat (ss_total scan - sr_fee r)"
      using fill_levels_Ok [OF f(1) _ _ lim(2)] by auto
    have "sweep_ok coins r s"
      using base(2,3) g(2,3) val scan(1) by (simp add: s sweep_ok_def scan_ok_def)
    moreover have "\<forall>x \<in> set outs. dix x \<le> dix d"
      using g(1) by (simp add: less_Suc_eq_le)
    ultimately show ?thesis
      using base(1) f(2) Aggregate by (simp add: s)
  qed
qed

theorem select_sweep_exact_witness:
  "select_sweep [sample_coin 1 2] (sample_request 0) PreserveDenominations =
     Some (Ok \<lparr>cs_inputs = [sample_coin 1 2], cs_spend_outputs = [denom 1, denom 0, denom 0, denom 0, denom 0],
       cs_change_outputs = [], cs_input_value = 10, cs_fee = 1\<rparr>) \<and>
   sweep_ok [sample_coin 1 2] (sample_request 0)
     \<lparr>cs_inputs = [sample_coin 1 2], cs_spend_outputs = [denom 1, denom 0, denom 0, denom 0, denom 0],
       cs_change_outputs = [], cs_input_value = 10, cs_fee = 1\<rparr>"
proof -
  have gt: "\<not> (10 :: u256) \<le> 1"
    by (simp add: word_le_nat_alt)
  have run: "select_sweep [sample_coin 1 2] (sample_request 0) PreserveDenominations =
     Some (Ok \<lparr>cs_inputs = [sample_coin 1 2], cs_spend_outputs = [denom 1, denom 0, denom 0, denom 0, denom 0],
       cs_change_outputs = [], cs_input_value = 10, cs_fee = 1\<rparr>)"
    using gt by (simp add: select_sweep_def sweep_request_invalid_def sweep_step_def skipped_def
        sweep_outputs_def sample_eval level_eval list_eval)
  show ?thesis
    using run select_sweep_exact [OF wf_sample run] by blast
qed

section \<open>The aggregation\<close>

definition agg_ok :: "aggregate_scan \<Rightarrow> candidate_coin list \<Rightarrow> aggregation_policy \<Rightarrow> bool" where
  "agg_ok s E p \<longleftrightarrow> as_buckets s = foldl push_coin (replicate 15 []) E \<and> unat (as_total s) = coins_value E \<and>
     unat (as_small s) = coins_value (filter (\<lambda>c. dix (cc_denomination c) \<le> dix (ap_maximum_input p)) E)"

lemma aggregate_fold:
  assumes "try_fold (aggregate_step r p) s coins = Ok s'" and "agg_ok s E p"
  shows "agg_ok s' (E @ filter (eligible r) coins) p \<and> distinct (map cc_outpoint coins) \<and>
    as_seen s \<inter> cc_outpoint ` set coins = {}"
  using assms
proof (induction coins arbitrary: s E)
  case (Cons c coins)
  obtain t where t: "aggregate_step r p s c = Ok t" "try_fold (aggregate_step r p) t coins = Ok s'"
    using Cons.prems(1) by (auto simp: rbind_eq_Ok)
  have good: "cc_outpoint c \<notin> as_seen s"
    using t(1) by (auto simp: aggregate_step_def bad_coin_def Let_def split: if_splits)
  have "agg_ok t (E @ filter (eligible r) [c]) p" "as_seen t = insert (cc_outpoint c) (as_seen s)"
    using t(1) Cons.prems(2)
    by (auto simp: aggregate_step_def agg_ok_def Let_def skipped_eligible result_simps checked_simps
        unat_denomination_u256 word_le_nat_alt split: if_splits)
  then show ?case
    using Cons.IH [OF t(2), of "E @ filter (eligible r) [c]"] good by auto
qed simp

lemma aggregate_scan_Err: "try_fold (aggregate_step r p) s coins = Err e \<Longrightarrow> e \<in> {InvalidCoin, Overflow}"
proof (induction coins arbitrary: s)
  case (Cons c coins)
  then show ?case
    by (cases "aggregate_step r p s c")
      (auto simp: aggregate_step_def Let_def rbind_eq_Err ok_or_eq split: if_splits)
qed simp

lemma coins_value_filter_le: "coins_value (filter P cs) \<le> coins_value cs"
  by (induction cs) auto

lemma unat_coin_value: "unat (coin_value c) = coins_value [c]"
  by (simp add: unat_denomination_u256)

text \<open>Growing the interval stops before the list ends, because the list is worth enough.\<close>

lemma extend_interval_Some:
  assumes "coins_value L < 2 ^ 256" and "unat wanted \<le> coins_value L" and "unat a = coins_value (take k L)"
    and "k \<le> length L"
  shows "\<exists>a' fin. extend_interval wanted a k (drop k L) = Some (a', fin) \<and> fin \<le> length L \<and>
    unat a' = coins_value (take fin L)"
  using assms(3,4)
proof (induction "drop k L" arbitrary: a k)
  case Nil
  then have "\<not> a < wanted" using assms(2) by (simp add: word_less_nat_alt not_less)
  then show ?case using Nil by auto
next
  case (Cons c cs)
  have k: "k < length L" "L ! k = c" "cs = drop (Suc k) L"
    using Cons.hyps(2) by (metis drop_eq_Nil leI list.distinct(1), metis hd_drop_conv_nth leI drop_eq_Nil list.distinct(1) list.sel(1), metis drop_Suc list.sel(3) tl_drop)
  have split: "coins_value (take (Suc k) L) = coins_value (take k L) + coins_value [c]"
    using k by (simp add: take_Suc_conv_app_nth)
  have le: "coins_value (take (Suc k) L) \<le> coins_value L"
    by (metis append_take_drop_id coins_value_simps(3) le_add1)
  have "unat (a + coin_value c) = coins_value (take (Suc k) L)"
    using Cons.prems(1) split le assms(1) by (subst unat_add_exact) (simp_all add: unat_coin_value)
  then show ?case
    using Cons.hyps(1) [of "Suc k" "a + coin_value c"] k(1,3) Cons.prems
    by (cases "a < wanted") (auto simp: Cons.hyps(2) [symmetric])
qed

text \<open>Shrinking it stops at the latest when it is empty, because the total exceeds the fee.\<close>

lemma shrink_interval_Some:
  assumes "unat tot = coins_value L" and "fee < tot" and "fin \<le> length L"
    and "unat a = coins_value (drop k (take fin L))" and "k \<le> fin"
  shows "\<exists>a' start. shrink_interval tot fee a k (drop k L) = Some (a', start) \<and> start \<le> fin \<and>
    unat a' = coins_value (drop start (take fin L)) \<and> unat fee + unat a' \<le> unat tot"
  using assms(4,5)
proof (induction "fin - k" arbitrary: a k)
  case 0
  then have "a = 0" by (simp add: unat_eq_0)
  then show ?case
    using 0 assms(2) by (cases "drop k L") (auto simp: word_less_nat_alt)
next
  case (Suc n)
  have k: "k < fin" "k < length L" using Suc.hyps(2) assms(3) by auto
  have d: "drop k L = L ! k # drop (Suc k) L" using k by (simp add: Cons_nth_drop_Suc)
  have t: "drop k (take fin L) = L ! k # drop (Suc k) (take fin L)"
    using k by (metis Cons_nth_drop_Suc length_take min_less_iff_conj nth_take)
  have le: "unat a \<le> unat tot"
    using Suc.prems(1) assms(1) by (metis append_take_drop_id coins_value_simps(3) le_add1 le_add2 order_trans)
  have "unat (a - coin_value (L ! k)) = coins_value (drop (Suc k) (take fin L))"
    using Suc.prems(1) t by (subst unat_sub) (simp_all add: word_le_nat_alt unat_denomination_u256)
  then show ?case
    using Suc.hyps(1) [of "Suc k" "a - coin_value (L ! k)"] Suc.hyps(2) Suc.prems k le
    by (cases "tot - a < fee") (auto simp: d word_less_nat_alt unat_sub word_le_nat_alt)
qed

text \<open>The fee loop is the greedy choice over the coins outside the interval.\<close>

primrec outside :: "nat \<Rightarrow> nat \<Rightarrow> nat \<Rightarrow> candidate_coin list \<Rightarrow> candidate_coin list" where
  "outside start fin i [] = []"
| "outside start fin i (c # cs) =
     (if start \<le> i \<and> i < fin then outside start fin (Suc i) cs else c # outside start fin (Suc i) cs)"

lemma outside_eq: "start \<le> fin \<Longrightarrow> outside start fin i L = take (start - i) L @ drop (fin - i) L"
proof (induction L arbitrary: i)
  case (Cons c L)
  consider "i < start" | "start \<le> i" "i < fin" | "fin \<le> i" by linarith
  then show ?case
  proof cases
    case 1
    then have "start - i = Suc (start - Suc i)" "fin - i = Suc (fin - Suc i)" using Cons.prems by auto
    then show ?thesis using 1 Cons by simp
  next
    case 2
    then have "fin - i = Suc (fin - Suc i)" by auto
    then show ?thesis using 2 Cons by simp
  next
    case 3
    then show ?thesis using Cons by simp
  qed
qed simp

lemma fee_inputs_greedy:
  assumes "unat v = coins_value inputs" and "coins_value inputs + coins_value (outside start fin i L) < 2 ^ 256"
  shows "fee_inputs m fee start fin i inputs v L = greedy_inputs m fee inputs v (outside start fin i L)"
  using assms
proof (induction L arbitrary: i inputs v)
  case (Cons c L)
  consider "fee \<le> v" | "\<not> fee \<le> v" "start \<le> i" "i < fin" | "\<not> fee \<le> v" "\<not> (start \<le> i \<and> i < fin)" by blast
  then show ?case
  proof cases
    case 1
    then show ?thesis by (cases "outside start fin i (c # L)") auto
  next
    case 2
    then show ?thesis using Cons by simp
  next
    case 3
    have "unat v + unat (coin_value c) < 2 ^ 256"
      using Cons.prems 3 by (simp add: unat_denomination_u256)
    then have "checked_add v (coin_value c) = Some (v + coin_value c)"
      "unat (v + coin_value c) = coins_value (inputs @ [c])"
      using Cons.prems(1) by (simp_all add: checked_add_def unat_add_exact unat_denomination_u256)
    then show ?thesis
      using Cons.IH [of "v + coin_value c" "inputs @ [c]" "Suc i"] Cons.prems(2) 3
      by (auto simp: add.assoc)
  qed
qed simp

definition interval_ok :: "candidate_coin list \<Rightarrow> u256 \<Rightarrow> u256 \<Rightarrow> u256 \<Rightarrow> nat \<Rightarrow> nat \<Rightarrow> bool" where
  "interval_ok L tot fee a start fin \<longleftrightarrow> start \<le> fin \<and> fin \<le> length L \<and>
     unat tot = coins_value L \<and> unat a = coins_value (drop start (take fin L)) \<and> unat fee + unat a \<le> unat tot"

lemma interval_split:
  assumes "start \<le> fin"
  shows "mset L = mset (take start L @ drop fin L) + mset (drop start (take fin L))"
    and "coins_value L = coins_value (take start L @ drop fin L) + coins_value (drop start (take fin L))"
proof -
  have "L = take fin L @ drop fin L" by simp
  moreover have "take fin L = take start L @ drop start (take fin L)"
    using assms by (metis append_take_drop_id min.absorb1 take_take)
  ultimately have L: "L = take start L @ drop start (take fin L) @ drop fin L" by (metis append_assoc)
  show "mset L = mset (take start L @ drop fin L) + mset (drop start (take fin L))"
    by (subst L) (simp only: mset_append union_ac)
  show "coins_value L = coins_value (take start L @ drop fin L) + coins_value (drop start (take fin L))"
    by (subst L) (simp only: coins_value_simps add_ac)
qed

text \<open>The fee inputs: enough, within the limit, and disjoint from the interval.\<close>

lemma fee_inputs_cases:
  assumes ok: "interval_ok L tot fee a start fin"
  shows "case fee_inputs m fee start fin 0 [] 0 L of
      Ok (inputs, v) \<Rightarrow> unat v = coins_value inputs \<and> fee \<le> v \<and> length inputs \<le> m \<and> unat a + unat v < 2 ^ 256 \<and>
        mset (inputs @ drop start (take fin L)) \<subseteq># mset L
    | Err e \<Rightarrow> e = LimitExceeded"
proof -
  define O' where "O' = take start L @ drop fin L"
  have o: "outside start fin 0 L = O'"
    using ok by (simp add: outside_eq interval_ok_def O'_def)
  have val: "coins_value L = coins_value O' + unat a"
    using interval_split(2) [of start fin L] ok by (simp add: O'_def interval_ok_def)
  have small: "coins_value O' < 2 ^ 256"
    using val ok unsigned_less [of tot, where ?'a = nat] by (simp add: interval_ok_def)
  have run: "fee_inputs m fee start fin 0 [] 0 L = greedy_inputs m fee [] 0 O'"
    using fee_inputs_greedy [of 0 "[]" start fin 0 L m fee] small o by simp
  show ?thesis
  proof (cases "greedy_inputs m fee [] 0 O'")
    case (Inl e)
    then show ?thesis using greedy_inputs_Err [OF Inl] small run by simp
  next
    case (Inr s)
    obtain inputs v where s: "s = (inputs, v)" by (cases s)
    have "\<exists>k \<le> length O'. inputs = take k O' \<and> unat v = coins_value inputs \<and> (k < length O' \<longrightarrow> fee \<le> v) \<and> length inputs \<le> m"
      using greedy_inputs_Ok [of m fee "[]" 0 O' inputs v] Inr s by auto
    then obtain k where k: "k \<le> length O'" "inputs = take k O'" "unat v = coins_value inputs"
      "k < length O' \<longrightarrow> fee \<le> v" "length inputs \<le> m" by blast
    have le: "coins_value inputs \<le> coins_value O'"
      unfolding k(2) by (metis append_take_drop_id coins_value_simps(3) le_add1)
    have "fee \<le> v"
    proof (cases "k < length O'")
      case False
      then show ?thesis
        using k val ok by (simp add: interval_ok_def word_le_nat_alt)
    qed (use k(4) in simp)
    moreover have "unat a + unat v < 2 ^ 256"
      using le k(3) val ok unsigned_less [of tot, where ?'a = nat] by (simp add: interval_ok_def)
    moreover have "mset inputs \<subseteq># mset O'"
      unfolding k(2) by (metis append_take_drop_id mset_append mset_subset_eq_add_left)
    then have "mset (inputs @ drop start (take fin L)) \<subseteq># mset L"
      using interval_split(1) [of start fin L] ok by (simp add: O'_def interval_ok_def)
    ultimately show ?thesis using run Inr s k(3,5) by simp
  qed
qed

text \<open>The interval that \<open>select_aggregate\<close> computes from its scan exists and is sound.\<close>

lemma aggregate_search:
  assumes tot: "unat tot = coins_value L" and fee: "fee < tot" and small: "unat small \<le> unat tot"
  defines "wanted \<equiv> small - saturating_sub fee (tot - small)"
  shows "\<exists>a fin a' start. extend_interval wanted 0 0 L = Some (a, fin) \<and>
    shrink_interval tot fee a 0 L = Some (a', start) \<and> interval_ok L tot fee a' start fin"
proof -
  have large: "unat (tot - small) = unat tot - unat small"
    using small unat_sub [of small tot] by (simp add: word_le_nat_alt)
  have "saturating_sub fee (tot - small) \<le> small"
  proof (cases "fee < tot - small")
    case False
    then have "unat (fee - (tot - small)) = unat fee - unat (tot - small)"
      using unat_sub [of "tot - small" fee] by (simp add: not_less)
    then show ?thesis
      using False fee large by (simp add: saturating_sub_def word_le_nat_alt word_less_nat_alt)
  qed (simp add: saturating_sub_def)
  then have "unat wanted \<le> unat small"
    using unat_sub [of "saturating_sub fee (tot - small)" small] by (simp add: wanted_def)
  then have w: "unat wanted \<le> coins_value L" using tot small by simp
  have b: "coins_value L < 2 ^ 256"
    using tot unsigned_less [of tot, where ?'a = nat] by simp
  obtain a fin where e: "extend_interval wanted 0 0 L = Some (a, fin)" "fin \<le> length L" "unat a = coins_value (take fin L)"
    using extend_interval_Some [OF b w, of 0 0] by auto
  obtain a' start where h: "shrink_interval tot fee a 0 L = Some (a', start)" "start \<le> fin"
    "unat a' = coins_value (drop start (take fin L))" "unat fee + unat a' \<le> unat tot"
    using shrink_interval_Some [OF tot fee e(2), of a 0] e(3) by auto
  show ?thesis using e h tot by (auto simp: interval_ok_def)
qed

definition aggregate_ok ::
  "candidate_coin list \<Rightarrow> selection_request \<Rightarrow> aggregation_policy \<Rightarrow> coin_selection \<Rightarrow> bool" where
  "aggregate_ok coins r p s \<longleftrightarrow> sweep_ok coins r s \<and> cs_spend_outputs s \<noteq> [] \<and>
     (\<forall>d \<in> set (cs_spend_outputs s). dix d \<le> dix (ap_maximum_output p)) \<and>
     (ap_require_reduction p \<longrightarrow> length (cs_spend_outputs s) < length (cs_inputs s))"

lemma aggregate_outputs_Ok:
  assumes "aggregate_outputs r p a v inputs = Ok s" and "wf_denomination (ap_maximum_output p)"
    and "sr_max_outputs r \<le> 4096" and "sr_fee r \<le> v" and "unat a + unat v < 2 ^ 256"
    and "coins_value inputs = unat a + unat v"
  shows "cs_inputs s = inputs \<and> cs_change_outputs s = [] \<and> cs_fee s = sr_fee r \<and>
    coins_value inputs = dvalue (cs_spend_outputs s) + unat (sr_fee r) \<and>
    unat (cs_input_value s) = coins_value inputs \<and> cs_spend_outputs s \<noteq> [] \<and>
    length (cs_spend_outputs s) \<le> sr_max_outputs r \<and>
    (\<forall>d \<in> set (cs_spend_outputs s). dix d \<le> dix (ap_maximum_output p)) \<and>
    (ap_require_reduction p \<longrightarrow> length (cs_spend_outputs s) < length inputs)"
proof -
  let ?n = "Suc (dix (ap_maximum_output p))"
  obtain outs1 outs where f: "fill_levels ?n (sr_max_outputs r) a [] = Ok outs1"
    "fill_levels ?n (sr_max_outputs r) (v - sr_fee r) outs1 = Ok outs"
    and g: "outs \<noteq> []" "ap_require_reduction p \<longrightarrow> length outs < length inputs"
    and s: "s = \<lparr>cs_inputs = inputs, cs_spend_outputs = outs, cs_change_outputs = [],
             cs_input_value = a + v, cs_fee = sr_fee r\<rparr>"
    using assms(1)
    by (auto simp: aggregate_outputs_def Let_def rbind_eq_Ok not_le simp del: fill_levels.simps split: if_splits)
  have n: "?n \<le> 15" using assms(2) by (simp add: wf_denomination_def)
  have o1: "\<forall>d \<in> set outs1. dix d < ?n" "length outs1 \<le> sr_max_outputs r" "dvalue outs1 = unat a"
    using fill_levels_Ok [OF f(1) n _ assms(3)] by auto
  obtain ds where o2: "outs = outs1 @ ds" "\<forall>d \<in> set ds. dix d < ?n" "length outs \<le> sr_max_outputs r"
    "dvalue ds = unat (v - sr_fee r)"
    using fill_levels_Ok [OF f(2) n o1(2) assms(3)] by auto
  have v: "unat (v - sr_fee r) = unat v - unat (sr_fee r)" "unat (sr_fee r) \<le> unat v"
    using assms(4) by (simp_all add: unat_sub word_le_nat_alt)
  have "unat (a + v) = unat a + unat v"
    by (rule unat_add_exact) (use assms(5) in simp)
  moreover have "dvalue outs + unat (sr_fee r) = unat a + unat v"
    using o1(3) o2(1,4) v by simp
  moreover have "\<forall>d \<in> set outs. dix d \<le> dix (ap_maximum_output p)"
    using o1(1) o2(1,2) by (auto simp: less_Suc_eq_le)
  ultimately show ?thesis
    using g o2(3) assms(6) by (simp add: s)
qed

lemma aggregate_interval_ok:
  assumes wf: "wf_denomination (ap_maximum_output p)" and lim: "\<not> sweep_request_invalid r"
    and int: "interval_ok L tot (sr_fee r) a start fin"
    and L: "mset L \<subseteq># mset coins" "\<forall>c \<in> set L. eligible r c" "distinct (map cc_outpoint coins)"
  shows "case aggregate_interval r p L tot a start fin of
      None \<Rightarrow> False
    | Some res \<Rightarrow> (case res of Ok s \<Rightarrow> aggregate_ok coins r p s | Err e \<Rightarrow> e \<noteq> InsufficientFunds)"
proof -
  note fc = fee_inputs_cases [OF int, of "sr_max_inputs r"]
  show ?thesis
  proof (cases "fee_inputs (sr_max_inputs r) (sr_fee r) start fin 0 [] 0 L")
    case (Inl e)
    then show ?thesis using fc by (simp add: aggregate_interval_def)
  next
    case (Inr q)
    obtain inputs v where q: "q = (inputs, v)" by (cases q)
    have i: "unat v = coins_value inputs" "sr_fee r \<le> v" "length inputs \<le> sr_max_inputs r"
      "unat a + unat v < 2 ^ 256" "mset (inputs @ drop start (take fin L)) \<subseteq># mset L"
      using fc Inr q by simp_all
    define mid where "mid = take (fin - start) (drop start L)"
    have mid: "mid = drop start (take fin L)" by (simp add: mid_def drop_take)
    have bounds: "start \<le> fin" "fin \<le> length L" using int by (simp_all add: interval_ok_def)
    have val: "coins_value (inputs @ mid) = unat a + unat v"
      using int i(1) by (simp add: mid interval_ok_def)
    have sub: "mset (inputs @ mid) \<subseteq># mset coins"
      using subset_mset.order_trans [OF i(5) L(1)] by (simp add: mid)
    have members: "set (inputs @ mid) \<subseteq> set L"
      using set_mset_mono [OF i(5)] by (simp add: mid)
    have covered: "(v < sr_fee r) = False" using i(2) by simp
    have run: "aggregate_interval r p L tot a start fin =
        (if sr_max_inputs r - length inputs < fin - start then Some (Err LimitExceeded)
         else Some (aggregate_outputs r p a v (inputs @ mid)))"
      unfolding aggregate_interval_def Inr q sum.case prod.case covered
      using i(3) bounds by (simp add: mid_def)
    show ?thesis
    proof (cases "sr_max_inputs r - length inputs < fin - start")
      case True
      then show ?thesis by (simp add: run)
    next
      case False
      then have len: "length (inputs @ mid) \<le> sr_max_inputs r"
        using i(3) bounds by (simp add: mid_def)
      show ?thesis
      proof (cases "aggregate_outputs r p a v (inputs @ mid)")
        case (Inl e)
        then have "e \<noteq> InsufficientFunds"
          using wf by (auto simp: aggregate_outputs_def Let_def rbind_eq_Err wf_denomination_def
              simp del: fill_levels.simps dest: fill_levels_Err split: if_splits)
        then show ?thesis using False Inl by (simp add: run)
      next
        case (Inr s)
        have "sr_max_outputs r \<le> 4096" using lim by (simp add: sweep_request_invalid_def)
        from aggregate_outputs_Ok [OF Inr wf this i(2,4) val]
        have "aggregate_ok coins r p s"
          using distinct_cover [OF L(3) sub] set_mset_mono [OF sub] members L(2) len
          by (auto simp: aggregate_ok_def sweep_ok_def)
        then show ?thesis using False Inr by (simp add: run)
      qed
    qed
  qed
qed

text \<open>
  C24: threshold aggregation never indexes or slices out of range. A plan it returns spends
  distinct eligible coins, pays out exactly their value less the fee, in denominations up to the
  permitted one, with fewer outputs than inputs when the policy asks for it; and it reports
  \<open>InsufficientFunds\<close> only when the eligible coins do not exceed the fee or none is small enough.
\<close>

theorem select_aggregate_exact:
  assumes "\<forall>c \<in> set coins. wf_coin c" and "wf_denomination (ap_maximum_output p)"
  shows "case select_aggregate coins r p of
      None \<Rightarrow> False
    | Some res \<Rightarrow> (case res of
        Ok s \<Rightarrow> aggregate_ok coins r p s
      | Err e \<Rightarrow> e = InsufficientFunds \<longrightarrow> coins_value (filter (eligible r) coins) \<le> unat (sr_fee r) \<or>
          coins_value (filter (\<lambda>c. eligible r c \<and> dix (cc_denomination c) \<le> dix (ap_maximum_input p)) coins) = 0)"
proof (cases "sweep_request_invalid r \<or> 100000 < length coins")
  case True
  then show ?thesis by (auto simp: select_aggregate_def)
next
  case False
  let ?s0 = "\<lparr>as_seen = {}, as_buckets = replicate 15 [], as_total = 0, as_small = 0\<rparr>"
  let ?E = "filter (eligible r) coins"
  show ?thesis
  proof (cases "try_fold (aggregate_step r p) ?s0 coins")
    case (Inl e)
    then have "e \<noteq> InsufficientFunds" by (auto dest: aggregate_scan_Err)
    then show ?thesis using False Inl by (simp add: select_aggregate_def)
  next
    case (Inr sc)
    have "agg_ok sc ?E p" and dist: "distinct (map cc_outpoint coins)"
      using aggregate_fold [OF Inr, of "[]"] by (simp_all add: agg_ok_def)
    then have sc: "as_buckets sc = foldl push_coin (replicate 15 []) ?E" "unat (as_total sc) = coins_value ?E"
      "unat (as_small sc) = coins_value (filter (\<lambda>c. dix (cc_denomination c) \<le> dix (ap_maximum_input p)) ?E)"
      by (simp_all add: agg_ok_def)
    show ?thesis
    proof (cases "as_total sc \<le> sr_fee r \<or> as_small sc = 0")
      case True
      then have "coins_value ?E \<le> unat (sr_fee r) \<or> unat (as_small sc) = 0"
        using sc(2) by (auto simp: word_le_nat_alt)
      then show ?thesis
        using True False Inr sc(3) by (auto simp: select_aggregate_def conj_commute)
    next
      case rich: False
      define L where "L = concat (as_buckets sc)"
      have wfE: "\<forall>c \<in> set ?E. wf_coin c" using assms(1) by simp
      have "as_buckets sc = level_buckets ?E"
        using push_coins [of "replicate 15 []" ?E] wfE by (simp add: sc(1))
      then have L: "mset L = mset ?E" "set L = set ?E"
        using level_buckets_props [OF wfE] by (simp_all add: L_def)
      have tot: "unat (as_total sc) = coins_value L" using sc(2) coins_value_mset [OF L(1)] by simp
      have small: "unat (as_small sc) \<le> unat (as_total sc)"
        unfolding sc(2,3) by (rule coins_value_filter_le)
      define wanted where "wanted = as_small sc - saturating_sub (sr_fee r) (as_total sc - as_small sc)"
      have fee: "sr_fee r < as_total sc" using rich by (simp add: not_le)
      obtain a fin a' start where search: "extend_interval wanted 0 0 L = Some (a, fin)"
        "shrink_interval (as_total sc) (sr_fee r) a 0 L = Some (a', start)"
        "interval_ok L (as_total sc) (sr_fee r) a' start fin"
        using aggregate_search [OF tot fee small] by (auto simp: wanted_def)
      note search(3)
      moreover have "mset L \<subseteq># mset coins" by (simp add: L(1) multiset_filter_subset)
      moreover have "\<forall>c \<in> set L. eligible r c" using L(2) by simp
      moreover have "select_aggregate coins r p = aggregate_interval r p L (as_total sc) a' start fin"
        using False Inr rich search(1,2) by (simp add: select_aggregate_def Let_def L_def wanted_def)
      ultimately show ?thesis
        using aggregate_interval_ok [OF assms(2), of r L "as_total sc" a' start fin coins] False dist
        by (auto split: option.splits sum.splits)
    qed
  qed
qed

theorem select_aggregate_exact_witness:
  "select_aggregate [sample_coin 1 2] (sample_request 0)
     \<lparr>ap_maximum_input = denom 6, ap_maximum_output = denom 1, ap_require_reduction = False\<rparr> =
     Some (Ok \<lparr>cs_inputs = [sample_coin 1 2], cs_spend_outputs = [denom 1, denom 0, denom 0, denom 0, denom 0],
       cs_change_outputs = [], cs_input_value = 10, cs_fee = 1\<rparr>) \<and>
   aggregate_ok [sample_coin 1 2] (sample_request 0)
     \<lparr>ap_maximum_input = denom 6, ap_maximum_output = denom 1, ap_require_reduction = False\<rparr>
     \<lparr>cs_inputs = [sample_coin 1 2], cs_spend_outputs = [denom 1, denom 0, denom 0, denom 0, denom 0],
       cs_change_outputs = [], cs_input_value = 10, cs_fee = 1\<rparr>"
proof -
  let ?p = "\<lparr>ap_maximum_input = denom 6, ap_maximum_output = denom 1, ap_require_reduction = False\<rparr>"
  have gt: "\<not> (10 :: u256) \<le> 1" "(1 :: u256) < 10" "\<not> (1 :: u256) \<le> 0"
    "denomination_index (denom 2) \<le> denomination_index (denom 6)"
    by (simp_all add: word_le_nat_alt word_less_nat_alt denom_def)
  have lv: "fill_levels 2 m v outs = rbind (selection_denomination 1) (\<lambda>d.
      let unit = denomination_u256 d; count = v div unit
      in if word_of_nat (m - length outs) < count then Err LimitExceeded
         else fill_levels 1 m (v mod unit) (outs @ replicate (unat count) d))" for m v outs
    using fill_levels.simps(2) [of 1 m v outs] by (simp add: numeral_2_eq_2)
  have run: "select_aggregate [sample_coin 1 2] (sample_request 0) ?p =
     Some (Ok \<lparr>cs_inputs = [sample_coin 1 2], cs_spend_outputs = [denom 1, denom 0, denom 0, denom 0, denom 0],
       cs_change_outputs = [], cs_input_value = 10, cs_fee = 1\<rparr>)"
    using gt by (simp add: select_aggregate_def sweep_request_invalid_def aggregate_step_def skipped_def
        saturating_sub_def aggregate_interval_def aggregate_outputs_def lv Let_def
        sample_eval level_eval list_eval)
  have "wf_denomination (ap_maximum_output ?p)" by simp
  then show ?thesis
    using run select_aggregate_exact [OF wf_sample, of ?p "sample_request 0"] by simp
qed

end
