(* ===== verification/Amount.thy ===== *)
theory Amount
  imports Hex_Bytes
begin

text \<open>
  Decimal amounts, \<open>quai-primitives/src/amount.rs\<close>: units, signed 512-bit values, and the exact
  conversion between decimal text and integer units. Texts are byte strings.
\<close>

section \<open>Source definitions\<close>

datatype amount_error =
    AmtInvalidSyntax
  | AmtInvalidUnit
  | AmtPrecisionLoss
  | AmtOverflow
  | AmtNegative
  | AmtInputTooLong

datatype amount_unit = Unit (unit_decimals: u8)

definition UNIT_BASE :: amount_unit where
  "UNIT_BASE = Unit 0"

definition UNIT_QUAI :: amount_unit where
  "UNIT_QUAI = Unit 18"

definition UNIT_QI :: amount_unit where
  "UNIT_QI = Unit 3"

definition unit_new :: "u8 \<Rightarrow> (amount_unit, amount_error) result" where
  "unit_new decimals = (if 80 < decimals then Err AmtInvalidUnit else Ok (Unit decimals))"

definition unit_named :: "string \<Rightarrow> (amount_unit, amount_error) result" where
  "unit_named name =
     (if name = ''wei'' then Ok (Unit 0)
      else if name = ''kwei'' then Ok (Unit 3)
      else if name = ''mwei'' then Ok (Unit 6)
      else if name = ''gwei'' then Ok (Unit 9)
      else if name = ''szabo'' then Ok (Unit 12)
      else if name = ''finney'' then Ok (Unit 15)
      else if name \<in> {''ether'', ''quai''} then Ok UNIT_QUAI
      else if name = ''qi'' then Ok UNIT_QI
      else Err AmtInvalidUnit)"

record signed_units =
  su_negative :: bool
  su_magnitude :: u512

definition INT256_MIN :: signed_units where
  "INT256_MIN = \<lparr>su_negative = True, su_magnitude = push_bit 255 1\<rparr>"

definition INT256_MAX :: signed_units where
  "INT256_MAX = \<lparr>su_negative = False, su_magnitude = push_bit 255 1 - 1\<rparr>"

definition signed_units_new :: "bool \<Rightarrow> u512 \<Rightarrow> (signed_units, amount_error) result" where
  "signed_units_new negative magnitude =
     (let boundary = push_bit 511 1
      in if boundary < magnitude \<or> \<not> negative \<and> magnitude = boundary then Err AmtOverflow
         else Ok \<lparr>su_negative = negative \<and> magnitude \<noteq> 0, su_magnitude = magnitude\<rparr>)"

definition try_u256 :: "signed_units \<Rightarrow> (u256, amount_error) result" where
  "try_u256 u =
     (if su_negative u then Err AmtNegative else ok_or (checked_cast (su_magnitude u)) AmtOverflow)"

text \<open>The \<open>Display\<close> text of an unsigned integer: decimal digits without leading zeros.\<close>

fun dec_digits :: "nat \<Rightarrow> bytes" where
  "dec_digits n = (if n < 10 then [word_of_nat (48 + n)]
     else dec_digits (n div 10) @ [word_of_nat (48 + n mod 10)])"

declare dec_digits.simps [simp del]

definition trim_zeros :: "bytes \<Rightarrow> bytes" where
  "trim_zeros s = rev (dropWhile (\<lambda>b. b = 48) (rev s))"

definition place_point :: "nat \<Rightarrow> bytes \<Rightarrow> bytes" where
  "place_point scale digits =
     (if length digits \<le> scale then [48, 46] @ replicate (scale - length digits) 48 @ digits
      else (let k = length digits - scale in take k digits @ [46] @ drop k digits))"

definition signed_units_format :: "signed_units \<Rightarrow> amount_unit \<Rightarrow> bytes" where
  "signed_units_format u unit =
     (let digits = dec_digits (unat (su_magnitude u)); scale = unat (unit_decimals unit);
          sign = (if su_negative u then [45] else [])
      in if scale = 0 then sign @ digits
         else let result = trim_zeros (sign @ place_point scale digits)
              in if result \<noteq> [] \<and> last result = 46 then result @ [48] else result)"

text \<open>One digit into an accumulator; the same two checked operations in every integer parser.\<close>

definition push_digit :: "u512 \<Rightarrow> u512 \<Rightarrow> u512 \<Rightarrow> u512 option" where
  "push_digit radix m d = Option.bind (checked_mul m radix) (\<lambda>v. checked_add v d)"

primrec accumulate :: "u512 \<Rightarrow> bytes \<Rightarrow> (u512, amount_error) result" where
  "accumulate m [] = Ok m"
| "accumulate m (d # ds) =
     rbind (ok_or (push_digit 10 m (ucast (d - 48))) AmtOverflow) (\<lambda>m. accumulate m ds)"

definition split_decimal :: "bytes \<Rightarrow> bytes \<times> bytes" where
  "split_decimal body =
     (case split_once 46 body of Some (left, right) \<Rightarrow> (left, right) | None \<Rightarrow> (body, []))"

definition parse_signed_units :: "bytes \<Rightarrow> amount_unit \<Rightarrow> (signed_units, amount_error) result" where
  "parse_signed_units value unit =
     (if 512 < length value then Err AmtInputTooLong
      else
        let negative = (value \<noteq> [] \<and> hd value = 45);
            body = (if negative then tl value else value)
        in case split_decimal body of (whole, fractional) \<Rightarrow>
          if whole = [] \<and> fractional = [] then Err AmtInvalidSyntax
          else if \<not> list_all is_ascii_digit (whole @ fractional) then Err AmtInvalidSyntax
          else let scale = unat (unit_decimals unit)
            in if scale \<le> length fractional \<and> list_ex (\<lambda>b. b \<noteq> 48) (drop scale fractional)
               then Err AmtPrecisionLoss
               else rbind (accumulate 0
                   (whole @ take scale fractional @ replicate (scale - length fractional) 48))
                 (signed_units_new negative))"

definition parse_units :: "bytes \<Rightarrow> amount_unit \<Rightarrow> (u256, amount_error) result" where
  "parse_units value unit = rbind (parse_signed_units value unit) try_u256"

definition format_units :: "u256 \<Rightarrow> amount_unit \<Rightarrow> bytes" where
  "format_units value unit = signed_units_format \<lparr>su_negative = False, su_magnitude = ucast value\<rparr> unit"

definition parse_quai :: "bytes \<Rightarrow> (u256, amount_error) result" where
  "parse_quai value = parse_units value UNIT_QUAI"

definition parse_qi :: "bytes \<Rightarrow> (u256, amount_error) result" where
  "parse_qi value = parse_units value UNIT_QI"

definition format_quai :: "u256 \<Rightarrow> bytes" where
  "format_quai value = format_units value UNIT_QUAI"

definition format_qi :: "u256 \<Rightarrow> bytes" where
  "format_qi value = format_units value UNIT_QI"

section \<open>The integer a signed value stands for\<close>

declare of_nat_unat [simp del]

definition su_int :: "signed_units \<Rightarrow> int" where
  "su_int u = (if su_negative u then - int (unat (su_magnitude u)) else int (unat (su_magnitude u)))"

text \<open>The range of signed values: from \<open>- SIGNED_BOUND\<close> up to, excluding, \<open>SIGNED_BOUND\<close>.\<close>

definition SIGNED_BOUND :: int where
  "SIGNED_BOUND = 2 ^ 511"

definition wf_signed :: "signed_units \<Rightarrow> bool" where
  "wf_signed u \<longleftrightarrow> (su_negative u \<longrightarrow> su_magnitude u \<noteq> 0) \<and> - SIGNED_BOUND \<le> su_int u \<and> su_int u < SIGNED_BOUND"

lemma signed_units_new_Ok:
  "signed_units_new negative m = Ok u \<longleftrightarrow>
     wf_signed u \<and> su_magnitude u = m \<and> su_int u = (if negative then - int (unat m) else int (unat m))"
proof -
  define B :: nat where "B = 2 ^ 511"
  have b: "unat (push_bit 511 (1 :: u512)) = B"
    by (simp add: B_def)
  have int: "SIGNED_BOUND = int B"
    by (simp only: SIGNED_BOUND_def B_def of_nat_power of_nat_numeral)
  have new: "signed_units_new negative m =
      (if B < unat m \<or> \<not> negative \<and> unat m = B then Err AmtOverflow
       else Ok \<lparr>su_negative = negative \<and> unat m \<noteq> 0, su_magnitude = m\<rparr>)"
    by (simp only: signed_units_new_def Let_def word_less_nat_alt word_unat_eq_iff b unat_0)
  have "0 < B" by (simp add: B_def)
  then show ?thesis
    unfolding new wf_signed_def su_int_def int
    by (cases u; cases negative) (auto simp: word_unat_eq_iff)
qed

lemma signed_units_new_Err:
  "signed_units_new negative m = Err e \<longleftrightarrow> e = AmtOverflow \<and>
     (let v = (if negative then - int (unat m) else int (unat m)) in v < - SIGNED_BOUND \<or> SIGNED_BOUND \<le> v)"
proof -
  define B :: nat where "B = 2 ^ 511"
  have b: "unat (push_bit 511 (1 :: u512)) = B"
    by (simp add: B_def)
  have int: "SIGNED_BOUND = int B"
    by (simp only: SIGNED_BOUND_def B_def of_nat_power of_nat_numeral)
  have "signed_units_new negative m = Err e \<longleftrightarrow> e = AmtOverflow \<and> (B < unat m \<or> \<not> negative \<and> unat m = B)"
    unfolding signed_units_new_def Let_def word_less_nat_alt word_unat_eq_iff b by auto
  moreover have "0 < B" by (simp add: B_def)
  ultimately show ?thesis
    unfolding int Let_def by auto
qed

lemma signed_inject: "wf_signed u \<Longrightarrow> wf_signed v \<Longrightarrow> su_int u = su_int v \<Longrightarrow> u = v"
  by (cases u; cases v) (auto simp: wf_signed_def su_int_def word_unat_eq_iff split: if_splits)

section \<open>Decimal digit strings\<close>

definition dec_value :: "bytes \<Rightarrow> nat" where
  "dec_value ds = foldl (\<lambda>a d. a * 10 + (unat d - 48)) 0 ds"

abbreviation all_digits :: "bytes \<Rightarrow> bool" where
  "all_digits \<equiv> list_all is_ascii_digit"

lemma foldl_dec_start:
  "foldl (\<lambda>a d. a * 10 + (unat d - 48)) s ds = s * 10 ^ length ds + dec_value ds"
proof (induction ds arbitrary: s)
  case (Cons d ds)
  show ?case
    using Cons [of "s * 10 + (unat d - 48)"] Cons [of "unat d - 48"]
    by (simp add: dec_value_def algebra_simps)
qed (simp add: dec_value_def)

lemma dec_value_Nil [simp]: "dec_value [] = 0"
  by (simp add: dec_value_def)

lemma dec_value_append: "dec_value (xs @ ys) = dec_value xs * 10 ^ length ys + dec_value ys"
  using foldl_dec_start [of "dec_value xs" ys] by (simp add: dec_value_def)

lemma dec_value_single [simp]: "dec_value [d] = unat d - 48"
  by (simp add: dec_value_def)

lemma dec_value_Cons: "dec_value (d # ds) = (unat d - 48) * 10 ^ length ds + dec_value ds"
  using dec_value_append [of "[d]" ds] by simp

lemma dec_value_zeros [simp]: "dec_value (replicate k 48) = 0"
  by (induction k) (auto simp: dec_value_Cons)

lemma digit_value: "is_ascii_digit d \<Longrightarrow> unat (d - 48) = unat d - 48 \<and> unat d - 48 < 10 \<and> (unat d = 48 \<longleftrightarrow> d = 48)"
  by (auto simp: is_ascii_digit_def word_le_nat_alt unat_sub word_unat_eq_iff)

lemma dec_value_lt: "all_digits ds \<Longrightarrow> dec_value ds < 10 ^ length ds"
proof (induction ds rule: rev_induct)
  case (snoc d ds)
  then have "unat d - 48 < 10" "dec_value ds < 10 ^ length ds" using digit_value by auto
  then have "dec_value ds * 10 + (unat d - 48) < 10 ^ length ds * 10" by linarith
  then show ?case by (simp add: dec_value_append mult.commute)
qed simp

lemma dec_value_eq_0:
  "all_digits ds \<Longrightarrow> dec_value ds = 0 \<longleftrightarrow> list_all (\<lambda>b. b = 48) ds"
proof (induction ds)
  case (Cons d ds)
  have "unat d = 48 \<longleftrightarrow> d = 48" "48 \<le> unat d"
    using Cons.prems digit_value [of d] by (auto simp: is_ascii_digit_def word_le_nat_alt)
  then have "unat d - 48 = 0 \<longleftrightarrow> d = 48" by auto
  then show ?case using Cons by (auto simp: dec_value_Cons)
qed simp

lemma digit_of_nat: "n < 10 \<Longrightarrow> unat (word_of_nat (48 + n) :: u8) = 48 + n"
  by (rule unat_of_nat_small) simp

lemma dec_digits_value: "dec_value (dec_digits n) = n \<and> all_digits (dec_digits n) \<and> dec_digits n \<noteq> []"
proof (induction n rule: dec_digits.induct)
  case (1 n)
  have u: "unat (word_of_nat (48 + k) :: u8) = 48 + k" "is_ascii_digit (word_of_nat (48 + k))" if "k < 10" for k
    using digit_of_nat [OF that] that by (auto simp: is_ascii_digit_def word_le_nat_alt)
  show ?case
  proof (cases "n < 10")
    case True
    then show ?thesis using u [of n] by (subst (1 2 3) dec_digits.simps) simp
  next
    case False
    then show ?thesis
      using 1 u [of "n mod 10"] by (subst (1 2 3) dec_digits.simps) (simp add: dec_value_append)
  qed
qed

lemma length_dec_digits: "n < 10 ^ Suc k \<Longrightarrow> length (dec_digits n) \<le> Suc k"
proof (induction k arbitrary: n)
  case 0
  then show ?case by (subst dec_digits.simps) simp
next
  case (Suc k)
  then have "n div 10 < 10 ^ Suc k" by (simp add: less_mult_imp_div_less mult.commute)
  then show ?case
    using Suc.IH [of "n div 10"] by (subst dec_digits.simps) simp
qed

section \<open>The accumulator\<close>

lemma push_digit_Some: "push_digit radix m d = Some v \<longleftrightarrow> unat v = unat m * unat radix + unat d"
proof -
  have "unat m * unat radix \<le> unat v" "unat m * unat radix < 2 ^ 512" if "unat v = unat m * unat radix + unat d"
    using that unsigned_less [of v, where ?'a = nat] by simp_all
  then show ?thesis
    by (auto simp: push_digit_def Option.bind_eq_Some_conv checked_add_Some checked_mul_Some unat_mul_exact
        intro!: exI [of _ "m * radix"])
qed

lemma push_digit_None: "push_digit radix m d = None \<longleftrightarrow> 2 ^ 512 \<le> unat m * unat radix + unat d"
proof -
  have "push_digit radix m d = None \<longleftrightarrow> (\<nexists>v. unat (v :: u512) = unat m * unat radix + unat d)"
    using push_digit_Some [of radix m d] by (cases "push_digit radix m d") auto
  also have "\<dots> \<longleftrightarrow> \<not> unat m * unat radix + unat d < 2 ^ LENGTH(512)"
    by (metis unat_of_nat_small unsigned_less)
  finally show ?thesis by (simp add: not_less)
qed

lemma unat_numeral_10 [simp]: "unat (10 :: u512) = 10"
  by simp

lemma accumulate_eq:
  assumes "all_digits ds"
  shows "accumulate m ds =
    (if unat m * 10 ^ length ds + dec_value ds < 2 ^ 512
     then Ok (word_of_nat (unat m * 10 ^ length ds + dec_value ds)) else Err AmtOverflow)"
  using assms
proof (induction ds arbitrary: m)
  case Nil
  show ?case using unsigned_less [of m, where ?'a = nat] by (simp add: of_nat_unat)
next
  case (Cons d ds)
  have d: "unat (ucast (d - 48) :: u512) = unat d - 48"
    using Cons.prems digit_value [of d] by (simp add: unat_ucast_up)
  have total: "unat m * 10 ^ length (d # ds) + dec_value (d # ds) =
      (unat m * 10 + (unat d - 48)) * 10 ^ length ds + dec_value ds"
    by (simp add: dec_value_Cons algebra_simps)
  show ?case
  proof (cases "push_digit 10 m (ucast (d - 48))")
    case None
    then have "2 ^ 512 \<le> unat m * 10 + (unat d - 48)" by (simp only: push_digit_None d unat_numeral_10)
    also have "\<dots> \<le> (unat m * 10 + (unat d - 48)) * 10 ^ length ds + dec_value ds"
      by (intro trans_le_add1) simp
    finally have "\<not> (unat m * 10 + (unat d - 48)) * 10 ^ length ds + dec_value ds < 2 ^ 512"
      by (rule leD)
    then show ?thesis
      unfolding total by (simp only: accumulate.simps None ok_or_simps rbind_Inl if_False)
  next
    case (Some v)
    then have "unat v = unat m * 10 + (unat d - 48)" by (simp only: push_digit_Some d unat_numeral_10)
    then show ?thesis
      unfolding total using Cons.IH [of v] Cons.prems
      by (simp only: accumulate.simps Some ok_or_simps rbind_Inr list.pred_inject simp_thms)
  qed
qed

text \<open>A digit string as a signed value.\<close>

lemma accumulate_signed:
  fixes ds :: bytes and negative :: bool
  assumes "all_digits ds"
  shows "case rbind (accumulate 0 ds) (signed_units_new negative) of
      Ok u \<Rightarrow> wf_signed u \<and> su_int u = (if negative then - int (dec_value ds) else int (dec_value ds))
    | Err e \<Rightarrow> e = AmtOverflow \<and>
        ((if negative then - int (dec_value ds) else int (dec_value ds)) < - SIGNED_BOUND \<or>
         SIGNED_BOUND \<le> (if negative then - int (dec_value ds) else int (dec_value ds)))"
proof -
  define B :: nat where "B = 2 ^ 511"
  have B: "SIGNED_BOUND = int B" "0 < B" "(2 :: nat) ^ 512 = B + B"
    by (simp_all only: SIGNED_BOUND_def B_def of_nat_power of_nat_numeral zero_less_power zero_less_numeral) simp
  note acc = accumulate_eq [OF assms, of 0]
  show ?thesis
  proof (cases "dec_value ds < 2 ^ 512")
    case False
    then have "accumulate 0 ds = Err AmtOverflow"
      using acc by (simp only: unat_0 mult_0 add_0 if_False)
    moreover have "B + B \<le> dec_value ds" using False unfolding B(3) by simp
    ultimately show ?thesis using B(2) unfolding B(1) by simp
  next
    case True
    define n :: u512 where "n = word_of_nat (dec_value ds)"
    have n: "unat n = dec_value ds"
      unfolding n_def by (rule unat_of_nat_small) (use True in simp)
    have "accumulate 0 ds = Ok n"
      using acc True by (simp only: unat_0 mult_0 add_0 if_True n_def)
    moreover have "case signed_units_new negative n of
        Ok u \<Rightarrow> wf_signed u \<and> su_int u = (if negative then - int (unat n) else int (unat n))
      | Err e \<Rightarrow> e = AmtOverflow \<and>
          ((if negative then - int (unat n) else int (unat n)) < - SIGNED_BOUND \<or>
           SIGNED_BOUND \<le> (if negative then - int (unat n) else int (unat n)))"
    proof (cases "signed_units_new negative n")
      case (Inl e)
      from this [unfolded signed_units_new_Err Let_def] show ?thesis
        unfolding Inl sum.case .
    next
      case (Inr u)
      from this [unfolded signed_units_new_Ok] show ?thesis
        unfolding Inr sum.case by blast
    qed
    ultimately show ?thesis
      by (simp only: rbind_Inr n)
  qed
qed

section \<open>Parsing is exact\<close>

text \<open>
  The number a decimal text denotes: sign, integer part and fraction, as a numerator over the
  power of ten of the fraction's length.
\<close>

definition text_negative :: "bytes \<Rightarrow> bool" where
  "text_negative s \<longleftrightarrow> s \<noteq> [] \<and> hd s = 45"

definition text_parts :: "bytes \<Rightarrow> bytes \<times> bytes" where
  "text_parts s = split_decimal (if text_negative s then tl s else s)"

definition decimal_syntax :: "bytes \<Rightarrow> bool" where
  "decimal_syntax s \<longleftrightarrow> (case text_parts s of (w, f) \<Rightarrow> w @ f \<noteq> [] \<and> all_digits (w @ f))"

definition decimal_num :: "bytes \<Rightarrow> int" where
  "decimal_num s = (case text_parts s of (w, f) \<Rightarrow>
     (if text_negative s then - int (dec_value (w @ f)) else int (dec_value (w @ f))))"

definition decimal_places :: "bytes \<Rightarrow> nat" where
  "decimal_places s = length (snd (text_parts s))"

text \<open>The text denotes exactly \<open>v\<close> units of scale \<open>k\<close>.\<close>

definition denotes :: "bytes \<Rightarrow> nat \<Rightarrow> int \<Rightarrow> bool" where
  "denotes s k v \<longleftrightarrow> v * 10 ^ decimal_places s = decimal_num s * 10 ^ k"

lemma denotes_unique: "denotes s k v \<Longrightarrow> denotes s k w \<Longrightarrow> v = w"
  unfolding denotes_def by (metis mult_right_cancel power_not_zero zero_neq_numeral)

lemma scaled_value:
  assumes "all_digits f"
  shows "dec_value (w @ take k f @ replicate (k - length f) 48) * 10 ^ length f + dec_value (drop k f) * 10 ^ k =
    dec_value (w @ f) * 10 ^ k"
proof (cases "k \<le> length f")
  case True
  define t where "t = take k f"
  define r where "r = drop k f"
  have f: "f = t @ r" "length t = k" "length f = k + length r" using True by (simp_all add: t_def r_def)
  have "dec_value (w @ f) = dec_value (w @ t) * 10 ^ length r + dec_value r"
    using dec_value_append [of "w @ t" r] by (simp add: f(1))
  then show ?thesis
    using True by (simp add: f(2,3) power_add algebra_simps flip: t_def r_def)
next
  case False
  then have "dec_value (w @ f @ replicate (k - length f) 48) = dec_value (w @ f) * 10 ^ (k - length f)"
    using dec_value_append [of "w @ f" "replicate (k - length f) 48"] by simp
  moreover have "10 ^ (k - length f) * 10 ^ length f = (10 :: nat) ^ k"
    using False by (simp flip: power_add)
  ultimately show ?thesis using False by (simp add: mult.assoc)
qed

lemma tail_lost:
  assumes "all_digits f" and "list_ex (\<lambda>b. b \<noteq> 48) (drop k f)"
  shows "\<not> (10 :: nat) ^ length f dvd dec_value (w @ f) * 10 ^ k"
proof
  assume d: "10 ^ length f dvd dec_value (w @ f) * 10 ^ k"
  let ?t = "dec_value (drop k f)"
  have k: "k < length f" using assms(2) by (cases "k < length f") auto
  have dig: "all_digits (drop k f)" using assms(1) by (auto simp: list_all_iff dest: in_set_dropD)
  have pos: "0 < ?t" using dec_value_eq_0 [OF dig] assms(2) by (auto simp: list_all_iff list_ex_iff)
  have "10 ^ length f dvd dec_value (w @ take k f @ replicate (k - length f) 48) * 10 ^ length f + ?t * 10 ^ k"
    using d scaled_value [OF assms(1), of w k] by simp
  then have "10 ^ length f dvd ?t * 10 ^ k"
    by (simp add: dvd_add_right_iff)
  moreover have "(10 :: nat) ^ length f = 10 ^ (length f - k) * 10 ^ k" using k by (simp flip: power_add)
  ultimately have "10 ^ (length f - k) dvd ?t" by simp
  then have "10 ^ (length f - k) \<le> ?t" using pos by (rule dvd_imp_le)
  then show False using dec_value_lt [OF dig] by simp
qed

lemma parse_signed_units_eq:
  fixes s :: bytes and unit :: amount_unit
  defines "k \<equiv> unat (unit_decimals unit)"
  shows "parse_signed_units s unit =
    (if 512 < length s then Err AmtInputTooLong
     else if \<not> decimal_syntax s then Err AmtInvalidSyntax
     else case text_parts s of (w, f) \<Rightarrow>
       if list_ex (\<lambda>b. b \<noteq> 48) (drop k f) then Err AmtPrecisionLoss
       else rbind (accumulate 0 (w @ take k f @ replicate (k - length f) 48)) (signed_units_new (text_negative s)))"
proof -
  have "list_ex P (drop k f) \<Longrightarrow> k \<le> length f" for P and f :: bytes
    by (cases "k \<le> length f") auto
  then show ?thesis
    unfolding parse_signed_units_def k_def text_parts_def decimal_syntax_def text_negative_def Let_def
    by (auto split: prod.splits)
qed

lemma parse_cases:
  fixes s :: bytes and unit :: amount_unit
  defines "k \<equiv> unat (unit_decimals unit)"
  shows "case parse_signed_units s unit of
      Ok u \<Rightarrow> length s \<le> 512 \<and> decimal_syntax s \<and> wf_signed u \<and> denotes s k (su_int u)
    | Err e \<Rightarrow>
        e = AmtInputTooLong \<and> 512 < length s \<or> e = AmtInvalidSyntax \<and> \<not> decimal_syntax s \<or>
        e = AmtPrecisionLoss \<and> (\<nexists>v. denotes s k v) \<or>
        e = AmtOverflow \<and> (\<exists>v. denotes s k v \<and> (v < - SIGNED_BOUND \<or> SIGNED_BOUND \<le> v))"
proof (cases "length s \<le> 512 \<and> decimal_syntax s")
  case False
  then show ?thesis by (auto simp: parse_signed_units_eq)
next
  case True
  obtain w f where p: "text_parts s = (w, f)" by (cases "text_parts s")
  have dig: "all_digits (w @ f)" using True p by (simp add: decimal_syntax_def)
  have num: "decimal_num s = (if text_negative s then -1 else 1) * int (dec_value (w @ f))" "decimal_places s = length f"
    by (simp_all add: decimal_num_def decimal_places_def p)
  show ?thesis
  proof (cases "list_ex (\<lambda>b. b \<noteq> 48) (drop k f)")
    case lost: True
    have "\<not> denotes s k v" for v
    proof
      assume "denotes s k v"
      then have "10 ^ length f dvd decimal_num s * 10 ^ k"
        unfolding denotes_def num(2) by (rule dvdI [of _ _ v, OF trans [OF sym mult.commute]])
      then have "int (10 ^ length f) dvd int (dec_value (w @ f) * 10 ^ k)"
        unfolding num(1) by (auto split: if_splits)
      then show False using tail_lost [of f k w] dig lost by (simp only: int_dvd_int_iff list_all_append)
    qed
    then show ?thesis using True p lost by (simp add: parse_signed_units_eq k_def)
  next
    case kept: False
    let ?m = "w @ take k f @ replicate (k - length f) 48"
    have "all_digits (drop k f)" using dig by (auto simp: list_all_iff dest: in_set_dropD)
    then have "dec_value (drop k f) = 0" using kept by (simp add: dec_value_eq_0 list_all_iff list_ex_iff)
    then have val: "dec_value ?m * 10 ^ length f = dec_value (w @ f) * 10 ^ k"
      using scaled_value [of f w k] dig by simp
    have dm: "all_digits ?m" using dig by (auto simp: list_all_iff is_ascii_digit_def dest: in_set_takeD)
    define v where "v = (if text_negative s then - int (dec_value ?m) else int (dec_value ?m))"
    have "int (dec_value ?m * 10 ^ length f) = int (dec_value (w @ f) * 10 ^ k)"
      by (simp only: val)
    then have "int (dec_value ?m) * 10 ^ length f = int (dec_value (w @ f)) * 10 ^ k"
      by simp
    then have den: "denotes s k v" by (simp add: denotes_def num v_def)
    have run: "parse_signed_units s unit = rbind (accumulate 0 ?m) (signed_units_new (text_negative s))"
      using True p kept by (simp add: parse_signed_units_eq k_def)
    show ?thesis
      using accumulate_signed [OF dm, of "text_negative s"] den True
      unfolding run v_def [symmetric] by (auto split: sum.splits)
  qed
qed

lemma parse_Ok_iff:
  "parse_signed_units s unit = Ok u \<longleftrightarrow>
     length s \<le> 512 \<and> decimal_syntax s \<and> wf_signed u \<and> denotes s (unat (unit_decimals unit)) (su_int u)"
proof
  assume "parse_signed_units s unit = Ok u"
  then show "length s \<le> 512 \<and> decimal_syntax s \<and> wf_signed u \<and> denotes s (unat (unit_decimals unit)) (su_int u)"
    using parse_cases [of s unit] by simp
next
  assume r: "length s \<le> 512 \<and> decimal_syntax s \<and> wf_signed u \<and> denotes s (unat (unit_decimals unit)) (su_int u)"
  show "parse_signed_units s unit = Ok u"
  proof (cases "parse_signed_units s unit")
    case (Inl e)
    then obtain v where "denotes s (unat (unit_decimals unit)) v" "v < - SIGNED_BOUND \<or> SIGNED_BOUND \<le> v"
      using parse_cases [of s unit] r by auto
    then show ?thesis using r denotes_unique by (fastforce simp: wf_signed_def)
  next
    case (Inr v)
    then show ?thesis
      using parse_cases [of s unit] r denotes_unique signed_inject by fastforce
  qed
qed

text \<open>
  C25: decimal parsing is exact. It succeeds exactly on the bounded, well-formed texts that denote
  a whole number of units in range, and returns that number; otherwise the error names the
  cause: too long, malformed, a fraction of a unit would be lost, or out of range.
\<close>

theorem parse_signed_units_exact:
  "case parse_signed_units s unit of
      Ok u \<Rightarrow> length s \<le> 512 \<and> decimal_syntax s \<and> wf_signed u \<and> denotes s (unat (unit_decimals unit)) (su_int u)
    | Err e \<Rightarrow>
        e = AmtInputTooLong \<and> 512 < length s \<or> e = AmtInvalidSyntax \<and> \<not> decimal_syntax s \<or>
        e = AmtPrecisionLoss \<and> (\<nexists>v. denotes s (unat (unit_decimals unit)) v) \<or>
        e = AmtOverflow \<and>
          (\<exists>v. denotes s (unat (unit_decimals unit)) v \<and> (v < - SIGNED_BOUND \<or> SIGNED_BOUND \<le> v))"
  by (rule parse_cases)

section \<open>Formatting and parsing back\<close>

lemma trim_zeros_append:
  "trim_zeros (xs @ [46] @ f) = xs @ [46] @ trim_zeros f"
proof (induction f rule: rev_induct)
  case (snoc d f)
  then show ?case by (simp add: trim_zeros_def)
qed (simp add: trim_zeros_def)

lemma trim_zeros_split: "\<exists>k. f = trim_zeros f @ replicate k 48"
proof (induction f rule: rev_induct)
  case (snoc d f)
  then obtain k where k: "f = trim_zeros f @ replicate k 48" by blast
  show ?case
  proof (cases "d = 48")
    case True
    then have "f @ [d] = trim_zeros (f @ [d]) @ replicate (Suc k) 48"
      using k by (simp add: trim_zeros_def flip: replicate_append_same)
    then show ?thesis by blast
  qed (auto simp: trim_zeros_def)
qed (simp add: trim_zeros_def)

lemma place_point_split:
  assumes "all_digits ds" and "ds \<noteq> []" and "0 < k"
  shows "\<exists>w f. place_point k ds = w @ [46] @ f \<and> w \<noteq> [] \<and> all_digits (w @ f) \<and> length f = k \<and>
    dec_value (w @ f) = dec_value ds \<and> length w \<le> length ds"
proof (cases "length ds \<le> k")
  case True
  let ?f = "replicate (k - length ds) 48 @ ds"
  have "place_point k ds = [48] @ [46] @ ?f" "length ?f = k"
    using True by (simp_all add: place_point_def)
  moreover have "dec_value ([48] @ ?f) = dec_value ds"
    by (simp add: dec_value_append dec_value_Cons)
  moreover have "all_digits ([48] @ ?f)" using assms(1) by (auto simp: list_all_iff is_ascii_digit_def)
  moreover have "length [48 :: u8] \<le> length ds" using assms(2) by (cases ds) auto
  ultimately show ?thesis by (metis list.distinct(1))
next
  case False
  let ?n = "length ds - k"
  have "place_point k ds = take ?n ds @ [46] @ drop ?n ds" using False by (simp add: place_point_def Let_def)
  moreover have "take ?n ds \<noteq> []" "length (drop ?n ds) = k" "length (take ?n ds) \<le> length ds"
    using False assms(2) by auto
  moreover have "all_digits (take ?n ds @ drop ?n ds)" "dec_value (take ?n ds @ drop ?n ds) = dec_value ds"
    using assms(1) by simp_all
  ultimately show ?thesis by blast
qed

lemma digits_no_marks: "all_digits w \<Longrightarrow> 46 \<notin> set w \<and> 45 \<notin> set w"
  by (auto simp: list_all_iff is_ascii_digit_def)

lemma text_parts_of:
  fixes neg :: bool
  assumes "all_digits (w @ f)" and "w \<noteq> []"
  defines "t \<equiv> (if neg then [45] else []) @ w"
  shows "text_negative (t @ [46] @ f) = neg" "text_parts (t @ [46] @ f) = (w, f)"
    "text_negative t = neg" "text_parts t = (w, [])"
proof -
  have w: "46 \<notin> set w" "45 \<notin> set w" using digits_no_marks [of w] assms(1) by simp_all
  then have h: "hd w \<noteq> 45" using assms(2) by (metis hd_in_set)
  show n: "text_negative (t @ [46] @ f) = neg" "text_negative t = neg"
    using h assms(2) by (auto simp: text_negative_def t_def hd_append)
  have "split_once 46 (w @ [46] @ f) = Some (w, f)" using w by (simp add: split_once_Some)
  moreover have "split_once 46 w = None" using w by (simp add: split_once_None)
  ultimately show "text_parts (t @ [46] @ f) = (w, f)" "text_parts t = (w, [])"
    using n by (simp_all add: text_parts_def split_decimal_def t_def)
qed

lemma format_denotes:
  assumes wf: "wf_signed u" and k: "unat (unit_decimals unit) = k" and small: "k \<le> 80"
  shows "decimal_syntax (signed_units_format u unit) \<and> denotes (signed_units_format u unit) k (su_int u) \<and>
    length (signed_units_format u unit) \<le> 512"
proof -
  define ds where "ds = dec_digits (unat (su_magnitude u))"
  define sgn where "sgn = (if su_negative u then [45 :: u8] else [])"
  have ds: "dec_value ds = unat (su_magnitude u)" "all_digits ds" "ds \<noteq> []"
    using dec_digits_value by (auto simp: ds_def)
  have "unat (su_magnitude u) < 10 ^ Suc 199"
  proof -
    have "unat (su_magnitude u) < 2 ^ 512" using unsigned_less [of "su_magnitude u", where ?'a = nat] by simp
    also have "(2 :: nat) ^ 512 \<le> 10 ^ Suc 199" by simp
    finally show ?thesis .
  qed
  then have len: "length ds \<le> 200" using length_dec_digits [of "unat (su_magnitude u)" 199] by (simp add: ds_def)
  have num: "su_int u = (if su_negative u then - int (dec_value ds) else int (dec_value ds))"
    by (simp add: su_int_def ds(1))
  show ?thesis
  proof (cases "k = 0")
    case True
    then have t: "signed_units_format u unit = sgn @ ds"
      by (simp add: signed_units_format_def Let_def k ds_def sgn_def)
    note p = text_parts_of(3,4) [of ds "[]" "su_negative u", folded sgn_def]
    show ?thesis
      unfolding t using p ds len True
      by (simp add: decimal_syntax_def denotes_def decimal_num_def decimal_places_def num sgn_def)
  next
    case False
    obtain w f where pp: "place_point k ds = w @ [46] @ f" "w \<noteq> []" "all_digits (w @ f)" "length f = k"
      "dec_value (w @ f) = dec_value ds" "length w \<le> length ds"
      using place_point_split [OF ds(2,3)] False by blast
    obtain j where j: "f = trim_zeros f @ replicate j 48" using trim_zeros_split by blast
    define g where "g = (if trim_zeros f = [] then [48] else trim_zeros f)"
    have trim: "trim_zeros (sgn @ place_point k ds) = sgn @ w @ [46] @ trim_zeros f"
      unfolding pp(1) using trim_zeros_append [of "sgn @ w" f] by simp
    have dt: "all_digits (trim_zeros f)" using pp(3) j by (metis list_all_append)
    have "trim_zeros f \<noteq> [] \<Longrightarrow> last (trim_zeros f) \<noteq> 46"
      using digits_no_marks [OF dt] by (metis last_in_set)
    then have t: "signed_units_format u unit = sgn @ w @ [46] @ g"
      using False trim by (auto simp: signed_units_format_def Let_def k ds_def [symmetric] sgn_def [symmetric] g_def)
    have dg: "all_digits (w @ g)" using pp(3) dt by (auto simp: g_def is_ascii_digit_def)
    note p = text_parts_of(1,2) [OF dg pp(2), of "su_negative u", folded sgn_def]
    have kj: "k = length (trim_zeros f) + j" using pp(4) j by (metis length_append length_replicate)
    have "dec_value (w @ f) = dec_value (w @ trim_zeros f) * 10 ^ j"
      using j dec_value_append [of "w @ trim_zeros f" "replicate j 48"] by simp
    then have val: "dec_value ds * 10 ^ length g = dec_value (w @ g) * 10 ^ k"
      using pp(5) kj by (auto simp: g_def dec_value_append power_add)
    have "int (dec_value ds * 10 ^ length g) = int (dec_value (w @ g) * 10 ^ k)" by (simp only: val)
    then have "int (dec_value ds) * 10 ^ length g = int (dec_value (w @ g)) * 10 ^ k" by simp
    moreover have "length (sgn @ w @ [46] @ g) \<le> 512"
      using pp(6) len small kj by (auto simp: sgn_def g_def)
    ultimately show ?thesis
      unfolding t using p dg pp(2)
      by (auto simp: decimal_syntax_def denotes_def decimal_num_def decimal_places_def num)
  qed
qed

text \<open>
  C26: formatting a signed value in any supported unit and parsing the text in the same unit gives
  the value back, sign and every digit included.
\<close>

theorem signed_units_roundtrip:
  assumes "wf_signed u" and "unit_decimals unit \<le> 80"
  shows "parse_signed_units (signed_units_format u unit) unit = Ok u"
  using format_denotes [OF assms(1) refl] assms by (simp add: parse_Ok_iff word_le_nat_alt)

theorem signed_units_roundtrip_witness:
  "parse_signed_units (signed_units_format \<lparr>su_negative = True, su_magnitude = 1500\<rparr> UNIT_QI) UNIT_QI =
     Ok \<lparr>su_negative = True, su_magnitude = 1500\<rparr>"
  by (rule signed_units_roundtrip)
    (simp_all add: wf_signed_def su_int_def SIGNED_BOUND_def UNIT_QI_def word_le_nat_alt)

lemma unsigned_units_wf: "wf_signed \<lparr>su_negative = False, su_magnitude = ucast (v :: u256)\<rparr>"
proof -
  have "int (unat v) < int (2 ^ 256)"
    using unsigned_less [of v, where ?'a = nat] by (simp only: of_nat_less_iff) simp
  also have "\<dots> \<le> SIGNED_BOUND" by (simp add: SIGNED_BOUND_def)
  finally have "int (unat v) < SIGNED_BOUND" .
  moreover have "0 < SIGNED_BOUND" by (simp add: SIGNED_BOUND_def)
  ultimately show ?thesis by (simp add: wf_signed_def su_int_def unat_ucast_up)
qed

lemma parse_format_units: "unit_decimals unit \<le> 80 \<Longrightarrow> parse_units (format_units v unit) unit = Ok v"
proof -
  assume u: "unit_decimals unit \<le> 80"
  let ?u = "\<lparr>su_negative = False, su_magnitude = ucast v\<rparr> :: signed_units"
  have "parse_signed_units (signed_units_format ?u unit) unit = Ok ?u"
    using format_denotes [OF unsigned_units_wf refl, of unit v] u unsigned_units_wf
    by (simp add: parse_Ok_iff word_le_nat_alt)
  moreover have "checked_cast (ucast v :: u512) = Some v"
    by (simp add: checked_simps unat_ucast_up)
  ultimately show ?thesis by (simp add: parse_units_def format_units_def try_u256_def)
qed

end
