(* ===== verification/Encoding.thy ===== *)
theory Encoding
  imports Amount
begin

text \<open>
  Byte encodings and integer text: \<open>quai-primitives/src/encoding.rs\<close> and
  \<open>quai-primitives/src/numeric.rs\<close>. Texts are byte strings. The Base64 and Base58 crates are
  parameters; the floating point bridges of \<open>numeric.rs\<close> are left out.
\<close>

section \<open>Source definitions: encoding.rs\<close>

definition MAX_ENCODING_BYTES :: nat where
  "MAX_ENCODING_BYTES = 1048576"

definition MAX_BASE58_BYTES :: nat where
  "MAX_BASE58_BYTES = 4096"

datatype encoding_error = EncInvalid | EncBounds | EncTooLarge

definition bounded :: "nat \<Rightarrow> (unit, encoding_error) result" where
  "bounded len = (if MAX_ENCODING_BYTES < len then Err EncTooLarge else Ok ())"

definition hexlify :: "bytes \<Rightarrow> (bytes, encoding_error) result" where
  "hexlify bs = rbind (bounded (length bs)) (\<lambda>_. Ok (as_bytes ''0x'' @ hex_digits bs))"

definition get_nibble :: "u8 \<Rightarrow> u8" where
  "get_nibble b = (if is_ascii_digit b then b - 48 else to_ascii_lowercase b - 97 + 10)"

definition get_bytes :: "bytes \<Rightarrow> (bytes, encoding_error) result" where
  "get_bytes s =
     (if MAX_ENCODING_BYTES * 2 + 2 < length s then Err EncTooLarge
      else rbind (ok_or (strip_prefix (as_bytes ''0x'') s) EncInvalid) (\<lambda>digits.
        if odd (length digits) \<or> \<not> list_all is_ascii_hexdigit digits then Err EncInvalid
        else Ok (nibble_pairs (map get_nibble digits))))"

text \<open>The byte count is a \<open>usize\<close>: the running sum is checked at 64 bits.\<close>

definition concat_bytes :: "bytes list \<Rightarrow> (bytes, encoding_error) result" where
  "concat_bytes parts =
     (if 4096 < length parts then Err EncTooLarge
      else rbind (try_fold (\<lambda>n p. if n + length p < 2 ^ 64 then Ok (n + length p) else Err EncTooLarge) 0 parts)
        (\<lambda>size. rbind (bounded size) (\<lambda>_. Ok (foldl (\<lambda>bs part. bs @ part) [] parts))))"

definition data_slice :: "bytes \<Rightarrow> nat \<Rightarrow> nat \<Rightarrow> (bytes, encoding_error) result" where
  "data_slice bs start fin =
     (if start \<le> fin \<and> fin \<le> length bs then Ok (take (fin - start) (drop start bs)) else Err EncBounds)"

definition strip_zeros_left :: "bytes \<Rightarrow> bytes" where
  "strip_zeros_left bs = dropWhile (\<lambda>b. b = 0) bs"

definition pad :: "bytes \<Rightarrow> nat \<Rightarrow> bool \<Rightarrow> (bytes, encoding_error) result" where
  "pad bs len left =
     rbind (bounded len) (\<lambda>_.
       if len < length bs then Err EncBounds
       else let res = replicate len 0; start = (if left then len - length bs else 0)
            in Ok (take start res @ bs @ drop (start + length bs) res))"

definition zero_pad_value :: "bytes \<Rightarrow> nat \<Rightarrow> (bytes, encoding_error) result" where
  "zero_pad_value bs len = pad bs len True"

definition zero_pad_bytes :: "bytes \<Rightarrow> nat \<Rightarrow> (bytes, encoding_error) result" where
  "zero_pad_bytes bs len = pad bs len False"

definition encode_base64 :: "(bytes \<Rightarrow> bytes) \<Rightarrow> bytes \<Rightarrow> (bytes, encoding_error) result" where
  "encode_base64 standard_encode bs = rbind (bounded (length bs)) (\<lambda>_. Ok (standard_encode bs))"

definition decode_base64 :: "(bytes \<Rightarrow> (bytes, 'e) result) \<Rightarrow> bytes \<Rightarrow> (bytes, encoding_error) result" where
  "decode_base64 standard_decode s =
     (if (MAX_ENCODING_BYTES + 2) div 3 * 4 < length s then Err EncTooLarge
      else rbind (map_err (\<lambda>_. EncInvalid) (standard_decode s))
        (\<lambda>bs. rbind (bounded (length bs)) (\<lambda>_. Ok bs)))"

text \<open>
  \<open>bs58::decode(text).onto(buffer)\<close> writes into a buffer and returns how many bytes it wrote.
\<close>

datatype bs58_error = BufferTooSmall | OtherBs58

definition encode_base58 :: "(bytes \<Rightarrow> bytes) \<Rightarrow> bytes \<Rightarrow> (bytes, encoding_error) result" where
  "encode_base58 bs58_encode bs =
     (if MAX_BASE58_BYTES < length bs then Err EncTooLarge else Ok (bs58_encode bs))"

definition decode_base58_bytes ::
  "(bytes \<Rightarrow> bytes \<Rightarrow> (bytes \<times> nat, bs58_error) result) \<Rightarrow> bytes \<Rightarrow> (bytes, encoding_error) result" where
  "decode_base58_bytes onto s =
     (if MAX_BASE58_BYTES * 138 div 100 + 1 < length s then Err EncTooLarge
      else rbind (map_err (\<lambda>e. case e of BufferTooSmall \<Rightarrow> EncTooLarge | _ \<Rightarrow> EncInvalid)
            (onto s (replicate MAX_BASE58_BYTES 0)))
          (\<lambda>(output, size). Ok (take size output)))"

definition decode_base58 ::
  "(bytes \<Rightarrow> bytes \<Rightarrow> (bytes \<times> nat, bs58_error) result) \<Rightarrow> bytes \<Rightarrow> (u256, encoding_error) result" where
  "decode_base58 onto s =
     rbind (decode_base58_bytes onto s) (\<lambda>bs.
       let bs = strip_zeros_left bs
       in if 32 < length bs then Err EncBounds else Ok (word_of_nat (be_nat bs)))"

text \<open>\<open>std::str::from_utf8\<close>: the well-formed byte sequences of the Unicode standard.\<close>

definition utf8_cont :: "u8 \<Rightarrow> bool" where
  "utf8_cont b \<longleftrightarrow> 0x80 \<le> b \<and> b \<le> 0xBF"

fun utf8_valid :: "bytes \<Rightarrow> bool" where
  "utf8_valid [] = True"
| "utf8_valid (a # bs) =
     (if a \<le> 0x7F then utf8_valid bs
      else case bs of [] \<Rightarrow> False | b # cs \<Rightarrow>
        if 0xC2 \<le> a \<and> a \<le> 0xDF then utf8_cont b \<and> utf8_valid cs
        else case cs of [] \<Rightarrow> False | c # ds \<Rightarrow>
          if 0xE0 \<le> a \<and> a \<le> 0xEF
          then utf8_cont b \<and> (a = 0xE0 \<longrightarrow> 0xA0 \<le> b) \<and> (a = 0xED \<longrightarrow> b \<le> 0x9F) \<and> utf8_cont c \<and> utf8_valid ds
          else case ds of [] \<Rightarrow> False | d # es \<Rightarrow>
            0xF0 \<le> a \<and> a \<le> 0xF4 \<and> utf8_cont b \<and> (a = 0xF0 \<longrightarrow> 0x90 \<le> b) \<and> (a = 0xF4 \<longrightarrow> b \<le> 0x8F) \<and>
            utf8_cont c \<and> utf8_cont d \<and> utf8_valid es)"

definition encode_bytes32 :: "bytes \<Rightarrow> (bytes, encoding_error) result" where
  "encode_bytes32 s =
     (if 31 < length s then Err EncBounds else Ok (s @ drop (length s) (replicate 32 0)))"

definition decode_bytes32 :: "bytes \<Rightarrow> (bytes, encoding_error) result" where
  "decode_bytes32 bs =
     (if bs ! 31 \<noteq> 0 then Err EncInvalid
      else let s = rev (dropWhile (\<lambda>b. b = 0) (rev bs))
           in if utf8_valid s then Ok s else Err EncInvalid)"

definition mask_value :: "u256 \<Rightarrow> u16 \<Rightarrow> (u256, encoding_error) result" where
  "mask_value value bits =
     (if bits = 0 then Ok 0
      else if bits = 256 then Ok value
      else if 1 \<le> bits \<and> bits \<le> 255 then Ok (value AND (push_bit (unat bits) 1 - 1))
      else Err EncBounds)"

definition to_twos :: "signed_units \<Rightarrow> u16 \<Rightarrow> (u256, encoding_error) result" where
  "to_twos value bits =
     (if \<not> (1 \<le> bits \<and> bits \<le> 256) then Err EncBounds
      else rbind (ok_or (checked_cast (su_magnitude value)) EncBounds) (\<lambda>magnitude.
        let limit = push_bit (unat bits - 1) 1
        in if limit < magnitude \<or> \<not> su_negative value \<and> magnitude = limit then Err EncBounds
           else if su_negative value then mask_value (NOT magnitude + 1) bits
           else Ok magnitude))"

definition from_twos :: "u256 \<Rightarrow> u16 \<Rightarrow> (signed_units, encoding_error) result" where
  "from_twos value bits =
     (if \<not> (1 \<le> bits \<and> bits \<le> 256) then Err EncBounds
      else rbind (mask_value value bits) (\<lambda>masked.
        if masked \<noteq> value then Err EncBounds
        else
          let negative = bit value (unat bits - 1)
          in rbind (if negative then mask_value (NOT value + 1) bits else Ok value) (\<lambda>magnitude.
            map_err (\<lambda>_. EncBounds) (signed_units_new negative (ucast magnitude)))))"

section \<open>Source definitions: numeric.rs\<close>

definition MAX_INTEGER_TEXT :: nat where
  "MAX_INTEGER_TEXT = 1024"

primrec push_digits :: "u64 \<Rightarrow> u512 \<Rightarrow> bytes \<Rightarrow> (u512, encoding_error) result" where
  "push_digits radix m [] = Ok m"
| "push_digits radix m (b # bs) =
     (case hex_nibble b of
        None \<Rightarrow> Err EncInvalid
      | Some digit \<Rightarrow>
          if radix \<le> ucast digit then Err EncInvalid
          else rbind (ok_or (push_digit (ucast radix) m (ucast digit)) EncBounds)
            (\<lambda>m. push_digits radix m bs))"

definition split_sign :: "bytes \<Rightarrow> bool \<times> bytes" where
  "split_sign s = (case strip_prefix (as_bytes ''-'') s of None \<Rightarrow> (False, s) | Some r \<Rightarrow> (True, r))"

definition split_radix :: "bytes \<Rightarrow> u64 \<times> bytes" where
  "split_radix digits =
     (case strip_prefix (as_bytes ''0x'') digits of Some s \<Rightarrow> (16, s) | None \<Rightarrow>
      (case strip_prefix (as_bytes ''0o'') digits of Some s \<Rightarrow> (8, s) | None \<Rightarrow>
       (case strip_prefix (as_bytes ''0b'') digits of Some s \<Rightarrow> (2, s) | None \<Rightarrow> (10, digits))))"

definition parse_integer :: "bytes \<Rightarrow> (signed_units, encoding_error) result" where
  "parse_integer s =
     (if MAX_INTEGER_TEXT < length s then Err EncTooLarge
      else case split_sign s of (negative, digits) \<Rightarrow>
        case split_radix digits of (radix, digits) \<Rightarrow>
          if digits = [] then Err EncInvalid
          else rbind (push_digits radix 0 digits)
            (\<lambda>magnitude. map_err (\<lambda>_. EncBounds) (signed_units_new negative magnitude)))"

definition parse_uint :: "bytes \<Rightarrow> (u256, encoding_error) result" where
  "parse_uint s = rbind (parse_integer s) (\<lambda>u. map_err (\<lambda>_. EncBounds) (try_u256 u))"

definition uint_from_be_bytes :: "bytes \<Rightarrow> (u256, encoding_error) result" where
  "uint_from_be_bytes bs =
     (if MAX_ENCODING_BYTES < length bs then Err EncTooLarge
      else let magnitude = strip_zeros_left bs
           in if 32 < length magnitude then Err EncBounds else Ok (word_of_nat (be_nat magnitude)))"

definition uint_to_be_array :: "u256 \<Rightarrow> bytes" where
  "uint_to_be_array value = strip_zeros_left (to_be 32 (unat value))"

definition uint_to_be_hex :: "u256 \<Rightarrow> nat option \<Rightarrow> (bytes, encoding_error) result" where
  "uint_to_be_hex value width =
     (let bs = uint_to_be_array value; bs = (if bs = [] then bs @ [0] else bs)
      in rbind (case width of Some w \<Rightarrow> zero_pad_value bs w | None \<Rightarrow> Ok bs) hexlify)"

text \<open>The \<open>{:#x}\<close> format: the prefix and the lowercase digits without leading zeros.\<close>

fun hex_number :: "nat \<Rightarrow> bytes" where
  "hex_number n = (if n < 16 then [HEX ! n] else hex_number (n div 16) @ [HEX ! (n mod 16)])"

declare hex_number.simps [simp del]

definition uint_to_quantity :: "u256 \<Rightarrow> bytes" where
  "uint_to_quantity value = as_bytes ''0x'' @ hex_number (unat value)"

datatype hex_format = HexAny | HexBytes | HexExact nat

definition is_hex_string :: "bytes \<Rightarrow> hex_format \<Rightarrow> bool" where
  "is_hex_string s fmt =
     (if MAX_ENCODING_BYTES * 2 + 2 < length s then False
      else case strip_prefix (as_bytes ''0x'') s of
          None \<Rightarrow> False
        | Some digits \<Rightarrow>
            (case fmt of
               HexAny \<Rightarrow> True
             | HexBytes \<Rightarrow> even (length digits)
             | HexExact n \<Rightarrow> n * 2 < 2 ^ 64 \<and> n * 2 = length digits) \<and>
            list_all is_ascii_hexdigit digits)"

section \<open>Hexadecimal text\<close>

lemma prefix_0x: "as_bytes ''0x'' = [48, 120]"
  by (simp add: as_bytes_def char_byte_def)

lemma get_nibble_eq: "hex_nibble b = Some n \<Longrightarrow> get_nibble b = n"
proof -
  have "b - 97 + 10 = b - 87" "b + 32 - 97 + 10 = b - 65 + 10" by simp_all
  then show "hex_nibble b = Some n \<Longrightarrow> get_nibble b = n"
    by (auto simp: hex_nibble_def get_nibble_def is_ascii_digit_def to_ascii_lowercase_def word_le_nat_alt
        split: if_splits)
qed

lemma get_nibble_the: "list_all is_ascii_hexdigit ds \<Longrightarrow> map get_nibble ds = map (\<lambda>d. the (hex_nibble d)) ds"
  by (fastforce simp: list_all_iff is_ascii_hexdigit_iff dest: get_nibble_eq)

lemma hexlify_Ok: "hexlify bs = Ok s \<longleftrightarrow> length bs \<le> MAX_ENCODING_BYTES \<and> s = as_bytes ''0x'' @ hex_digits bs"
  by (auto simp: hexlify_def bounded_def)

lemma hex_digits_hexdigits: "list_all is_ascii_hexdigit (hex_digits bs)"
  using hex_digits_nibbles by (auto simp: list_all_iff is_ascii_hexdigit_iff)

lemma nibble_pairs_get: "nibble_pairs (map get_nibble (hex_digits bs)) = bs"
  unfolding get_nibble_the [OF hex_digits_hexdigits] by (rule nibble_pairs_hex_digits)

lemma get_bytes_hexlify: "hexlify bs = Ok s \<Longrightarrow> get_bytes s = Ok bs"
  using hex_digits_hexdigits [of bs] by (simp add: hexlify_Ok get_bytes_def nibble_pairs_get)

lemma get_bytes_Ok:
  "(\<exists>bs. get_bytes s = Ok bs) \<longleftrightarrow> is_hex_string s HexBytes"
  by (auto simp: get_bytes_def is_hex_string_def ok_or_def split: option.splits)

section \<open>Padding\<close>

lemma pad_Ok:
  "pad bs len left = Ok r \<longleftrightarrow> length bs \<le> len \<and> len \<le> MAX_ENCODING_BYTES \<and>
     r = (if left then replicate (len - length bs) 0 @ bs else bs @ replicate (len - length bs) 0)"
  by (auto simp: pad_def bounded_def Let_def not_less rbind_def split: if_splits)

lemma strip_zeros_left_pad: "strip_zeros_left (replicate n 0 @ bs) = strip_zeros_left bs"
  by (induction n) (auto simp: strip_zeros_left_def)

lemma be_nat_strip [simp]: "be_nat (strip_zeros_left bs) = be_nat bs"
  by (simp add: strip_zeros_left_def)

lemma length_strip: "length (strip_zeros_left bs) \<le> length bs"
  by (simp add: strip_zeros_left_def length_dropWhile_le)

lemma word_of_nat_unat [simp]: "word_of_nat (unat v) = (v :: 'a::len word)"
  by (simp add: of_nat_unat)

lemma uint_be_roundtrip: "uint_from_be_bytes (replicate n 0 @ uint_to_be_array v) = Ok v"
  if "n \<le> 1000"
proof -
  have l: "length (uint_to_be_array v) \<le> 32"
    using length_strip [of "to_be 32 (unat v)"] by (simp add: uint_to_be_array_def)
  have "strip_zeros_left (uint_to_be_array v) = uint_to_be_array v"
    by (simp add: uint_to_be_array_def strip_zeros_left_def dropWhile_idem)
  moreover have "be_nat (uint_to_be_array v) = unat v"
    using be_nat_to_be_id [OF u256_be] by (simp add: uint_to_be_array_def)
  ultimately show ?thesis
    using l that by (simp add: uint_from_be_bytes_def strip_zeros_left_pad MAX_ENCODING_BYTES_def Let_def)
qed

section \<open>Fixed text words\<close>

lemma trailing_zeros:
  assumes "s = [] \<or> last s \<noteq> 0"
  shows "rev (dropWhile (\<lambda>b. b = 0) (rev (s @ replicate n (0 :: u8)))) = s"
proof -
  have "dropWhile (\<lambda>b. b = 0) (replicate n 0 @ rev s) = rev s"
    using assms by (cases s rule: rev_cases) (auto simp: dropWhile_append)
  then show ?thesis by simp
qed

lemma bytes32_roundtrip:
  assumes "encode_bytes32 s = Ok w" and "utf8_valid s" and "s = [] \<or> last s \<noteq> 0"
  shows "decode_bytes32 w = Ok s"
proof -
  have w: "w = s @ replicate (32 - length s) 0" "length s \<le> 31"
    using assms(1) by (auto simp: encode_bytes32_def split: if_splits)
  then have "w ! 31 = 0" by (simp add: nth_append)
  then show ?thesis
    using trailing_zeros [OF assms(3)] assms(2) w(1) by (simp add: decode_bytes32_def Let_def)
qed

section \<open>Two's complement\<close>

lemma mask_value_eq:
  "mask_value v bits = (if unat bits \<le> 256 then Ok (take_bit (unat bits) v) else Err EncBounds)"
proof -
  have "v AND (push_bit n 1 - 1) = take_bit n v" for n
    by (simp add: take_bit_eq_mask mask_eq_exp_minus_1 push_bit_eq_mult)
  moreover have "take_bit 256 v = v" by (rule bit_word_eqI) (simp add: bit_simps)
  moreover have "bits = 0 \<longleftrightarrow> unat bits = 0" "bits = 256 \<longleftrightarrow> unat bits = 256"
    by (simp_all add: word_unat_eq_iff)
  ultimately show ?thesis
    by (auto simp: mask_value_def word_le_nat_alt)
qed

text \<open>The signed values of a width, and the bit pattern of one.\<close>

definition twos_range :: "nat \<Rightarrow> int \<Rightarrow> bool" where
  "twos_range n v \<longleftrightarrow> - (2 ^ (n - 1)) \<le> v \<and> v < 2 ^ (n - 1)"

definition twos_pattern :: "nat \<Rightarrow> int \<Rightarrow> u256 \<Rightarrow> bool" where
  "twos_pattern n v w \<longleftrightarrow> int (unat w) = v mod 2 ^ n"

lemma twos_arith:
  fixes L v W :: int
  assumes "0 < L"
  shows "- L \<le> v \<and> v < L \<and> W = v mod (2 * L) \<longleftrightarrow>
    0 \<le> W \<and> W < 2 * L \<and> v = (if L \<le> W then W - 2 * L else W)"
proof -
  have "v mod (2 * L) = (if 0 \<le> v then v else v + 2 * L)" if "- L \<le> v" "v < L"
  proof (cases "0 \<le> v")
    case False
    then have "(v + 2 * L) mod (2 * L) = v + 2 * L" using that by (intro mod_pos_pos_trivial) auto
    then show ?thesis using False by simp
  qed (use that in simp)
  then show ?thesis by (auto split: if_splits)
qed

lemma pow_pred: "1 \<le> n \<Longrightarrow> (2 :: int) ^ n = 2 * 2 ^ (n - 1)"
  by (cases n) auto

lemma unat_limit: "n < 256 \<Longrightarrow> int (unat (push_bit n 1 :: u256)) = 2 ^ n"
proof -
  assume "n < 256"
  then have "(2 :: nat) ^ n < 2 ^ 256" by (intro power_strict_increasing) simp_all
  then have "unat (word_of_nat (2 ^ n) :: u256) = 2 ^ n" by (intro unat_of_nat_small) simp
  then have "unat (push_bit n 1 :: u256) = 2 ^ n" by (simp add: push_bit_eq_mult)
  then show ?thesis by (simp only: of_nat_power of_nat_numeral)
qed

lemma unat_take_bit: "int (unat (take_bit n w :: u256)) = int (unat w) mod 2 ^ n"
  by (metis of_nat_unat unsigned_take_bit_eq take_bit_eq_mod)

lemma unat_negate: "n \<le> 256 \<Longrightarrow> int (unat (take_bit n (NOT w + 1 :: u256))) = (- int (unat w)) mod 2 ^ n"
proof -
  assume n: "n \<le> 256"
  have "NOT w + 1 = - w" by (simp add: minus_eq_not_plus_1)
  moreover have "(- int (unat w)) mod 2 ^ 256 mod 2 ^ n = (- int (unat w)) mod 2 ^ n"
    using n by (intro mod_mod_cancel le_imp_power_dvd)
  moreover have "int (unat (- w)) = (- int (unat w)) mod 2 ^ 256"
    by (simp only: of_nat_unat uint_word_ariths) simp
  ultimately show ?thesis by (simp only: unat_take_bit)
qed

lemma bit_high:
  fixes w :: "'a::len word"
  assumes "1 \<le> n" and "n \<le> LENGTH('a)" and "int (unat w) < 2 ^ n"
  shows "bit w (n - 1) \<longleftrightarrow> 2 ^ (n - 1) \<le> int (unat w)"
proof -
  define L where "L = (2 :: int) ^ (n - 1)"
  have L: "0 < L" "2 ^ n = 2 * L" using assms(1) by (simp_all add: L_def pow_pred)
  have "bit w (n - 1) \<longleftrightarrow> bit (uint w) (n - 1)" using assms(1,2) less_eq_Suc_le by (auto simp: bit_uint_iff)
  also have "\<dots> \<longleftrightarrow> odd (int (unat w) div L)" by (simp add: bit_iff_odd of_nat_unat L_def)
  also have "\<dots> \<longleftrightarrow> L \<le> int (unat w)"
  proof (cases "L \<le> int (unat w)")
    case True
    then have "int (unat w) div L = 1" using assms(3) L by (intro int_div_pos_eq [where r = "int (unat w) - L"]) auto
    then show ?thesis using True by simp
  qed (use L in simp)
  finally show ?thesis by (simp only: L_def)
qed

lemma unat_bits: "1 \<le> bits \<and> bits \<le> 256 \<longleftrightarrow> 1 \<le> unat (bits :: u16) \<and> unat bits \<le> 256"
  by (simp add: word_le_nat_alt)

lemma to_twos_Ok:
  assumes "wf_signed u"
  shows "to_twos u bits = Ok w \<longleftrightarrow> 1 \<le> unat bits \<and> unat bits \<le> 256 \<and>
    twos_range (unat bits) (su_int u) \<and> twos_pattern (unat bits) (su_int u) w"
proof (cases "1 \<le> unat bits \<and> unat bits \<le> 256")
  case False
  then show ?thesis by (auto simp: to_twos_def unat_bits)
next
  case True
  define n where "n = unat bits"
  define L where "L = (2 :: int) ^ (n - 1)"
  have n: "1 \<le> n" "n \<le> 256" and L: "0 < L" "2 ^ n = 2 * L"
    using True by (simp_all add: n_def L_def pow_pred)
  have L256: "L < 2 ^ 256" unfolding L_def using n by (intro power_strict_increasing) auto
  show ?thesis
  proof (cases "checked_cast (su_magnitude u) :: u256 option")
    case None
    then have "int (2 ^ LENGTH(256)) \<le> int (unat (su_magnitude u))"
      by (simp only: checked_cast_None of_nat_le_iff)
    then have "2 ^ 256 \<le> int (unat (su_magnitude u))" by simp
    then have "\<not> twos_range n (su_int u)"
      unfolding twos_range_def L_def [symmetric] su_int_def using L(1) L256 by (simp only: split: if_splits) linarith
    then show ?thesis using None True by (simp add: to_twos_def unat_bits n_def)
  next
    case (Some m)
    then have m: "int (unat m) = int (unat (su_magnitude u))" by (simp add: checked_cast_Some)
    have lim: "int (unat (push_bit (n - 1) 1 :: u256)) = L"
      unfolding L_def using n by (intro unat_limit) simp
    have cmp: "push_bit (n - 1) 1 < m \<longleftrightarrow> L < int (unat m)" "m = push_bit (n - 1) 1 \<longleftrightarrow> int (unat m) = L"
      using lim by (auto simp: word_less_nat_alt word_unat_eq_iff)
    have run: "to_twos u bits = (if L < int (unat m) \<or> \<not> su_negative u \<and> int (unat m) = L then Err EncBounds
        else if su_negative u then Ok (take_bit n (NOT m + 1)) else Ok m)"
      using True unfolding to_twos_def unat_bits mask_value_eq Some ok_or_simps rbind_Inr Let_def n_def [symmetric] cmp
      by simp
    have rng: "twos_range n v \<longleftrightarrow> - L \<le> v \<and> v < L" for v by (simp only: twos_range_def L_def)
    show ?thesis
    proof (cases "su_negative u")
      case neg: True
      then have v: "su_int u = - int (unat m)" "0 < int (unat m)"
        using assms m by (auto simp: su_int_def wf_signed_def unat_gt_0)
      have "take_bit n (NOT m + 1) = w \<longleftrightarrow> int (unat w) = (- int (unat m)) mod 2 ^ n"
        using unat_negate [OF n(2), of m] by (auto simp: word_unat_eq_iff)
      then show ?thesis
        using run True neg v L(1) by (auto simp: rng twos_pattern_def simp flip: n_def)
    next
      case pos: False
      then have v: "su_int u = int (unat m)" using m by (simp add: su_int_def)
      have "int (unat m) < L \<Longrightarrow> int (unat m) mod 2 ^ n = int (unat m)"
        using L by (intro mod_pos_pos_trivial) auto
      then show ?thesis
        using run True pos v L(1)
        by (auto simp: rng twos_pattern_def word_unat_eq_iff simp flip: n_def)
    qed
  qed
qed

lemma from_twos_Ok:
  "from_twos w bits = Ok u \<longleftrightarrow> wf_signed u \<and> 1 \<le> unat bits \<and> unat bits \<le> 256 \<and>
    twos_range (unat bits) (su_int u) \<and> twos_pattern (unat bits) (su_int u) w"
proof (cases "1 \<le> unat bits \<and> unat bits \<le> 256")
  case False
  then show ?thesis by (auto simp: from_twos_def unat_bits)
next
  case True
  define n where "n = unat bits"
  define L where "L = (2 :: int) ^ (n - 1)"
  define W where "W = int (unat w)"
  have n: "1 \<le> n" "n \<le> 256" and L: "0 < L" "2 ^ n = 2 * L"
    using True by (simp_all add: n_def L_def pow_pred)
  have arith: "twos_range n (su_int u) \<and> twos_pattern n (su_int u) w \<longleftrightarrow>
      W < 2 * L \<and> su_int u = (if L \<le> W then W - 2 * L else W)"
    unfolding twos_range_def twos_pattern_def L_def [symmetric] L(2) W_def [symmetric]
    using twos_arith [OF L(1), of "su_int u" W] by (simp add: W_def)
  have fits: "take_bit n w = w \<longleftrightarrow> W < 2 * L"
  proof -
    have "take_bit n w = w \<longleftrightarrow> W mod (2 * L) = W"
      using unat_take_bit [of n w] L(2) by (auto simp: word_unat_eq_iff W_def)
    also have "\<dots> \<longleftrightarrow> W < 2 * L"
    proof
      assume "W mod (2 * L) = W"
      then show "W < 2 * L" using L(1) pos_mod_bound [of "2 * L" W] by linarith
    qed (simp add: W_def)
    finally show ?thesis .
  qed
  show ?thesis
  proof (cases "W < 2 * L")
    case False
    then show ?thesis
      using True arith fits by (auto simp: from_twos_def unat_bits mask_value_eq simp flip: n_def)
  next
    case small: True
    have high: "bit w (n - 1) \<longleftrightarrow> L \<le> W" using bit_high [of n w] n small L by (simp add: W_def L_def)
    define m where "m = (if L \<le> W then take_bit n (NOT w + 1) else w)"
    have "(- W) mod (2 * L) = 2 * L - W" if "L \<le> W"
    proof -
      have "(- W) mod (2 * L) = (- W + 2 * L) mod (2 * L)" by (rule mod_add_self2 [symmetric])
      also have "\<dots> = - W + 2 * L" using that small L(1) by (intro mod_pos_pos_trivial) auto
      finally show ?thesis by simp
    qed
    then have mv: "int (unat (ucast m :: u512)) = (if L \<le> W then 2 * L - W else W)"
      using unat_negate [OF n(2), of w] L(2) by (simp add: m_def W_def unat_ucast_up)
    have run: "from_twos w bits = map_err (\<lambda>_. EncBounds) (signed_units_new (L \<le> W) (ucast m))"
      using True small fits high unfolding from_twos_def unat_bits mask_value_eq n_def [symmetric] Let_def
      by (simp add: m_def)
    have "from_twos w bits = Ok u \<longleftrightarrow> wf_signed u \<and> su_magnitude u = ucast m \<and> su_int u = (if L \<le> W then W - 2 * L else W)"
      unfolding run map_err_eq signed_units_new_Ok mv by auto
    moreover have "su_magnitude u = ucast m" if "su_int u = (if L \<le> W then W - 2 * L else W)" "wf_signed u"
    proof -
      have "int (unat (su_magnitude u)) = \<bar>su_int u\<bar>" by (simp add: su_int_def)
      also have "\<dots> = int (unat (ucast m :: u512))" using that small L(1) mv by (auto simp: W_def)
      finally show ?thesis by (simp add: word_unat_eq_iff)
    qed
    ultimately show ?thesis using arith small True by (auto simp flip: n_def)
  qed
qed

definition twos_valid :: "u16 \<Rightarrow> signed_units \<Rightarrow> bool" where
  "twos_valid bits u \<longleftrightarrow> wf_signed u \<and> 1 \<le> unat bits \<and> unat bits \<le> 256 \<and> twos_range (unat bits) (su_int u)"

lemma pattern_exists:
  assumes "n \<le> 256"
  shows "\<exists>w. twos_pattern n v w"
proof -
  have "int (unat (take_bit n (word_of_int v :: u256))) = v mod 2 ^ n"
  proof -
    have "v mod 2 ^ 256 mod 2 ^ n = v mod 2 ^ n" using assms by (intro mod_mod_cancel le_imp_power_dvd)
    moreover have "int (unat (word_of_int v :: u256)) = v mod 2 ^ 256" by (simp only: of_nat_unat uint_word_of_int) simp
    ultimately show ?thesis by (simp only: unat_take_bit)
  qed
  then show ?thesis unfolding twos_pattern_def by blast
qed

interpretation twos: partial_codec "twos_valid bits" "\<lambda>u. the (result_ok (to_twos u bits))" "\<lambda>w. from_twos w bits" for bits
proof
  fix u
  assume v: "twos_valid bits u"
  then obtain w where w: "twos_pattern (unat bits) (su_int u) w"
    using pattern_exists by (auto simp: twos_valid_def)
  then have "to_twos u bits = Ok w" using v by (simp add: to_twos_Ok twos_valid_def)
  then show "from_twos (the (result_ok (to_twos u bits))) bits = Ok u"
    using v w by (simp add: from_twos_Ok twos_valid_def)
next
  fix w u
  assume f: "from_twos w bits = Ok u"
  then have "to_twos u bits = Ok w" by (simp add: from_twos_Ok to_twos_Ok)
  then show "twos_valid bits u \<and> the (result_ok (to_twos u bits)) = w"
    using f by (simp add: from_twos_Ok twos_valid_def)
qed

text \<open>
  C30: at every width from 1 to 256 bits the two's complement conversions are inverse: reading a
  pattern gives a value exactly when writing that value gives the pattern, the accepted values are
  those of the signed range, and the pattern is the value modulo two to the width.
\<close>

theorem twos_exact:
  assumes "wf_signed u"
  shows "(from_twos w bits = Ok u \<longleftrightarrow> to_twos u bits = Ok w) \<and>
    (to_twos u bits = Ok w \<longleftrightarrow> unat bits \<in> {1..256} \<and>
       - (2 ^ (unat bits - 1)) \<le> su_int u \<and> su_int u < 2 ^ (unat bits - 1) \<and>
       int (unat w) = su_int u mod 2 ^ unat bits)"
  using assms by (auto simp: from_twos_Ok to_twos_Ok twos_range_def twos_pattern_def)

theorem twos_exact_witness:
  "(from_twos 255 8 = Ok \<lparr>su_negative = True, su_magnitude = 1\<rparr> \<longleftrightarrow>
      to_twos \<lparr>su_negative = True, su_magnitude = 1\<rparr> 8 = Ok 255) \<and>
   to_twos \<lparr>su_negative = True, su_magnitude = 1\<rparr> 8 = Ok 255"
proof -
  have wf: "wf_signed \<lparr>su_negative = True, su_magnitude = 1\<rparr>"
    by (simp add: wf_signed_def su_int_def SIGNED_BOUND_def)
  show ?thesis
    using twos_exact [OF wf, of 255 8] by (simp add: su_int_def)
qed

section \<open>Integer text\<close>

definition radix_digit :: "nat \<Rightarrow> u8 \<Rightarrow> bool" where
  "radix_digit r b \<longleftrightarrow> (case hex_nibble b of None \<Rightarrow> False | Some d \<Rightarrow> unat d < r)"

definition radix_value :: "nat \<Rightarrow> bytes \<Rightarrow> nat" where
  "radix_value r ds = foldl (\<lambda>a b. a * r + unat (the (hex_nibble b))) 0 ds"

lemma foldl_radix_start:
  "foldl (\<lambda>a b. a * r + unat (the (hex_nibble b))) s ds = s * r ^ length ds + radix_value r ds"
proof (induction ds arbitrary: s)
  case (Cons b ds)
  show ?case
    using Cons [of "s * r + unat (the (hex_nibble b))"] Cons [of "unat (the (hex_nibble b))"]
    by (simp add: radix_value_def algebra_simps)
qed (simp add: radix_value_def)

lemma radix_value_append: "radix_value r (xs @ ys) = radix_value r xs * r ^ length ys + radix_value r ys"
  using foldl_radix_start [of r "radix_value r xs" ys] by (simp add: radix_value_def)

lemma radix_value_Nil [simp]: "radix_value r [] = 0"
  by (simp add: radix_value_def)

lemma radix_value_single [simp]: "radix_value r [b] = unat (the (hex_nibble b))"
  by (simp add: radix_value_def)

lemma radix_value_Cons: "radix_value r (b # bs) = unat (the (hex_nibble b)) * r ^ length bs + radix_value r bs"
  using radix_value_append [of r "[b]" bs] by simp

lemma push_digits_Ok:
  assumes "unat radix = r"
  shows "push_digits radix m ds = Ok v \<longleftrightarrow>
    list_all (radix_digit r) ds \<and> unat v = unat m * r ^ length ds + radix_value r ds"
proof (induction ds arbitrary: m)
  case Nil
  then show ?case by (auto simp: word_unat_eq_iff)
next
  case (Cons b bs)
  show ?case
  proof (cases "hex_nibble b")
    case None
    then show ?thesis by (simp add: radix_digit_def)
  next
    case (Some d)
    have le: "radix \<le> ucast d \<longleftrightarrow> r \<le> unat d"
      using assms by (simp add: word_le_nat_alt unat_ucast_up)
    show ?thesis
    proof (cases "r \<le> unat d")
      case True
      then show ?thesis using Some le by (simp add: radix_digit_def)
    next
      case False
      have run: "push_digits radix m (b # bs) = Ok v \<longleftrightarrow>
          (\<exists>m' :: u512. unat m' = unat m * r + unat d \<and> list_all (radix_digit r) bs \<and>
             unat v = unat m' * r ^ length bs + radix_value r bs)"
        using Some le False assms Cons.IH by (simp add: result_simps push_digit_Some unat_ucast_up)
      have val: "unat m * r ^ length (b # bs) + radix_value r (b # bs) =
          (unat m * r + unat d) * r ^ length bs + radix_value r bs"
        using Some by (simp add: radix_value_Cons algebra_simps)
      have "\<exists>m' :: u512. unat m' = unat m * r + unat d" if "unat v = (unat m * r + unat d) * r ^ length bs + radix_value r bs"
      proof -
        have "0 < r" using False by simp
        then have "(unat m * r + unat d) * 1 \<le> (unat m * r + unat d) * r ^ length bs" by (intro mult_le_mono2) simp
        then have "unat m * r + unat d \<le> unat v"
          unfolding that mult_1_right by (rule trans_le_add1)
        then have "unat m * r + unat d < 2 ^ LENGTH(512)" using unsigned_less [of v, where ?'a = nat] by (rule le_less_trans)
        then show ?thesis using unat_of_nat_small by blast
      qed
      moreover have "radix_digit r b" using Some False by (simp add: radix_digit_def)
      ultimately show ?thesis unfolding run val list.pred_inject by metis
    qed
  qed
qed

text \<open>The grammar and the value of an integer text.\<close>

definition integer_syntax :: "bytes \<Rightarrow> bool" where
  "integer_syntax s \<longleftrightarrow> (case split_radix (snd (split_sign s)) of (r, ds) \<Rightarrow> ds \<noteq> [] \<and> list_all (radix_digit (unat r)) ds)"

definition integer_value :: "bytes \<Rightarrow> int" where
  "integer_value s = (case split_radix (snd (split_sign s)) of (r, ds) \<Rightarrow>
     (if fst (split_sign s) then - int (radix_value (unat r) ds) else int (radix_value (unat r) ds)))"

lemma parse_integer_Ok:
  "parse_integer s = Ok u \<longleftrightarrow>
     length s \<le> MAX_INTEGER_TEXT \<and> integer_syntax s \<and> wf_signed u \<and> su_int u = integer_value s"
proof -
  obtain neg body where sg: "split_sign s = (neg, body)" by fastforce
  obtain r ds where rd: "split_radix body = (r, ds)" by fastforce
  let ?v = "radix_value (unat r) ds"
  have *: "parse_integer s = Ok u \<longleftrightarrow> length s \<le> MAX_INTEGER_TEXT \<and> ds \<noteq> [] \<and> list_all (radix_digit (unat r)) ds \<and>
      (\<exists>m. unat m = ?v \<and> wf_signed u \<and> su_magnitude u = m \<and> su_int u = (if neg then - int (unat m) else int (unat m)))"
    using sg rd by (auto simp: parse_integer_def result_simps push_digits_Ok [OF refl] signed_units_new_Ok not_less)
  have "unat (su_magnitude u) = ?v" if "su_int u = (if neg then - int ?v else int ?v)"
    using that by (auto simp: su_int_def split: if_splits)
  then show ?thesis unfolding * integer_syntax_def integer_value_def using sg rd by auto
qed

lemma hex_number_value:
  "radix_value 16 (hex_number n) = n \<and> list_all (radix_digit 16) (hex_number n) \<and> hex_number n \<noteq> []"
proof (induction n rule: hex_number.induct)
  case (1 n)
  have d: "hex_nibble (HEX ! k) = Some (word_of_nat k) \<and> unat (word_of_nat k :: u8) = k" if "k < 16" for k
  proof -
    have "unat (word_of_nat k :: u8) = k" using that by (intro unat_of_nat_small) simp
    then show ?thesis using HEX_nibble [of "word_of_nat k"] that by simp
  qed
  show ?case
  proof (cases "n < 16")
    case True
    then show ?thesis using d [of n] by (subst (1 2 3) hex_number.simps) (simp add: radix_digit_def)
  next
    case False
    moreover have "radix_digit 16 (HEX ! (n mod 16))" using d [of "n mod 16"] by (simp add: radix_digit_def)
    ultimately show ?thesis
      using 1 d [of "n mod 16"] by (subst (1 2 3) hex_number.simps) (simp add: radix_value_append)
  qed
qed

lemma length_hex_number: "n < 16 ^ Suc k \<Longrightarrow> length (hex_number n) \<le> Suc k"
proof (induction k arbitrary: n)
  case 0
  then show ?case by (subst hex_number.simps) simp
next
  case (Suc k)
  then have "n div 16 < 16 ^ Suc k" by (simp add: less_mult_imp_div_less)
  then show ?case using Suc.IH [of "n div 16"] by (subst hex_number.simps) simp
qed


lemma prefixed_hex:
  assumes "s = as_bytes ''0x'' @ ds" and "list_all (radix_digit 16) ds" and "ds \<noteq> []" and "length ds \<le> 1000"
    and "radix_value 16 ds = unat (v :: u256)"
  shows "parse_uint s = Ok v"
proof -
  let ?u = "\<lparr>su_negative = False, su_magnitude = ucast v\<rparr> :: signed_units"
  have sg: "split_sign s = (False, s)" "split_radix s = (16, ds)"
    by (simp_all add: assms(1) split_sign_def split_radix_def strip_prefix_def as_bytes_def char_byte_def)
  have "parse_integer s = Ok ?u"
    using assms sg unsigned_units_wf [of v]
    by (simp add: parse_integer_Ok integer_syntax_def integer_value_def MAX_INTEGER_TEXT_def su_int_def unat_ucast_up)
  moreover have "checked_cast (ucast v :: u512) = Some v" by (simp add: checked_simps unat_ucast_up)
  ultimately show ?thesis by (simp add: parse_uint_def try_u256_def)
qed

text \<open>
  The JSON-RPC quantity of a 256-bit number reads back as that number, for every number.
\<close>

theorem quantity_roundtrip: "parse_uint (uint_to_quantity v) = Ok v"
proof -
  have "unat v < 16 ^ Suc 63" using unsigned_less [of v, where ?'a = nat] by simp
  then have "length (hex_number (unat v)) \<le> 1000" using length_hex_number [of "unat v" 63] by simp
  then show ?thesis
    using hex_number_value [of "unat v"] by (intro prefixed_hex [OF uint_to_quantity_def]) simp_all
qed

end
