(* ===== verification/Fixed_Point.thy ===== *)
theory Fixed_Point
  imports Encoding
begin

text \<open>
  Fixed-point decimals, \<open>quai-primitives/src/fixed.rs\<close>: formats and their text, the rounding
  policies, checked and wrapping arithmetic, comparison across formats, and the byte form. The
  lossy \<open>f64\<close> presentation is left out. A failed \<open>expect\<close> is the value \<open>None\<close>.
\<close>

section \<open>Source definitions\<close>

record fixed_format =
  ff_signed :: bool
  ff_width :: u16
  ff_unit :: amount_unit

datatype fixed_error =
    FixFormat
  | FixFormatMismatch
  | FixOverflow
  | FixPrecisionLoss
  | FixDivisionByZero
  | FixAmount amount_error

datatype rounding = RoundExact | TowardZero | RoundFloor | RoundCeiling | NearestTiesEven | NearestTiesPositive

definition fixed_format_new :: "bool \<Rightarrow> u16 \<Rightarrow> u8 \<Rightarrow> (fixed_format, fixed_error) result" where
  "fixed_format_new is_signed width decimals =
     (if \<not> (8 \<le> width \<and> width \<le> 256) \<or> width mod 8 \<noteq> 0 then Err FixFormat
      else rbind (map_err (\<lambda>_. FixFormat) (unit_new decimals))
        (\<lambda>unit. Ok \<lparr>ff_signed = is_signed, ff_width = width, ff_unit = unit\<rparr>))"

definition fixed_format_default :: fixed_format where
  "fixed_format_default = \<lparr>ff_signed = True, ff_width = 128, ff_unit = UNIT_QUAI\<rparr>"

definition fixed_format_display :: "fixed_format \<Rightarrow> bytes" where
  "fixed_format_display f =
     (if ff_signed f then [] else as_bytes ''u'') @ as_bytes ''fixed'' @ dec_digits (unat (ff_width f)) @
     as_bytes ''x'' @ dec_digits (unat (unit_decimals (ff_unit f)))"

text \<open>\<open>str::parse\<close> at an unsigned type, for a text of ASCII digits.\<close>

definition parse_decimal :: "bytes \<Rightarrow> 'a::len word option" where
  "parse_decimal ds =
     (let n = foldl (\<lambda>a d. a * 10 + (unat d - 48)) 0 ds
      in if n < 2 ^ LENGTH('a) then Some (word_of_nat n) else None)"

definition fixed_format_from_str :: "bytes \<Rightarrow> (fixed_format, fixed_error) result" where
  "fixed_format_from_str s =
     (if 32 < length s then Err FixFormat
      else rbind (case strip_prefix (as_bytes ''ufixed'') s of
            Some rest \<Rightarrow> Ok (False, rest)
          | None \<Rightarrow> rbind (ok_or (strip_prefix (as_bytes ''fixed'') s) FixFormat) (\<lambda>rest. Ok (True, rest)))
        (\<lambda>(is_signed, rest).
          if rest = [] then fixed_format_new is_signed 128 18
          else rbind (ok_or (split_once 120 rest) FixFormat) (\<lambda>(width, decimals).
            if width = [] \<or> decimals = [] \<or> \<not> list_all is_ascii_digit (width @ decimals) then Err FixFormat
            else rbind (ok_or (parse_decimal width) FixFormat) (\<lambda>w.
              rbind (ok_or (parse_decimal decimals) FixFormat) (\<lambda>d. fixed_format_new is_signed w d)))))"

record fixed_point =
  fp_units :: signed_units
  fp_format :: fixed_format

definition tens :: "u8 \<Rightarrow> u1024" where
  "tens decimals = foldl (\<lambda>v _. v * 10) 1 [0..<unat decimals]"

definition rounded :: "u1024 \<Rightarrow> u1024 \<Rightarrow> bool \<Rightarrow> rounding \<Rightarrow> (u1024, fixed_error) result" where
  "rounded value denominator negative r =
     (if denominator = 0 then Err FixDivisionByZero
      else
        let quotient = value div denominator; remainder = value mod denominator
        in if remainder = 0 then Ok quotient
           else rbind
             (case r of
                RoundExact \<Rightarrow> Err FixPrecisionLoss
              | TowardZero \<Rightarrow> Ok False
              | RoundFloor \<Rightarrow> Ok negative
              | RoundCeiling \<Rightarrow> Ok (\<not> negative)
              | NearestTiesEven \<Rightarrow>
                  Ok (if denominator - remainder < remainder then True
                      else if remainder < denominator - remainder then False
                      else bit quotient 0)
              | NearestTiesPositive \<Rightarrow>
                  Ok (if denominator - remainder < remainder then True
                      else if remainder < denominator - remainder then False
                      else \<not> negative))
             (\<lambda>increment. ok_or (checked_add quotient (of_bool increment)) FixOverflow))"

definition fixed_parts :: "bool \<Rightarrow> u1024 \<Rightarrow> fixed_format \<Rightarrow> (fixed_point, fixed_error) result" where
  "fixed_parts negative magnitude f =
     (let limit = push_bit (unat (ff_width f - of_bool (ff_signed f))) 1
      in if \<not> ff_signed f \<and> negative \<and> magnitude \<noteq> 0 \<or> limit < magnitude \<or>
            magnitude = limit \<and> \<not> (ff_signed f \<and> negative)
         then Err FixOverflow
         else rbind (ok_or (checked_cast magnitude) FixOverflow) (\<lambda>m.
           rbind (map_err (\<lambda>_. FixOverflow) (signed_units_new negative m))
             (\<lambda>units. Ok \<lparr>fp_units = units, fp_format = f\<rparr>)))"

definition fixed_magnitude :: "fixed_point \<Rightarrow> u1024" where
  "fixed_magnitude p = ucast (su_magnitude (fp_units p))"

definition fixed_parse :: "bytes \<Rightarrow> fixed_format \<Rightarrow> (fixed_point, fixed_error) result" where
  "fixed_parse s f =
     rbind (map_err FixAmount (parse_signed_units s (ff_unit f)))
       (\<lambda>units. fixed_parts (su_negative units) (ucast (su_magnitude units)) f)"

definition from_scaled_units :: "signed_units \<Rightarrow> amount_unit \<Rightarrow> fixed_format \<Rightarrow> (fixed_point, fixed_error) result" where
  "from_scaled_units units source f =
     rbind (ok_or (checked_mul (ucast (su_magnitude units)) (tens (unit_decimals (ff_unit f)))) FixOverflow)
       (\<lambda>numerator. rbind (rounded numerator (tens (unit_decimals source)) (su_negative units) RoundExact)
         (\<lambda>magnitude. fixed_parts (su_negative units) magnitude f))"

definition fixed_from_bytes :: "bytes \<Rightarrow> fixed_format \<Rightarrow> (fixed_point, fixed_error) result" where
  "fixed_from_bytes bs f =
     (if 32 < length bs then Err FixOverflow
      else
        let bs = strip_zeros_left bs
        in if unat (ff_width f div 8) < length bs then Err FixOverflow
           else
             let value = word_of_nat (be_nat bs)
             in rbind (if ff_signed f then map_err (\<lambda>_. FixOverflow) (from_twos value (ff_width f))
                       else map_err (\<lambda>_. FixOverflow) (signed_units_new False (ucast value)))
                  (\<lambda>units. fixed_parts (su_negative units) (ucast (su_magnitude units)) f))"

definition fixed_is_zero :: "fixed_point \<Rightarrow> bool" where
  "fixed_is_zero p \<longleftrightarrow> su_magnitude (fp_units p) = 0"

abbreviation fixed_negative :: "fixed_point \<Rightarrow> bool" where
  "fixed_negative p \<equiv> su_negative (fp_units p)"

definition fixed_to_bytes :: "fixed_point \<Rightarrow> bytes option" where
  "fixed_to_bytes p =
     Option.bind
       (if ff_signed (fp_format p) then result_ok (to_twos (fp_units p) (ff_width (fp_format p)))
        else result_ok (try_u256 (fp_units p)))
       (\<lambda>value. Some (drop (32 - unat (ff_width (fp_format p) div 8)) (to_be 32 (unat value))))"

definition fixed_same :: "fixed_point \<Rightarrow> fixed_point \<Rightarrow> (unit, fixed_error) result" where
  "fixed_same a b = (if fp_format a \<noteq> fp_format b then Err FixFormatMismatch else Ok ())"

definition sum_parts :: "fixed_point \<Rightarrow> bool \<Rightarrow> u1024 \<Rightarrow> (bool \<times> u1024, fixed_error) result" where
  "sum_parts p negative magnitude =
     (let own = fixed_magnitude p
      in if fixed_negative p = negative
         then rbind (ok_or (checked_add own magnitude) FixOverflow) (\<lambda>r. Ok (negative, r))
         else if magnitude \<le> own then Ok (fixed_negative p, own - magnitude)
         else Ok (negative, magnitude - own))"

definition add_parts :: "fixed_point \<Rightarrow> bool \<Rightarrow> u1024 \<Rightarrow> (fixed_point, fixed_error) result" where
  "add_parts p negative magnitude =
     rbind (sum_parts p negative magnitude) (\<lambda>(sign, r). fixed_parts sign r (fp_format p))"

definition wrapping_parts :: "bool \<Rightarrow> u1024 \<Rightarrow> fixed_format \<Rightarrow> (fixed_point, fixed_error) result" where
  "wrapping_parts negative magnitude f =
     (let modulus = push_bit (unat (ff_width f)) 1;
          residue = magnitude AND (modulus - 1);
          residue = (if negative \<and> residue \<noteq> 0 then modulus - residue else residue)
      in if ff_signed f \<and> bit residue (unat (ff_width f - 1)) then fixed_parts True (modulus - residue) f
         else fixed_parts False residue f)"

definition wrapping_add :: "fixed_point \<Rightarrow> fixed_point \<Rightarrow> (fixed_point, fixed_error) result" where
  "wrapping_add a b =
     rbind (fixed_same a b) (\<lambda>_. rbind (sum_parts a (fixed_negative b) (fixed_magnitude b))
       (\<lambda>(negative, value). wrapping_parts negative value (fp_format a)))"

definition wrapping_sub :: "fixed_point \<Rightarrow> fixed_point \<Rightarrow> (fixed_point, fixed_error) result" where
  "wrapping_sub a b =
     rbind (fixed_same a b) (\<lambda>_. rbind (sum_parts a (\<not> fixed_negative b) (fixed_magnitude b))
       (\<lambda>(negative, value). wrapping_parts negative value (fp_format a)))"

definition wrapping_mul :: "fixed_point \<Rightarrow> fixed_point \<Rightarrow> (fixed_point, fixed_error) result" where
  "wrapping_mul a b =
     rbind (fixed_same a b) (\<lambda>_.
       rbind (ok_or (checked_mul (fixed_magnitude a) (fixed_magnitude b)) FixOverflow) (\<lambda>product.
         wrapping_parts (fixed_negative a \<noteq> fixed_negative b)
           (product div tens (unit_decimals (ff_unit (fp_format a)))) (fp_format a)))"

definition wrapping_div :: "fixed_point \<Rightarrow> fixed_point \<Rightarrow> (fixed_point, fixed_error) result" where
  "wrapping_div a b =
     rbind (fixed_same a b) (\<lambda>_.
       if fixed_is_zero b then Err FixDivisionByZero
       else rbind (ok_or (checked_mul (fixed_magnitude a) (tens (unit_decimals (ff_unit (fp_format a))))) FixOverflow)
         (\<lambda>numerator. wrapping_parts (fixed_negative a \<noteq> fixed_negative b)
           (numerator div fixed_magnitude b) (fp_format a)))"

definition fixed_checked_add :: "fixed_point \<Rightarrow> fixed_point \<Rightarrow> (fixed_point, fixed_error) result" where
  "fixed_checked_add a b = rbind (fixed_same a b) (\<lambda>_. add_parts a (fixed_negative b) (fixed_magnitude b))"

definition fixed_checked_sub :: "fixed_point \<Rightarrow> fixed_point \<Rightarrow> (fixed_point, fixed_error) result" where
  "fixed_checked_sub a b = rbind (fixed_same a b) (\<lambda>_. add_parts a (\<not> fixed_negative b) (fixed_magnitude b))"

definition fixed_checked_mul :: "fixed_point \<Rightarrow> fixed_point \<Rightarrow> rounding \<Rightarrow> (fixed_point, fixed_error) result" where
  "fixed_checked_mul a b r =
     rbind (fixed_same a b) (\<lambda>_.
       let negative = (fixed_negative a \<noteq> fixed_negative b)
       in rbind (ok_or (checked_mul (fixed_magnitude a) (fixed_magnitude b)) FixOverflow) (\<lambda>product.
            rbind (rounded product (tens (unit_decimals (ff_unit (fp_format a)))) negative r)
              (\<lambda>m. fixed_parts negative m (fp_format a))))"

definition fixed_checked_div :: "fixed_point \<Rightarrow> fixed_point \<Rightarrow> rounding \<Rightarrow> (fixed_point, fixed_error) result" where
  "fixed_checked_div a b r =
     rbind (fixed_same a b) (\<lambda>_.
       let negative = (fixed_negative a \<noteq> fixed_negative b)
       in rbind (ok_or (checked_mul (fixed_magnitude a) (tens (unit_decimals (ff_unit (fp_format a))))) FixOverflow)
            (\<lambda>numerator. rbind (rounded numerator (fixed_magnitude b) negative r)
              (\<lambda>m. fixed_parts negative m (fp_format a))))"

definition with_format :: "fixed_point \<Rightarrow> fixed_format \<Rightarrow> rounding \<Rightarrow> (fixed_point, fixed_error) result" where
  "with_format p f r =
     rbind (ok_or (checked_mul (fixed_magnitude p) (tens (unit_decimals (ff_unit f)))) FixOverflow) (\<lambda>numerator.
       rbind (rounded numerator (tens (unit_decimals (ff_unit (fp_format p)))) (fixed_negative p) r)
         (\<lambda>magnitude. fixed_parts (fixed_negative p) magnitude f))"

definition fixed_round :: "fixed_point \<Rightarrow> u8 \<Rightarrow> rounding \<Rightarrow> (fixed_point, fixed_error) result" where
  "fixed_round p decimals r =
     (if 80 < decimals then Err FixFormat
      else if unit_decimals (ff_unit (fp_format p)) \<le> decimals then Ok p
      else
        let factor = tens (unit_decimals (ff_unit (fp_format p)) - decimals)
        in rbind (rounded (fixed_magnitude p) factor (fixed_negative p) r) (\<lambda>q.
             rbind (ok_or (checked_mul q factor) FixOverflow)
               (\<lambda>magnitude. fixed_parts (fixed_negative p) magnitude (fp_format p))))"

definition fixed_floor :: "fixed_point \<Rightarrow> (fixed_point, fixed_error) result" where
  "fixed_floor p = fixed_round p 0 RoundFloor"

definition fixed_ceiling :: "fixed_point \<Rightarrow> (fixed_point, fixed_error) result" where
  "fixed_ceiling p = fixed_round p 0 RoundCeiling"

datatype ordering = Less | Equal | Greater

definition word_cmp :: "'a::len word \<Rightarrow> 'a word \<Rightarrow> ordering" where
  "word_cmp a b = (if a < b then Less else if a = b then Equal else Greater)"

definition fixed_compare :: "fixed_point \<Rightarrow> fixed_point \<Rightarrow> ordering" where
  "fixed_compare p q =
     (if fixed_negative p \<noteq> fixed_negative q then (if fixed_negative p then Less else Greater)
      else
        let a = fixed_magnitude p * tens (unit_decimals (ff_unit (fp_format q)));
            b = fixed_magnitude q * tens (unit_decimals (ff_unit (fp_format p)))
        in if fixed_negative p then word_cmp b a else word_cmp a b)"

definition to_chain_units :: "fixed_point \<Rightarrow> amount_unit \<Rightarrow> (u256, fixed_error) result" where
  "to_chain_units p unit =
     rbind (fixed_format_new False 256 (unit_decimals unit)) (\<lambda>f.
       rbind (with_format p f RoundExact) (\<lambda>q. map_err FixAmount (try_u256 (fp_units q))))"

definition fixed_display :: "fixed_point \<Rightarrow> bytes" where
  "fixed_display p = signed_units_format (fp_units p) (ff_unit (fp_format p))"

definition fixed_eq :: "fixed_point \<Rightarrow> fixed_point \<Rightarrow> bool" where
  "fixed_eq a b \<longleftrightarrow> fixed_compare a b = Equal"

section \<open>Values and ranges\<close>

abbreviation sgn_int :: "bool \<Rightarrow> nat \<Rightarrow> int" where
  "sgn_int negative m \<equiv> (if negative then - int m else int m)"

definition fp_int :: "fixed_point \<Rightarrow> int" where
  "fp_int p = su_int (fp_units p)"

definition wf_format :: "fixed_format \<Rightarrow> bool" where
  "wf_format f \<longleftrightarrow> 8 \<le> unat (ff_width f) \<and> unat (ff_width f) \<le> 256 \<and> 8 dvd unat (ff_width f) \<and>
     unat (unit_decimals (ff_unit f)) \<le> 80"

abbreviation fwidth :: "fixed_format \<Rightarrow> nat" where
  "fwidth f \<equiv> unat (ff_width f)"

abbreviation fscale :: "fixed_format \<Rightarrow> nat" where
  "fscale f \<equiv> unat (unit_decimals (ff_unit f))"

definition in_field :: "fixed_format \<Rightarrow> int \<Rightarrow> bool" where
  "in_field f v \<longleftrightarrow> (if ff_signed f then - (2 ^ (fwidth f - 1)) \<le> v \<and> v < 2 ^ (fwidth f - 1)
     else 0 \<le> v \<and> v < 2 ^ fwidth f)"

definition wf_fixed :: "fixed_point \<Rightarrow> bool" where
  "wf_fixed p \<longleftrightarrow> wf_format (fp_format p) \<and> wf_signed (fp_units p) \<and> in_field (fp_format p) (fp_int p)"

text \<open>The value with given units, and the wrapped units of a field.\<close>

definition fp_of :: "fixed_format \<Rightarrow> int \<Rightarrow> fixed_point" where
  "fp_of f v = \<lparr>fp_units = \<lparr>su_negative = v < 0, su_magnitude = word_of_nat (nat \<bar>v\<bar>)\<rparr>, fp_format = f\<rparr>"

definition fp_checked :: "fixed_format \<Rightarrow> int \<Rightarrow> (fixed_point, fixed_error) result" where
  "fp_checked f v = (if in_field f v then Ok (fp_of f v) else Err FixOverflow)"

definition field_wrap :: "fixed_format \<Rightarrow> int \<Rightarrow> int" where
  "field_wrap f v = (if ff_signed f then (v + 2 ^ (fwidth f - 1)) mod 2 ^ fwidth f - 2 ^ (fwidth f - 1)
     else v mod 2 ^ fwidth f)"

definition round_int :: "rounding \<Rightarrow> int \<Rightarrow> int \<Rightarrow> int" where
  "round_int r x d =
     (case r of
        RoundExact \<Rightarrow> x div d
      | TowardZero \<Rightarrow> (if 0 \<le> x then x div d else - ((- x) div d))
      | RoundFloor \<Rightarrow> x div d
      | RoundCeiling \<Rightarrow> - ((- x) div d)
      | NearestTiesEven \<Rightarrow>
          (if 2 * (x mod d) < d \<or> 2 * (x mod d) = d \<and> even (x div d) then x div d else x div d + 1)
      | NearestTiesPositive \<Rightarrow> (2 * x + d) div (2 * d))"

section \<open>Scales and rounding\<close>

lemma tens_nat: "foldl (\<lambda>v _. v * 10) (1 :: u1024) [0..<k] = word_of_nat (10 ^ k)"
  by (induction k) (simp_all add: mult.commute)

lemma unat_tens [simp]: "unat (tens d) = 10 ^ unat d"
proof -
  have "unat d \<le> 255" using byte_lt [of d] by linarith
  then have "(10 :: nat) ^ unat d \<le> 10 ^ 255" by (intro power_increasing) simp_all
  also have "(10 :: nat) ^ 255 < 2 ^ LENGTH(1024)" by simp
  finally show ?thesis unfolding tens_def tens_nat by (rule unat_of_nat_small)
qed

lemma unat_fixed_magnitude [simp]: "unat (fixed_magnitude p) = unat (su_magnitude (fp_units p))"
  by (simp add: fixed_magnitude_def unat_ucast_up)

lemma frac_divs:
  fixes Q R D :: int
  assumes "0 < R" and "R < D"
  shows "(Q * D + R) div D = Q" "(Q * D + R) mod D = R"
    "(- (Q * D + R)) div D = - (Q + 1)" "(- (Q * D + R)) mod D = D - R"
proof -
  show "(Q * D + R) div D = Q" "(Q * D + R) mod D = R" using assms by simp_all
  show n: "(- (Q * D + R)) div D = - (Q + 1)"
    using assms by (intro int_div_pos_eq [where r = "D - R"]) (auto simp: algebra_simps)
  show "(- (Q * D + R)) mod D = D - R"
    unfolding minus_div_mult_eq_mod [symmetric] n by (simp add: algebra_simps)
qed

text \<open>Whether the magnitude grows by one, when a fraction is discarded.\<close>

definition round_up :: "rounding \<Rightarrow> bool \<Rightarrow> int \<Rightarrow> int \<Rightarrow> int \<Rightarrow> bool" where
  "round_up r neg Q R D =
     (case r of RoundExact \<Rightarrow> neg | TowardZero \<Rightarrow> False | RoundFloor \<Rightarrow> neg | RoundCeiling \<Rightarrow> \<not> neg
      | NearestTiesEven \<Rightarrow> D < 2 * R \<or> D = 2 * R \<and> odd Q
      | NearestTiesPositive \<Rightarrow> D < 2 * R \<or> D = 2 * R \<and> \<not> neg)"

lemma nearest_up:
  fixes Q R D :: int
  assumes "0 < R" and "R < D"
  shows "(2 * (Q * D + R) + D) div (2 * D) = (if D \<le> 2 * R then Q + 1 else Q)"
    "(2 * - (Q * D + R) + D) div (2 * D) = (if D < 2 * R then - (Q + 1) else - Q)"
proof -
  show "(2 * (Q * D + R) + D) div (2 * D) = (if D \<le> 2 * R then Q + 1 else Q)"
    by (cases "D \<le> 2 * R"; rule int_div_pos_eq [where r = "2 * R + D - (if D \<le> 2 * R then 2 * D else 0)"])
      (use assms in \<open>auto simp: algebra_simps\<close>)
  show "(2 * - (Q * D + R) + D) div (2 * D) = (if D < 2 * R then - (Q + 1) else - Q)"
    by (cases "D < 2 * R"; rule int_div_pos_eq [where r = "D - 2 * R + (if D < 2 * R then 2 * D else 0)"])
      (use assms in \<open>auto simp: algebra_simps\<close>)
qed

lemma round_int_frac:
  fixes Q R D :: int
  assumes "0 < R" and "R < D" and "0 \<le> Q"
  shows "round_int r (if neg then - (Q * D + R) else Q * D + R) D =
    (if neg then - (Q + of_bool (round_up r neg Q R D)) else Q + of_bool (round_up r neg Q R D))"
proof -
  have pos: "0 < Q * D + R" using assms by (simp add: add_nonneg_pos)
  note d = frac_divs [OF assms(1,2), of Q] nearest_up [OF assms(1,2), of Q]
  show ?thesis
    using pos assms d by (cases r; cases neg) (auto simp: round_int_def round_up_def)
qed

lemma round_int_whole: "0 < D \<Longrightarrow> round_int r (Q * D) D = Q"
proof -
  assume D: "0 < D"
  have "(2 * (Q * D) + D) div (2 * D) = Q"
    using D by (intro int_div_pos_eq [where r = D]) (auto simp: algebra_simps)
  then show ?thesis
    using D by (cases r) (auto simp: round_int_def div_minus_right simp flip: mult_minus_left)
qed

lemma rounded_frac:
  fixes m d :: u1024
  assumes "d \<noteq> 0" and "m mod d \<noteq> 0"
  defines "Q \<equiv> int (unat m div unat d)" and "R \<equiv> int (unat m mod unat d)" and "D \<equiv> int (unat d)"
  shows "if r = RoundExact then rounded m d neg r = Err FixPrecisionLoss
    else \<exists>q. rounded m d neg r = Ok q \<and> int (unat q) = Q + of_bool (round_up r neg Q R D)"
proof -
  define q where "q = m div d"
  define e where "e = m mod d"
  have D: "0 < unat d" using assms(1) by (simp add: unat_gt_0)
  have qe: "int (unat q) = Q" "int (unat e) = R"
    by (simp_all add: q_def e_def Q_def R_def unat_div unat_mod)
  have e: "0 < unat e" "unat e < unat d"
    using assms(2) unat_gt_0 [of e] D by (simp_all add: e_def unat_mod)
  have sub: "unat (d - e) = unat d - unat e" using e by (intro unat_sub_exact) (simp add: word_le_nat_alt)
  have cmp: "d - e < e \<longleftrightarrow> D < 2 * R" "e < d - e \<longleftrightarrow> 2 * R < D"
    unfolding word_less_nat_alt sub using qe(2) e by (auto simp: D_def)
  have half: "2 * unat q \<le> unat m"
  proof -
    have "unat q * 2 \<le> unat q * unat d" using e by (intro mult_le_mono2) simp
    also have "\<dots> \<le> unat m" by (simp add: q_def unat_div)
    finally show ?thesis by simp
  qed
  have add: "\<exists>v. checked_add q (of_bool b) = Some v \<and> int (unat v) = Q + of_bool b" for b
  proof -
    have "unat m < 2 ^ LENGTH(1024)" by (rule unsigned_less)
    moreover have "unat q + unat (of_bool b :: u1024) \<le> unat m"
    proof -
      have "0 < unat m" using e(1) unfolding e_def unat_mod by (rule less_le_trans) (rule mod_less_eq_dividend)
      then show ?thesis using half by (cases b) auto
    qed
    ultimately have "unat q + unat (of_bool b :: u1024) < 2 ^ LENGTH(1024)" by (rule le_less_trans [rotated])
    then have "checked_add q (of_bool b) = Some (q + of_bool b)" by (simp only: checked_add_def if_True)
    moreover from this have "unat (q + of_bool b) = unat q + unat (of_bool b :: u1024)" by (simp only: checked_add_Some)
    moreover have "unat (of_bool b :: u1024) = of_bool b" by (cases b) simp_all
    ultimately show ?thesis using qe(1) by simp
  qed
  have odd: "bit q 0 \<longleftrightarrow> odd Q"
  proof -
    have "bit q 0 \<longleftrightarrow> bit (unat q) 0" by (simp add: bit_unsigned_iff del: bit_0)
    also have "\<dots> \<longleftrightarrow> odd (int (unat q))" by (simp add: bit_0)
    finally show ?thesis using qe(1) by simp
  qed
  have "rounded m d neg r = rbind (if r = RoundExact then Err FixPrecisionLoss else Ok (round_up r neg Q R D))
      (\<lambda>b. ok_or (checked_add q (of_bool b)) FixOverflow)"
    using assms(1,2) cmp odd
    by (cases r) (auto simp: rounded_def round_up_def Let_def q_def [symmetric] e_def [symmetric] not_less
        intro!: arg_cong [where f = "\<lambda>b. ok_or (checked_add q (of_bool b)) FixOverflow"])
  then show ?thesis using add [of "round_up r neg Q R D"] by auto
qed

lemma rounded_spec:
  fixes m d :: u1024
  assumes "d \<noteq> 0" and "r = RoundExact \<Longrightarrow> unat d dvd unat m"
  shows "\<exists>q. rounded m d neg r = Ok q \<and> sgn_int neg (unat q) = round_int r (sgn_int neg (unat m)) (int (unat d))"
proof (cases "m mod d = 0")
  case True
  then have dvd: "unat m mod unat d = 0" using unat_mod [of m d] by simp
  have D: "0 < int (unat d)" using assms(1) by (simp add: unat_gt_0)
  have "unat m = unat (m div d) * unat d" using dvd by (auto simp: unat_div)
  then have "int (unat m) = int (unat (m div d)) * int (unat d)" by (simp only: of_nat_mult)
  then have e: "sgn_int neg (unat m) = sgn_int neg (unat (m div d)) * int (unat d)" by (cases neg) simp_all
  have "round_int r (sgn_int neg (unat m)) (int (unat d)) = sgn_int neg (unat (m div d))"
    unfolding e by (rule round_int_whole [OF D])
  then show ?thesis using True assms(1) by (simp add: rounded_def Let_def)
next
  case False
  have D: "0 < unat d" using assms(1) by (simp add: unat_gt_0)
  have "unat (m mod d) \<noteq> 0" using False by (simp only: unat_eq_0 not_False_eq_True)
  then have R: "0 < unat m mod unat d" unfolding unat_mod by simp
  then have ex: "r \<noteq> RoundExact" using assms(2) by (auto simp: mod_eq_0_iff_dvd)
  define Q R where "Q = int (unat m div unat d)" and "R = int (unat m mod unat d)"
  have m: "int (unat m) = Q * int (unat d) + R"
    unfolding Q_def R_def of_nat_mult [symmetric] of_nat_add [symmetric] by (simp only: div_mult_mod_eq)
  obtain q where q: "rounded m d neg r = Ok q" "int (unat q) = Q + of_bool (round_up r neg Q R (int (unat d)))"
    using rounded_frac [OF assms(1) False, of r neg] ex unfolding Q_def R_def by auto
  have "0 < R" "R < int (unat d)" "0 \<le> Q" using R D by (simp_all add: Q_def R_def)
  from round_int_frac [OF this, of r neg] show ?thesis
    using q unfolding m [symmetric] by auto
qed

lemma rounded_zero: "rounded m 0 neg r = Err FixDivisionByZero"
  by (simp add: rounded_def)

lemma rounded_loss:
  "d \<noteq> 0 \<Longrightarrow> \<not> unat d dvd unat m \<Longrightarrow> rounded m d neg RoundExact = Err FixPrecisionLoss"
proof -
  assume "d \<noteq> 0" and n: "\<not> unat d dvd unat m"
  moreover have "m mod d \<noteq> 0"
  proof
    assume "m mod d = 0"
    then have "unat m mod unat d = 0" using unat_mod [of m d] by simp
    then show False using n by (simp add: mod_eq_0_iff_dvd)
  qed
  ultimately show ?thesis using rounded_frac [of d m RoundExact neg] by simp
qed

section \<open>Fields\<close>

lemma limit_1024: "n \<le> 256 \<Longrightarrow> unat (push_bit n 1 :: u1024) = 2 ^ n"
proof -
  assume "n \<le> 256"
  then have "(2 :: nat) ^ n \<le> 2 ^ 256" by (intro power_increasing) simp_all
  also have "(2 :: nat) ^ 256 < 2 ^ LENGTH(1024)" by simp
  finally have "unat (word_of_nat (2 ^ n) :: u1024) = 2 ^ n" by (rule unat_of_nat_small)
  then show ?thesis by (simp add: push_bit_eq_mult)
qed

lemma field_width:
  assumes "wf_format f"
  shows "unat (ff_width f - of_bool (ff_signed f)) = fwidth f - of_bool (ff_signed f)"
proof -
  have "of_bool (ff_signed f) \<le> ff_width f" using assms by (auto simp: wf_format_def word_le_nat_alt of_bool_def)
  then show ?thesis by (simp add: unat_sub_exact of_bool_def)
qed

lemma pow_le_256: "n \<le> 256 \<Longrightarrow> (2 :: int) ^ n \<le> 2 ^ 256"
  by (rule power_increasing) simp_all

lemma in_field_small: "wf_format f \<Longrightarrow> in_field f v \<Longrightarrow> - SIGNED_BOUND \<le> v \<and> v < SIGNED_BOUND \<and> \<bar>v\<bar> \<le> 2 ^ 256"
proof -
  assume f: "wf_format f" "in_field f v"
  then have w: "fwidth f - 1 \<le> 256" "fwidth f \<le> 256" by (auto simp: wf_format_def)
  then have "\<bar>v\<bar> \<le> 2 ^ 256"
    using f(2) pow_le_256 [OF w(1)] pow_le_256 [OF w(2)] unfolding in_field_def by (simp only: abs_le_iff split: if_splits) linarith+
  moreover have "(2 :: int) ^ 256 < SIGNED_BOUND" by (simp add: SIGNED_BOUND_def)
  ultimately show ?thesis by linarith
qed

lemma fp_of_wf:
  assumes "wf_format f" and "in_field f v"
  shows "wf_fixed (fp_of f v) \<and> fp_int (fp_of f v) = v \<and> fp_format (fp_of f v) = f"
proof -
  note small = in_field_small [OF assms]
  define m where "m = (word_of_nat (nat \<bar>v\<bar>) :: u512)"
  have fp: "fp_of f v = \<lparr>fp_units = \<lparr>su_negative = v < 0, su_magnitude = m\<rparr>, fp_format = f\<rparr>"
    by (simp only: fp_of_def m_def)
  have "nat \<bar>v\<bar> \<le> 2 ^ 256" using small by (simp add: nat_le_iff)
  also have "(2 :: nat) ^ 256 < 2 ^ LENGTH(512)" by simp
  finally have m: "unat m = nat \<bar>v\<bar>" unfolding m_def by (rule unat_of_nat_small)
  then have "su_int (fp_units (fp_of f v)) = v" by (simp add: fp su_int_def)
  moreover have "v < 0 \<Longrightarrow> m \<noteq> 0" using m by auto
  ultimately show ?thesis
    using assms small by (simp add: wf_fixed_def fp_int_def wf_signed_def fp)
qed

lemma fp_unique: "wf_fixed p \<Longrightarrow> wf_fixed q \<Longrightarrow> fp_int p = fp_int q \<Longrightarrow> fp_format p = fp_format q \<Longrightarrow> p = q"
  by (rule fixed_point.equality) (auto simp: wf_fixed_def fp_int_def intro: signed_inject)

lemma fp_of_fp_int: "wf_fixed p \<Longrightarrow> fp_of (fp_format p) (fp_int p) = p"
  using fp_of_wf fp_unique by (metis wf_fixed_def)

lemma fixed_parts_eq:
  assumes "wf_format f"
  shows "fixed_parts neg m f = fp_checked f (sgn_int neg (unat m))"
proof -
  define n where "n = fwidth f - of_bool (ff_signed f)"
  define L where "L = (push_bit n 1 :: u1024)"
  have n: "n \<le> 256" using assms by (cases "ff_signed f") (auto simp: n_def wf_format_def)
  have L: "unat L = 2 ^ n" unfolding L_def by (rule limit_1024 [OF n])
  define bad where "bad \<longleftrightarrow> \<not> ff_signed f \<and> neg \<and> m \<noteq> 0 \<or> L < m \<or> m = L \<and> \<not> (ff_signed f \<and> neg)"
  have run: "fixed_parts neg m f = (if bad then Err FixOverflow
      else rbind (ok_or (checked_cast m) FixOverflow) (\<lambda>m.
           rbind (map_err (\<lambda>_. FixOverflow) (signed_units_new neg m)) (\<lambda>units. Ok \<lparr>fp_units = units, fp_format = f\<rparr>)))"
    unfolding fixed_parts_def field_width [OF assms] n_def [symmetric] L_def [symmetric] Let_def bad_def ..
  have L': "int (unat L) = 2 ^ n" using L by simp
  have b: "bad \<longleftrightarrow> \<not> ff_signed f \<and> neg \<and> 0 < int (unat m) \<or> 2 ^ n < int (unat m) \<or> int (unat m) = 2 ^ n \<and> \<not> (ff_signed f \<and> neg)"
    unfolding bad_def word_less_nat_alt word_unat_eq_iff [of m L] L' [symmetric] of_nat_less_iff of_nat_eq_iff
    using unat_gt_0 [of m] by auto
  define P where "P = (2 :: int) ^ n"
  have P: "0 < P" by (simp add: P_def)
  have fld: "in_field f v \<longleftrightarrow> (if ff_signed f then - P \<le> v \<and> v < P else 0 \<le> v \<and> v < P)" for v
    by (simp add: in_field_def P_def n_def)
  have bad: "bad \<longleftrightarrow> \<not> in_field f (sgn_int neg (unat m))"
    unfolding b fld P_def [symmetric] using P by (cases "ff_signed f"; cases neg) auto
  show ?thesis
  proof (cases "in_field f (sgn_int neg (unat m))")
    case False
    then show ?thesis using run bad by (simp add: fp_checked_def)
  next
    case True
    note small = in_field_small [OF assms True]
    then have "int (unat m) \<le> int (2 ^ 256)" by (cases neg) simp_all
    then have "unat m \<le> 2 ^ 256" by (simp only: of_nat_le_iff)
    also have "(2 :: nat) ^ 256 < 2 ^ LENGTH(512)" by simp
    finally have "checked_cast m = Some (ucast m :: u512)" by (simp only: checked_cast_def if_True)
    then obtain k :: u512 where k: "checked_cast m = Some k" "unat k = unat m"
      using checked_cast_Some by blast
    obtain u where u: "signed_units_new neg k = Ok u"
    proof (cases "signed_units_new neg k")
      case (Inl e)
      then have "sgn_int neg (unat m) < - SIGNED_BOUND \<or> SIGNED_BOUND \<le> sgn_int neg (unat m)"
        unfolding signed_units_new_Err k(2) Let_def by (rule conjunct2)
      then show ?thesis using small by linarith
    qed
    then have w: "wf_signed u" "su_int u = sgn_int neg (unat m)" unfolding signed_units_new_Ok k(2) by simp_all
    have "\<lparr>fp_units = u, fp_format = f\<rparr> = fp_of f (sgn_int neg (unat m))"
      using fp_of_wf [OF assms True] w True assms by (intro fp_unique) (auto simp: wf_fixed_def fp_int_def)
    then show ?thesis using run bad True k(1) u by (simp add: fp_checked_def)
  qed
qed

lemma rounded_parts:
  assumes "wf_format f"
  shows "rbind (rounded m d neg r) (\<lambda>q. fixed_parts neg q f) =
    (if d = 0 then Err FixDivisionByZero
     else if r = RoundExact \<and> \<not> unat d dvd unat m then Err FixPrecisionLoss
     else fp_checked f (round_int r (sgn_int neg (unat m)) (int (unat d))))"
proof (cases "d = 0 \<or> r = RoundExact \<and> \<not> unat d dvd unat m")
  case True
  then show ?thesis using rounded_zero rounded_loss by auto
next
  case False
  then obtain q where "rounded m d neg r = Ok q"
    "sgn_int neg (unat q) = round_int r (sgn_int neg (unat m)) (int (unat d))"
    using rounded_spec [of d r m neg] by auto
  then have "rbind (rounded m d neg r) (\<lambda>q. fixed_parts neg q f) =
      fp_checked f (round_int r (sgn_int neg (unat m)) (int (unat d)))"
    by (simp only: rbind_Inr fixed_parts_eq [OF assms])
  then show ?thesis using False by (simp only: if_False) argo
qed

section \<open>Arithmetic\<close>

lemma fp_signed: "sgn_int (fixed_negative p) (unat (su_magnitude (fp_units p))) = fp_int p"
  by (simp add: fp_int_def su_int_def)

lemma fp_magnitude_bound: "wf_fixed p \<Longrightarrow> unat (su_magnitude (fp_units p)) \<le> 2 ^ 256"
proof -
  assume "wf_fixed p"
  then have "\<bar>fp_int p\<bar> \<le> int (2 ^ 256)" using in_field_small by (auto simp: wf_fixed_def)
  moreover have "\<bar>fp_int p\<bar> = int (unat (su_magnitude (fp_units p)))" by (simp add: fp_int_def su_int_def)
  ultimately show ?thesis by (simp only: of_nat_le_iff)
qed

lemma wide_product:
  fixes x y :: u1024
  assumes "unat x \<le> 2 ^ 256" and "unat y \<le> 2 ^ 512"
  shows "\<exists>z. checked_mul x y = Some z \<and> z = x * y \<and> unat z = unat x * unat y"
proof -
  have "unat x * unat y \<le> 2 ^ 256 * 2 ^ 512" using assms by (intro mult_le_mono)
  also have "\<dots> < (2 :: nat) ^ LENGTH(1024)" by simp
  finally show ?thesis using unat_mul_exact by (auto simp only: checked_mul_def if_True)
qed

lemma tens_bound: "unat d \<le> 80 \<Longrightarrow> unat (tens d) \<le> 2 ^ 512"
proof -
  assume "unat d \<le> 80"
  then have "(10 :: nat) ^ unat d \<le> 10 ^ 80" by (intro power_increasing) simp_all
  also have "(10 :: nat) ^ 80 \<le> 2 ^ 512" by simp
  finally show ?thesis by simp
qed

lemma magnitude_bound_wide: "wf_fixed p \<Longrightarrow> unat (fixed_magnitude p) \<le> 2 ^ 512"
proof -
  assume "wf_fixed p"
  then have "unat (fixed_magnitude p) \<le> 2 ^ 256" using fp_magnitude_bound by simp
  also have "(2 :: nat) ^ 256 \<le> 2 ^ 512" by simp
  finally show ?thesis .
qed

lemma sum_parts_eq:
  assumes "wf_fixed a" and "unat m \<le> 2 ^ 256"
  shows "\<exists>sign v. sum_parts a neg m = Ok (sign, v) \<and> sgn_int sign (unat v) = fp_int a + sgn_int neg (unat m)"
proof (cases "fixed_negative a = neg")
  case True
  have "unat (fixed_magnitude a) + unat m \<le> 2 ^ 256 + 2 ^ 256"
    using fp_magnitude_bound [OF assms(1)] assms(2) by simp
  also have "\<dots> < (2 :: nat) ^ LENGTH(1024)" by simp
  finally have "checked_add (fixed_magnitude a) m = Some (fixed_magnitude a + m)" by (simp only: checked_add_def if_True)
  then obtain v where "checked_add (fixed_magnitude a) m = Some v" "unat v = unat (fixed_magnitude a) + unat m"
    using checked_add_Some by blast
  then show ?thesis using True fp_signed [of a] by (auto simp: sum_parts_def Let_def)
next
  case False
  show ?thesis
  proof (cases "m \<le> fixed_magnitude a")
    case True
    then show ?thesis
      using False fp_signed [of a] unat_sub_exact [OF True]
      by (auto simp: sum_parts_def Let_def word_le_nat_alt of_nat_diff)
  next
    case le: False
    then have "fixed_magnitude a \<le> m" by simp
    from unat_sub_exact [OF this] show ?thesis
      using False le fp_signed [of a] by (auto simp: sum_parts_def Let_def word_le_nat_alt of_nat_diff)
  qed
qed

lemma add_parts_eq:
  assumes "wf_fixed a" and "unat m \<le> 2 ^ 256"
  shows "add_parts a neg m = fp_checked (fp_format a) (fp_int a + sgn_int neg (unat m))"
proof -
  obtain sign v where "sum_parts a neg m = Ok (sign, v)" "sgn_int sign (unat v) = fp_int a + sgn_int neg (unat m)"
    using sum_parts_eq [OF assms] by blast
  moreover have "wf_format (fp_format a)" using assms(1) by (simp add: wf_fixed_def)
  ultimately show ?thesis by (simp only: add_parts_def rbind_Inr prod.case fixed_parts_eq)
qed

lemma sgn_not: "sgn_int (\<not> neg) n = - sgn_int neg n"
  by simp

lemma sgn_mult: "sgn_int (a \<noteq> b) (m * n) = sgn_int a m * sgn_int b n"
  by simp

lemma checked_sum_eq:
  assumes "wf_fixed a" and "wf_fixed b"
  shows "fixed_checked_add a b = (if fp_format a = fp_format b then fp_checked (fp_format a) (fp_int a + fp_int b)
      else Err FixFormatMismatch)"
    "fixed_checked_sub a b = (if fp_format a = fp_format b then fp_checked (fp_format a) (fp_int a - fp_int b)
      else Err FixFormatMismatch)"
proof -
  have m: "unat (fixed_magnitude b) \<le> 2 ^ 256" using fp_magnitude_bound [OF assms(2)] by simp
  show "fixed_checked_add a b = (if fp_format a = fp_format b then fp_checked (fp_format a) (fp_int a + fp_int b)
      else Err FixFormatMismatch)"
    using fp_signed [of b]
    by (simp only: fixed_checked_add_def fixed_same_def add_parts_eq [OF assms(1) m] unat_fixed_magnitude) simp
  have "fp_int a + sgn_int (\<not> fixed_negative b) (unat (su_magnitude (fp_units b))) = fp_int a - fp_int b"
    unfolding sgn_not fp_signed by simp
  then show "fixed_checked_sub a b = (if fp_format a = fp_format b then fp_checked (fp_format a) (fp_int a - fp_int b)
      else Err FixFormatMismatch)"
    by (simp only: fixed_checked_sub_def fixed_same_def add_parts_eq [OF assms(1) m] unat_fixed_magnitude) simp
qed

lemma dvd_sgn: "int d dvd sgn_int neg n \<longleftrightarrow> d dvd n"
  by simp

lemma tens_nonzero [simp]: "tens d \<noteq> 0"
  using unat_tens [of d] by (metis power_not_zero unat_0 zero_neq_numeral)

lemma checked_mul_eq:
  assumes "wf_fixed a" and "wf_fixed b"
  shows "fixed_checked_mul a b r =
    (if fp_format a \<noteq> fp_format b then Err FixFormatMismatch
     else if r = RoundExact \<and> \<not> 10 ^ fscale (fp_format a) dvd fp_int a * fp_int b then Err FixPrecisionLoss
     else fp_checked (fp_format a) (round_int r (fp_int a * fp_int b) (10 ^ fscale (fp_format a))))"
proof -
  let ?f = "fp_format a" and ?neg = "fixed_negative a \<noteq> fixed_negative b"
  have f: "wf_format ?f" using assms(1) by (simp add: wf_fixed_def)
  obtain z where z: "checked_mul (fixed_magnitude a) (fixed_magnitude b) = Some z"
    "unat z = unat (su_magnitude (fp_units a)) * unat (su_magnitude (fp_units b))"
    using wide_product [of "fixed_magnitude a" "fixed_magnitude b"] fp_magnitude_bound [OF assms(1)]
      magnitude_bound_wide [OF assms(2)] by auto
  have v: "sgn_int ?neg (unat z) = fp_int a * fp_int b"
    unfolding z(2) sgn_mult fp_signed ..
  have d: "unat (tens (unit_decimals (ff_unit ?f))) dvd unat z \<longleftrightarrow> 10 ^ fscale ?f dvd fp_int a * fp_int b"
    unfolding v [symmetric] dvd_sgn [symmetric, where neg = ?neg and n = "unat z"] by simp
  have "fixed_checked_mul a b r = (if ?f \<noteq> fp_format b then Err FixFormatMismatch
      else rbind (rounded z (tens (unit_decimals (ff_unit ?f))) ?neg r) (\<lambda>m. fixed_parts ?neg m ?f))"
    using z(1) by (simp add: fixed_checked_mul_def fixed_same_def Let_def)
  then show ?thesis unfolding rounded_parts [OF f] v d by simp
qed

text \<open>The divisor is positive: the sign of the quotient is carried by the dividend.\<close>

lemma checked_div_eq:
  assumes "wf_fixed a" and "wf_fixed b"
  defines "x \<equiv> sgn (fp_int b) * fp_int a * 10 ^ fscale (fp_format a)"
  shows "fixed_checked_div a b r =
    (if fp_format a \<noteq> fp_format b then Err FixFormatMismatch
     else if fp_int b = 0 then Err FixDivisionByZero
     else if r = RoundExact \<and> \<not> fp_int b dvd x then Err FixPrecisionLoss
     else fp_checked (fp_format a) (round_int r x \<bar>fp_int b\<bar>))"
proof -
  let ?f = "fp_format a" and ?neg = "fixed_negative a \<noteq> fixed_negative b"
  have f: "wf_format ?f" "fscale ?f \<le> 80" using assms(1) by (simp_all add: wf_fixed_def wf_format_def)
  obtain z where z: "checked_mul (fixed_magnitude a) (tens (unit_decimals (ff_unit ?f))) = Some z"
    "unat z = unat (su_magnitude (fp_units a)) * 10 ^ fscale ?f"
    using wide_product [of "fixed_magnitude a" "tens (unit_decimals (ff_unit ?f))"] fp_magnitude_bound [OF assms(1)]
      tens_bound [OF f(2)] by auto
  have wb: "wf_signed (fp_units b)" using assms(2) by (simp add: wf_fixed_def)
  have mag: "int (unat (su_magnitude (fp_units b))) = \<bar>fp_int b\<bar>" by (simp add: fp_int_def su_int_def)
  have zero: "fixed_magnitude b = 0 \<longleftrightarrow> fp_int b = 0"
    unfolding unat_eq_0 [symmetric] unat_fixed_magnitude using mag by auto
  have "fp_int b \<noteq> 0 \<Longrightarrow> sgn (fp_int b) = (if fixed_negative b then - 1 else 1)"
    unfolding fp_int_def su_int_def by (cases "fixed_negative b") (auto simp: sgn_if)
  then have v: "fp_int b \<noteq> 0 \<Longrightarrow> sgn_int ?neg (unat z) = x"
    unfolding z(2) x_def fp_signed [of a, symmetric] by (cases "fixed_negative a"; cases "fixed_negative b") simp_all
  have d: "fp_int b \<noteq> 0 \<Longrightarrow> unat (fixed_magnitude b) dvd unat z \<longleftrightarrow> fp_int b dvd x"
    unfolding dvd_sgn [symmetric, where neg = ?neg and n = "unat z"] unat_fixed_magnitude mag using v by simp
  have "fixed_checked_div a b r = (if ?f \<noteq> fp_format b then Err FixFormatMismatch
      else rbind (rounded z (fixed_magnitude b) ?neg r) (\<lambda>m. fixed_parts ?neg m ?f))"
    using z(1) by (simp add: fixed_checked_div_def fixed_same_def Let_def)
  then show ?thesis unfolding rounded_parts [OF f(1)] zero using v d by (simp add: mag)
qed

section \<open>Wrapping\<close>

lemma neg_mod: "(- x) mod d = (if x mod d = 0 then 0 else d - x mod d)" for x d :: int
  by (rule zmod_zminus1_eq_if)

lemma centred_mod:
  fixes v H :: int
  assumes "0 < H"
  shows "(v + H) mod (2 * H) - H = (if v mod (2 * H) < H then v mod (2 * H) else v mod (2 * H) - 2 * H)"
proof -
  define r where "r = v mod (2 * H)"
  have r: "0 \<le> r" "r < 2 * H" using assms by (simp_all add: r_def)
  have "(v + H) mod (2 * H) = (r + H) mod (2 * H)" unfolding r_def by (simp add: mod_add_left_eq)
  also have "\<dots> = (if r < H then r + H else r - H)"
  proof (cases "r < H")
    case False
    have "(r - H + 2 * H) mod (2 * H) = (r - H) mod (2 * H)" by (rule mod_add_self2)
    moreover have "(r - H) mod (2 * H) = r - H" using False r assms by (intro mod_pos_pos_trivial) auto
    ultimately show ?thesis using False by (simp add: algebra_simps)
  qed (use r assms in auto)
  finally show ?thesis by (simp add: r_def)
qed

lemma field_wrap_in_field: "wf_format f \<Longrightarrow> in_field f (field_wrap f v)"
proof -
  assume "wf_format f"
  then have w: "1 \<le> fwidth f" by (simp add: wf_format_def)
  define H where "H = (2 :: int) ^ (fwidth f - 1)"
  have H: "0 < H" "2 ^ fwidth f = 2 * H" using w by (simp_all add: H_def pow_pred)
  have "0 \<le> x mod (2 * H) \<and> x mod (2 * H) < 2 * H" for x using H(1) by simp
  from this [of "v + H"] this [of v] show ?thesis
    unfolding in_field_def field_wrap_def H(2) H_def [symmetric] by auto
qed

lemma wrapping_parts_eq:
  assumes "wf_format f"
  shows "wrapping_parts neg m f = Ok (fp_of f (field_wrap f (sgn_int neg (unat m))))"
proof -
  define w where "w = fwidth f"
  define H where "H = (2 :: int) ^ (w - 1)"
  define M where "M = (push_bit w 1 :: u1024)"
  define v where "v = sgn_int neg (unat m)"
  have w: "1 \<le> w" "w \<le> 256" using assms by (simp_all add: w_def wf_format_def)
  have H: "0 < H" "2 ^ w = 2 * H" using w by (simp_all add: H_def pow_pred)
  have M: "int (unat M) = 2 * H" using limit_1024 [OF w(2)] H(2) by (simp only: M_def of_nat_power of_nat_numeral)
  define r0 where "r0 = m AND (M - 1)"
  define r where "r = (if neg \<and> r0 \<noteq> 0 then M - r0 else r0)"
  have "r0 = take_bit w m"
    unfolding r0_def M_def by (simp add: take_bit_eq_mask mask_eq_exp_minus_1 push_bit_eq_mult)
  then have r0: "int (unat r0) = int (unat m) mod (2 * H)"
    unfolding H(2) [symmetric] by (metis of_nat_unat unsigned_take_bit_eq take_bit_eq_mod)
  have bound: "int (unat r0) < 2 * H" unfolding r0 using H(1) by simp
  have r: "int (unat r) = v mod (2 * H)"
  proof (cases "neg \<and> r0 \<noteq> 0")
    case True
    have "r0 \<le> M" using bound M by (simp add: word_le_nat_alt)
    from unat_sub_exact [OF this] have "int (unat r) = 2 * H - int (unat r0)"
      using True M bound by (simp add: r_def of_nat_diff)
    moreover have "int (unat m) mod (2 * H) \<noteq> 0" using True r0 by (metis of_nat_eq_0_iff unat_eq_0)
    ultimately show ?thesis using True by (simp add: v_def neg_mod r0)
  next
    case False
    then have "int (unat r) = int (unat r0)" by (simp only: r_def if_False)
    moreover have "neg \<Longrightarrow> int (unat m) mod (2 * H) = 0" using False r0 by (metis of_nat_eq_0_iff unat_eq_0)
    ultimately show ?thesis using r0 by (auto simp: v_def neg_mod)
  qed
  have rb: "0 \<le> int (unat r)" "int (unat r) < 2 * H" unfolding r using H(1) by simp_all
  have "unat (ff_width f - 1) = w - 1"
    using w by (simp add: w_def unat_sub_exact word_le_nat_alt)
  moreover have "w \<le> LENGTH(1024)" using w(2) by simp
  ultimately have high: "bit r (unat (ff_width f - 1)) \<longleftrightarrow> H \<le> int (unat r)"
    using bit_high [OF w(1), of r] rb H unfolding H_def by simp
  have "r \<le> M" using rb M by (simp add: word_le_nat_alt)
  then have sub: "int (unat (M - r)) = 2 * H - int (unat r)"
    using unat_sub_exact [of r M] M rb by (simp add: of_nat_diff)
  have run: "wrapping_parts neg m f = (if ff_signed f \<and> H \<le> int (unat r) then fixed_parts True (M - r) f
      else fixed_parts False r f)"
    unfolding wrapping_parts_def w_def [symmetric] M_def [symmetric] Let_def r0_def [symmetric] r_def [symmetric] high ..
  have fw: "field_wrap f v = (if ff_signed f \<and> H \<le> int (unat r) then int (unat r) - 2 * H else int (unat r))"
    unfolding field_wrap_def w_def [symmetric] H(2) H_def [symmetric] centred_mod [OF H(1)] r by simp
  have "wrapping_parts neg m f = fp_checked f (field_wrap f v)"
    unfolding run fixed_parts_eq [OF assms] fw using sub by simp
  then show ?thesis using field_wrap_in_field [OF assms] by (simp add: fp_checked_def v_def)
qed

lemma toward_zero: "0 < d \<Longrightarrow> round_int TowardZero (sgn_int neg m) (int d) = sgn_int neg (m div d)"
  by (auto simp: round_int_def zdiv_int)

lemma wrapping_sum_eq:
  assumes "wf_fixed a" and "wf_fixed b" and "fp_format b = fp_format a"
  shows "wrapping_add a b = Ok (fp_of (fp_format a) (field_wrap (fp_format a) (fp_int a + fp_int b)))"
    "wrapping_sub a b = Ok (fp_of (fp_format a) (field_wrap (fp_format a) (fp_int a - fp_int b)))"
proof -
  have f: "wf_format (fp_format a)" using assms(1) by (simp add: wf_fixed_def)
  have m: "unat (fixed_magnitude b) \<le> 2 ^ 256" using fp_magnitude_bound [OF assms(2)] by simp
  have sum: "rbind (sum_parts a neg (fixed_magnitude b)) (\<lambda>(negative, value). wrapping_parts negative value (fp_format a)) =
      Ok (fp_of (fp_format a) (field_wrap (fp_format a) (fp_int a + sgn_int neg (unat (su_magnitude (fp_units b))))))" for neg
    using sum_parts_eq [OF assms(1) m, of neg] wrapping_parts_eq [OF f]
    by (auto simp only: rbind_Inr prod.case unat_fixed_magnitude)
  show "wrapping_add a b = Ok (fp_of (fp_format a) (field_wrap (fp_format a) (fp_int a + fp_int b)))"
    using sum [of "fixed_negative b"] assms(3) unfolding fp_signed by (simp add: wrapping_add_def fixed_same_def)
  show "wrapping_sub a b = Ok (fp_of (fp_format a) (field_wrap (fp_format a) (fp_int a - fp_int b)))"
    using sum [of "\<not> fixed_negative b"] assms(3) unfolding sgn_not fp_signed
    by (simp add: wrapping_sub_def fixed_same_def)
qed

lemma wrapping_mul_eq:
  assumes "wf_fixed a" and "wf_fixed b" and "fp_format b = fp_format a"
  shows "wrapping_mul a b = Ok (fp_of (fp_format a) (field_wrap (fp_format a)
    (round_int TowardZero (fp_int a * fp_int b) (10 ^ fscale (fp_format a)))))"
proof -
  let ?f = "fp_format a" and ?neg = "fixed_negative a \<noteq> fixed_negative b"
  have f: "wf_format ?f" using assms(1) by (simp add: wf_fixed_def)
  obtain z where z: "checked_mul (fixed_magnitude a) (fixed_magnitude b) = Some z"
    "unat z = unat (su_magnitude (fp_units a)) * unat (su_magnitude (fp_units b))"
    using wide_product [of "fixed_magnitude a" "fixed_magnitude b"] fp_magnitude_bound [OF assms(1)]
      magnitude_bound_wide [OF assms(2)] by auto
  have v: "sgn_int ?neg (unat z) = fp_int a * fp_int b"
    unfolding z(2) sgn_mult fp_signed ..
  have "sgn_int ?neg (unat (z div tens (unit_decimals (ff_unit ?f)))) =
      round_int TowardZero (fp_int a * fp_int b) (10 ^ fscale ?f)"
    using toward_zero [of "10 ^ fscale ?f" ?neg "unat z"] unfolding v by (simp add: unat_div)
  moreover have "wrapping_mul a b = wrapping_parts ?neg (z div tens (unit_decimals (ff_unit ?f))) ?f"
    using z(1) assms(3) by (simp add: wrapping_mul_def fixed_same_def)
  ultimately show ?thesis by (simp only: wrapping_parts_eq [OF f])
qed

section \<open>Comparison\<close>

lemma compare_eq:
  assumes "wf_fixed a" and "wf_fixed b"
  defines "x \<equiv> fp_int a * 10 ^ fscale (fp_format b)" and "y \<equiv> fp_int b * 10 ^ fscale (fp_format a)"
  shows "fixed_compare a b = (if x < y then Less else if x = y then Equal else Greater)"
proof -
  have sc: "fscale (fp_format a) \<le> 80" "fscale (fp_format b) \<le> 80"
    using assms(1,2) by (simp_all add: wf_fixed_def wf_format_def)
  define A where "A = fixed_magnitude a * tens (unit_decimals (ff_unit (fp_format b)))"
  define B where "B = fixed_magnitude b * tens (unit_decimals (ff_unit (fp_format a)))"
  have A: "int (unat A) = \<bar>x\<bar>"
    using wide_product [of "fixed_magnitude a" "tens (unit_decimals (ff_unit (fp_format b)))"]
      fp_magnitude_bound [OF assms(1)] tens_bound [OF sc(2)]
    by (auto simp: A_def x_def fp_int_def su_int_def abs_mult)
  have B: "int (unat B) = \<bar>y\<bar>"
    using wide_product [of "fixed_magnitude b" "tens (unit_decimals (ff_unit (fp_format a)))"]
      fp_magnitude_bound [OF assms(2)] tens_bound [OF sc(1)]
    by (auto simp: B_def y_def fp_int_def su_int_def abs_mult)
  have neg: "fixed_negative p \<Longrightarrow> wf_fixed p \<Longrightarrow> fp_int p < 0" for p
    unfolding wf_fixed_def wf_signed_def fp_int_def su_int_def by (simp add: unat_gt_0)
  have pos: "\<not> fixed_negative p \<Longrightarrow> 0 \<le> fp_int p" for p by (simp add: fp_int_def su_int_def)
  have sx: "fixed_negative a \<Longrightarrow> x < 0" "\<not> fixed_negative a \<Longrightarrow> 0 \<le> x"
    using neg [of a] pos [of a] assms(1) by (auto simp: x_def mult_less_0_iff)
  have sy: "fixed_negative b \<Longrightarrow> y < 0" "\<not> fixed_negative b \<Longrightarrow> 0 \<le> y"
    using neg [of b] pos [of b] assms(2) by (auto simp: y_def mult_less_0_iff)
  have cmp: "word_cmp A B = (if \<bar>x\<bar> < \<bar>y\<bar> then Less else if \<bar>x\<bar> = \<bar>y\<bar> then Equal else Greater)"
    "word_cmp B A = (if \<bar>y\<bar> < \<bar>x\<bar> then Less else if \<bar>x\<bar> = \<bar>y\<bar> then Equal else Greater)"
    using A B by (auto simp: word_cmp_def word_less_nat_alt word_unat_eq_iff)
  have run: "fixed_compare a b = (if fixed_negative a \<noteq> fixed_negative b then (if fixed_negative a then Less else Greater)
      else if fixed_negative a then word_cmp B A else word_cmp A B)"
    by (simp add: fixed_compare_def A_def B_def Let_def)
  show ?thesis
    unfolding run cmp using sx sy by (cases "fixed_negative a"; cases "fixed_negative b") auto
qed

section \<open>Bytes\<close>

lemma drop_to_be: "v < 256 ^ k \<Longrightarrow> k \<le> n \<Longrightarrow> drop (n - k) (to_be n v) = to_be k v"
proof -
  assume v: "v < 256 ^ k" and k: "k \<le> n"
  have "(256 :: nat) ^ k \<le> 256 ^ n" using k by (intro power_increasing) simp_all
  then have "v < 256 ^ n" using v by linarith
  then have "be_nat (to_be n v) = be_nat (replicate (n - k) 0 @ to_be k v)"
    using v by (simp add: be_nat_pad_left be_nat_to_be_id)
  then have "to_be n v = replicate (n - k) 0 @ to_be k v"
    using k by (intro be_nat_inject) simp_all
  then show ?thesis by simp
qed

lemma byte_width:
  assumes "wf_format f"
  shows "\<exists>k. fwidth f = 8 * k \<and> unat (ff_width f div 8) = k \<and> 1 \<le> k \<and> k \<le> 32"
  using assms by (auto simp: wf_format_def unat_div elim!: dvdE)

text \<open>The bit pattern of a value of the field.\<close>

lemma pattern_of:
  assumes "wf_fixed p"
  shows "\<exists>v. (if ff_signed (fp_format p) then to_twos (fp_units p) (ff_width (fp_format p)) = Ok v
      else try_u256 (fp_units p) = Ok v) \<and> unat v < 2 ^ fwidth (fp_format p) \<and>
    (\<not> ff_signed (fp_format p) \<longrightarrow> int (unat v) = fp_int p)"
proof (cases "ff_signed (fp_format p)")
  case True
  let ?w = "fwidth (fp_format p)"
  have p: "wf_signed (fp_units p)" "1 \<le> ?w" "?w \<le> 256" "twos_range ?w (fp_int p)"
    using assms True by (simp_all add: wf_fixed_def wf_format_def in_field_def twos_range_def)
  obtain v where v: "twos_pattern ?w (fp_int p) v" using pattern_exists [OF p(3)] by blast
  have "int (unat v) < int (2 ^ ?w)" using v by (simp add: twos_pattern_def)
  then have "unat v < 2 ^ ?w" by (simp only: of_nat_less_iff)
  then show ?thesis using to_twos_Ok [OF p(1)] p v True by (auto simp: fp_int_def)
next
  case False
  then have i: "0 \<le> fp_int p" "fp_int p < 2 ^ fwidth (fp_format p)" and w: "fwidth (fp_format p) \<le> 256"
    and s: "wf_signed (fp_units p)"
    using assms by (simp_all add: wf_fixed_def in_field_def wf_format_def)
  have n: "\<not> fixed_negative p"
    using i(1) s unfolding fp_int_def wf_signed_def su_int_def by (auto simp: unat_eq_0)
  then have m: "fp_int p = int (unat (su_magnitude (fp_units p)))" by (simp add: fp_int_def su_int_def)
  then have "int (unat (su_magnitude (fp_units p))) < int (2 ^ fwidth (fp_format p))" using i(2) by simp
  then have lt: "unat (su_magnitude (fp_units p)) < 2 ^ fwidth (fp_format p)" by (simp only: of_nat_less_iff)
  also have "(2 :: nat) ^ fwidth (fp_format p) \<le> 2 ^ LENGTH(256)" using w by (intro power_increasing) simp_all
  finally have "checked_cast (su_magnitude (fp_units p)) = Some (ucast (su_magnitude (fp_units p)) :: u256)"
    by (simp only: checked_cast_def if_True)
  then obtain v :: u256 where "checked_cast (su_magnitude (fp_units p)) = Some v" "unat v = unat (su_magnitude (fp_units p))"
    using checked_cast_Some by blast
  then show ?thesis using False n m lt by (auto simp: try_u256_def)
qed

lemma bytes_roundtrip:
  assumes "wf_fixed p"
  shows "\<exists>bs. fixed_to_bytes p = Some bs \<and> length bs = fwidth (fp_format p) div 8 \<and>
    fixed_from_bytes bs (fp_format p) = Ok p"
proof -
  let ?f = "fp_format p"
  have f: "wf_format ?f" "wf_signed (fp_units p)" "in_field ?f (fp_int p)" using assms by (simp_all add: wf_fixed_def)
  obtain k where k: "fwidth ?f = 8 * k" "unat (ff_width ?f div 8) = k" "1 \<le> k" "k \<le> 32"
    using byte_width [OF f(1)] by blast
  obtain v where v: "if ff_signed ?f then to_twos (fp_units p) (ff_width ?f) = Ok v else try_u256 (fp_units p) = Ok v"
    "unat v < 2 ^ fwidth ?f" "\<not> ff_signed ?f \<longrightarrow> int (unat v) = fp_int p"
    using pattern_of [OF assms] by blast
  have lt: "unat v < 256 ^ k" using v(2) unfolding k(1) pow_256_bits .
  have to: "fixed_to_bytes p = Some (to_be k (unat v))"
    using v(1) drop_to_be [OF lt k(4)] by (simp add: fixed_to_bytes_def k(2) split: if_splits)
  have be: "be_nat (to_be k (unat v)) = unat v" by (rule be_nat_to_be_id [OF lt])
  define units where "units = (if ff_signed ?f then map_err (\<lambda>_. FixOverflow) (from_twos v (ff_width ?f))
      else map_err (\<lambda>_. FixOverflow) (signed_units_new False (ucast v)))"
  have units: "units = Ok (fp_units p)"
  proof (cases "ff_signed ?f")
    case True
    then have "from_twos v (ff_width ?f) = Ok (fp_units p)"
      unfolding from_twos_Ok using v(1) f(2) by (simp add: to_twos_Ok)
    then show ?thesis using True by (simp add: units_def)
  next
    case False
    then have i: "int (unat v) = su_int (fp_units p)" "0 \<le> fp_int p"
      using v(3) f(3) by (auto simp: fp_int_def in_field_def)
    have "fp_units p = \<lparr>su_negative = False, su_magnitude = ucast v\<rparr>"
      using f(2) unsigned_units_wf [of v] i(1) by (intro signed_inject) (auto simp: su_int_def unat_ucast_up)
    moreover have "signed_units_new False (ucast v) = Ok (fp_units p)"
      unfolding signed_units_new_Ok using f(2) i(1) calculation by (simp add: unat_ucast_up)
    ultimately show ?thesis using False by (simp add: units_def)
  qed
  have "length (strip_zeros_left (to_be k (unat v))) \<le> k" using length_strip [of "to_be k (unat v)"] by simp
  then have "fixed_from_bytes (to_be k (unat v)) ?f =
      rbind units (\<lambda>units. fixed_parts (su_negative units) (ucast (su_magnitude units)) ?f)"
    using k(4) by (simp add: fixed_from_bytes_def Let_def k(2) be units_def)
  also have "\<dots> = fp_checked ?f (fp_int p)"
    unfolding units by (simp add: fixed_parts_eq [OF f(1)] unat_ucast_up fp_int_def su_int_def)
  finally have "fixed_from_bytes (to_be k (unat v)) ?f = Ok p"
    using f(3) fp_of_fp_int [OF assms] by (simp add: fp_checked_def)
  then show ?thesis using to k(1) by simp
qed

lemma with_format_eq:
  assumes "wf_fixed p" and "wf_format f"
  shows "with_format p f r =
    (if r = RoundExact \<and> \<not> 10 ^ fscale (fp_format p) dvd fp_int p * 10 ^ fscale f then Err FixPrecisionLoss
     else fp_checked f (round_int r (fp_int p * 10 ^ fscale f) (10 ^ fscale (fp_format p))))"
proof -
  have sc: "fscale f \<le> 80" using assms(2) by (simp add: wf_format_def)
  obtain z where z: "checked_mul (fixed_magnitude p) (tens (unit_decimals (ff_unit f))) = Some z"
    "unat z = unat (su_magnitude (fp_units p)) * 10 ^ fscale f"
    using wide_product [of "fixed_magnitude p" "tens (unit_decimals (ff_unit f))"] fp_magnitude_bound [OF assms(1)]
      tens_bound [OF sc] by auto
  have v: "sgn_int (fixed_negative p) (unat z) = fp_int p * 10 ^ fscale f"
    unfolding z(2) fp_signed [of p, symmetric] by simp
  have d: "unat (tens (unit_decimals (ff_unit (fp_format p)))) dvd unat z \<longleftrightarrow>
      10 ^ fscale (fp_format p) dvd fp_int p * 10 ^ fscale f"
    unfolding v [symmetric] dvd_sgn [symmetric, where neg = "fixed_negative p" and n = "unat z"] by simp
  have "with_format p f r = rbind (rounded z (tens (unit_decimals (ff_unit (fp_format p)))) (fixed_negative p) r)
      (\<lambda>m. fixed_parts (fixed_negative p) m f)"
    using z(1) by (simp add: with_format_def)
  then show ?thesis unfolding rounded_parts [OF assms(2)] v d by simp
qed

lemma format_256: "unat (unit_decimals unit) \<le> 80 \<Longrightarrow>
    fixed_format_new False 256 (unit_decimals unit) = Ok \<lparr>ff_signed = False, ff_width = 256, ff_unit = unit\<rparr>"
  by (cases unit) (simp add: fixed_format_new_def unit_new_def word_le_nat_alt word_less_nat_alt word_unat_eq_iff unat_mod)

lemma fixed_format_new_Ok: "fixed_format_new s w d = Ok f \<Longrightarrow> wf_format f \<and> f = \<lparr>ff_signed = s, ff_width = w, ff_unit = Unit d\<rparr>"
  by (auto simp: fixed_format_new_def unit_new_def wf_format_def result_simps word_le_nat_alt word_less_nat_alt
      word_unat_eq_iff unat_mod mod_eq_0_iff_dvd split: if_splits)

lemma to_chain_units_Ok:
  assumes "wf_fixed p"
  shows "to_chain_units p unit = Ok v \<longleftrightarrow> unat (unit_decimals unit) \<le> 80 \<and>
    int (unat v) * 10 ^ fscale (fp_format p) = fp_int p * 10 ^ unat (unit_decimals unit)"
proof (cases "unat (unit_decimals unit) \<le> 80")
  case False
  have "\<not> (\<exists>f. fixed_format_new False 256 (unit_decimals unit) = Ok f)"
    using False fixed_format_new_Ok by (fastforce simp: wf_format_def)
  then show ?thesis using False by (auto simp: to_chain_units_def result_simps)
next
  case True
  define f where "f = \<lparr>ff_signed = False, ff_width = 256, ff_unit = unit\<rparr>"
  have f: "fixed_format_new False 256 (unit_decimals unit) = Ok f" "fscale f = unat (unit_decimals unit)" "\<not> ff_signed f"
    "fwidth f = 256"
    using format_256 [OF True] by (simp_all add: f_def)
  then have wf: "wf_format f" using fixed_format_new_Ok by blast
  define x where "x = fp_int p * 10 ^ unat (unit_decimals unit)"
  define d where "d = (10 :: int) ^ fscale (fp_format p)"
  have d: "0 < d" by (simp add: d_def)
  have run: "to_chain_units p unit = Ok v \<longleftrightarrow>
      d dvd x \<and> in_field f (x div d) \<and> try_u256 (fp_units (fp_of f (x div d))) = Ok v"
    unfolding to_chain_units_def f(1) rbind_Inr with_format_eq [OF assms wf] f(2) x_def [symmetric] d_def [symmetric]
    by (auto simp: round_int_def fp_checked_def map_err_eq rbind_eq_Ok)
  have conv: "try_u256 (fp_units (fp_of f y)) = Ok v \<longleftrightarrow> int (unat v) = y" if "in_field f y" for y
  proof -
    have wy: "wf_fixed (fp_of f y)" "fp_int (fp_of f y) = y" "fp_format (fp_of f y) = f"
      using fp_of_wf [OF wf that] by simp_all
    obtain v' where v': "try_u256 (fp_units (fp_of f y)) = Ok v'" "int (unat v') = y"
      using pattern_of [OF wy(1)] f(3) unfolding wy(2,3) by auto
    then show ?thesis by (auto simp: word_unat_eq_iff)
  qed
  have fld: "int (unat v) = y \<Longrightarrow> in_field f y" for y
  proof -
    assume "int (unat v) = y"
    moreover have "int (unat v) < int (2 ^ 256)"
      using unsigned_less [of v, where ?'a = nat] by (simp only: of_nat_less_iff) simp
    ultimately show ?thesis using f(3,4) by (simp add: in_field_def)
  qed
  have "d dvd x \<and> int (unat v) = x div d \<longleftrightarrow> int (unat v) * d = x" using d by auto
  then show ?thesis unfolding run using conv fld True by (auto simp: x_def d_def)
qed

section \<open>Correctness of the arithmetic\<close>

text \<open>
  Rounding is exact. Whatever the 1024-bit operands, the rounded quotient carries the sign of
  the dividend and is the quotient of the integers rounded by the policy: towards zero, down, up,
  to the nearest with ties to even or ties up. Only a zero divisor and, under the exact policy, a
  nonzero remainder fail; the increment never overflows.
\<close>

theorem rounded_exact:
  "case rounded m d neg r of
      Ok q \<Rightarrow> d \<noteq> 0 \<and>
        (if r = RoundExact then sgn_int neg (unat q) * int (unat d) = sgn_int neg (unat m)
         else sgn_int neg (unat q) = round_int r (sgn_int neg (unat m)) (int (unat d)))
    | Err e \<Rightarrow> e = FixDivisionByZero \<and> d = 0 \<or>
        e = FixPrecisionLoss \<and> d \<noteq> 0 \<and> r = RoundExact \<and> \<not> unat d dvd unat m"
proof (cases "d = 0 \<or> r = RoundExact \<and> \<not> unat d dvd unat m")
  case True
  then consider "d = 0" | "d \<noteq> 0" "r = RoundExact" "\<not> unat d dvd unat m" by blast
  then show ?thesis
  proof cases
    case 1
    then show ?thesis by (simp add: rounded_zero)
  next
    case 2
    then show ?thesis using rounded_loss [of d m neg] by simp
  qed
next
  case False
  then obtain q where q: "rounded m d neg r = Ok q"
    "sgn_int neg (unat q) = round_int r (sgn_int neg (unat m)) (int (unat d))"
    using rounded_spec [of d r m neg] by auto
  moreover have "sgn_int neg (unat q) * int (unat d) = sgn_int neg (unat m)" if "r = RoundExact"
  proof -
    have "int (unat d) dvd sgn_int neg (unat m)" using False that by (simp only: dvd_sgn) simp
    then show ?thesis unfolding q(2) that round_int_def by simp
  qed
  ultimately show ?thesis using False by simp
qed

text \<open>
  C27: checked fixed-point arithmetic computes the exact result on the integer units, rounded by
  the policy where the scale requires it, and returns it exactly when it lies in the field;
  otherwise it reports overflow, a lost fraction or a zero divisor. No intermediate product
  overflows.
\<close>

theorem fixed_arithmetic_exact:
  assumes "wf_fixed a" and "wf_fixed b" and "fp_format b = fp_format a"
  defines "f \<equiv> fp_format a" and "T \<equiv> 10 ^ fscale (fp_format a)"
  shows "fixed_checked_add a b = fp_checked f (fp_int a + fp_int b) \<and>
    fixed_checked_sub a b = fp_checked f (fp_int a - fp_int b) \<and>
    fixed_checked_mul a b r =
      (if r = RoundExact \<and> \<not> T dvd fp_int a * fp_int b then Err FixPrecisionLoss
       else fp_checked f (round_int r (fp_int a * fp_int b) T)) \<and>
    fixed_checked_div a b r =
      (if fp_int b = 0 then Err FixDivisionByZero
       else if r = RoundExact \<and> \<not> fp_int b dvd sgn (fp_int b) * fp_int a * T then Err FixPrecisionLoss
       else fp_checked f (round_int r (sgn (fp_int b) * fp_int a * T) \<bar>fp_int b\<bar>))"
  using assms(3) unfolding checked_sum_eq [OF assms(1,2)] checked_mul_eq [OF assms(1,2)] checked_div_eq [OF assms(1,2)]
    f_def T_def by simp

lemma default_wf:
  "wf_format fixed_format_default" "fwidth fixed_format_default = 128" "fscale fixed_format_default = 18"
  "ff_signed fixed_format_default"
  by (simp_all add: fixed_format_default_def UNIT_QUAI_def wf_format_def)

lemma default_field: "in_field fixed_format_default v \<longleftrightarrow> - (2 ^ 127) \<le> v \<and> v < 2 ^ 127"
  by (simp add: in_field_def default_wf)

theorem fixed_arithmetic_exact_witness:
  "fixed_checked_mul (fp_of fixed_format_default 1500000000000000000)
     (fp_of fixed_format_default (- 3)) RoundFloor = Ok (fp_of fixed_format_default (- 5))"
proof -
  let ?F = fixed_format_default
  have a: "wf_fixed (fp_of ?F 1500000000000000000)" "fp_int (fp_of ?F 1500000000000000000) = 1500000000000000000"
    "fp_format (fp_of ?F 1500000000000000000) = ?F"
    using fp_of_wf [OF default_wf(1), of 1500000000000000000] by (simp_all add: default_field)
  have b: "wf_fixed (fp_of ?F (- 3))" "fp_int (fp_of ?F (- 3)) = - 3" "fp_format (fp_of ?F (- 3)) = ?F"
    using fp_of_wf [OF default_wf(1), of "- 3"] by (simp_all add: default_field)
  show ?thesis
    using fixed_arithmetic_exact [OF a(1) b(1), of RoundFloor] unfolding a(2,3) b(2,3)
    by (simp add: default_wf(3) round_int_def fp_checked_def default_field)
qed



text \<open>
  C29: every well-formed value encodes to exactly its field width in bytes, without a panic, and
  decoding these bytes in the same format gives the value back.
\<close>

theorem fixed_bytes_roundtrip:
  assumes "wf_fixed p"
  shows "\<exists>bs. fixed_to_bytes p = Some bs \<and> length bs = fwidth (fp_format p) div 8 \<and>
    fixed_from_bytes bs (fp_format p) = Ok p"
  by (rule bytes_roundtrip [OF assms])

theorem fixed_bytes_roundtrip_witness:
  "\<exists>bs. fixed_to_bytes (fp_of fixed_format_default (- 5)) = Some bs \<and> length bs = 16 \<and>
    fixed_from_bytes bs fixed_format_default = Ok (fp_of fixed_format_default (- 5))"
proof -
  let ?F = fixed_format_default
  have a: "wf_fixed (fp_of ?F (- 5))" "fp_format (fp_of ?F (- 5)) = ?F"
    using fp_of_wf [OF default_wf(1), of "- 5"] by (simp_all add: default_field)
  show ?thesis using fixed_bytes_roundtrip [OF a(1)] unfolding a(2) default_wf(2) by simp
qed

end
