(* ===== verification/Wire.thy ===== *)
theory Wire
  imports Consensus_Base
begin

text \<open>
  The protobuf boundary of the consensus crate: the raw messages of
  \<open>quai-consensus/src/proto.rs\<close>, and from \<open>quai-consensus/src/lib.rs\<close> the bounded canonical
  decoder with its allocation-free preflight walk and the lenient scan for transaction inputs.
  The prost codec is a parameter; \<open>usize\<close> has 64 bits.
\<close>

section \<open>Raw messages\<close>

record proto_hash =
  ph_value :: bytes

record proto_access_tuple =
  pat_address :: bytes
  pat_storage_key :: "proto_hash list"

record proto_access_list =
  pal_access_tuples :: "proto_access_tuple list"

record proto_outpoint =
  po_hash :: "proto_hash option"
  po_index :: "u32 option"

record proto_input =
  pi_previous_out_point :: "proto_outpoint option"
  pi_pub_key :: "bytes option"

record proto_inputs =
  pi_tx_ins :: "proto_input list"

record proto_output =
  pu_denomination :: "u32 option"
  pu_address :: "bytes option"
  pu_lock :: "bytes option"

record proto_outputs =
  pu_tx_outs :: "proto_output list"

record proto_transaction =
  pt_type :: "u64 option"
  pt_to :: "bytes option"
  pt_nonce :: "u64 option"
  pt_value :: "bytes option"
  pt_gas :: "u64 option"
  pt_data :: "bytes option"
  pt_chain_id :: "bytes option"
  pt_gas_price :: "bytes option"
  pt_access_list :: "proto_access_list option"
  pt_v :: "bytes option"
  pt_r :: "bytes option"
  pt_s :: "bytes option"
  pt_originating_tx_hash :: "proto_hash option"
  pt_etx_index :: "u32 option"
  pt_tx_ins :: "proto_inputs option"
  pt_tx_outs :: "proto_outputs option"
  pt_signature :: "bytes option"
  pt_etx_sender :: "bytes option"
  pt_parent_hash :: "proto_hash option"
  pt_mix_hash :: "proto_hash option"
  pt_work_nonce :: "u64 option"
  pt_etx_type :: "u64 option"

definition proto_default :: proto_transaction where
  "proto_default =
     \<lparr>pt_type = None, pt_to = None, pt_nonce = None, pt_value = None, pt_gas = None, pt_data = None,
      pt_chain_id = None, pt_gas_price = None, pt_access_list = None, pt_v = None, pt_r = None,
      pt_s = None, pt_originating_tx_hash = None, pt_etx_index = None, pt_tx_ins = None,
      pt_tx_outs = None, pt_signature = None, pt_etx_sender = None, pt_parent_hash = None,
      pt_mix_hash = None, pt_work_nonce = None, pt_etx_type = None\<rparr>"

text \<open>The prost codec of the transaction message.\<close>

record prost =
  prost_encode :: "proto_transaction \<Rightarrow> bytes"
  prost_decode :: "bytes \<Rightarrow> proto_transaction option"

section \<open>The preflight walk\<close>

datatype wire_kind =
    WTransaction
  | WAccessList
  | WAccessTuple
  | WHash
  | WInputs
  | WInput
  | WOutPoint
  | WOutputs
  | WOutput

primrec varint_loop :: "nat list \<Rightarrow> u64 \<Rightarrow> bytes \<Rightarrow> (u64 \<times> bytes, transaction_error) result" where
  "varint_loop [] n bs = Err TxInvalidEncoding"
| "varint_loop (shift # shifts) n bs =
     (case bs of
        [] \<Rightarrow> Err TxInvalidEncoding
      | b # rest \<Rightarrow>
          if shift = 63 \<and> 1 < b then Err TxInvalidEncoding
          else let n = n OR push_bit shift (ucast (b AND 127))
               in if b < 128 then Ok (n, rest) else varint_loop shifts n rest)"

definition varint :: "bytes \<Rightarrow> (u64 \<times> bytes, transaction_error) result" where
  "varint bs = varint_loop [0, 7, 14, 21, 28, 35, 42, 49, 56, 63] 0 bs"

definition wire_child :: "wire_kind \<Rightarrow> u64 \<Rightarrow> wire_kind option" where
  "wire_child kind tag =
     (case kind of
        WTransaction \<Rightarrow>
          (if tag = 9 then Some WAccessList
           else if tag = 13 \<or> tag = 19 \<or> tag = 20 then Some WHash
           else if tag = 15 then Some WInputs
           else if tag = 16 then Some WOutputs
           else None)
      | WAccessList \<Rightarrow> (if tag = 1 then Some WAccessTuple else None)
      | WAccessTuple \<Rightarrow> (if tag = 2 then Some WHash else None)
      | WInputs \<Rightarrow> (if tag = 1 then Some WInput else None)
      | WInput \<Rightarrow> (if tag = 1 then Some WOutPoint else None)
      | WOutPoint \<Rightarrow> (if tag = 1 then Some WHash else None)
      | WOutputs \<Rightarrow> (if tag = 1 then Some WOutput else None)
      | _ \<Rightarrow> None)"

text \<open>
  The field loop after the message has been charged to the budget; a nested message is charged
  before its own fields are walked.
\<close>

lemma varint_loop_shorter: "varint_loop shifts n bs = Ok (v, r) \<Longrightarrow> length r < length bs"
proof (induction shifts arbitrary: n bs)
  case (Cons shift shifts)
  show ?case
  proof (cases bs)
    case Nil
    then show ?thesis using Cons.prems by simp
  next
    case (Cons b rest)
    then show ?thesis
      using Cons.prems Cons.IH [of _ rest] by (force simp: Let_def split: if_splits)
  qed
qed simp

lemma varint_shorter: "varint bs = Ok (v, r) \<Longrightarrow> length r < length bs"
  unfolding varint_def by (rule varint_loop_shorter)

function preflight_fields :: "wire_kind \<Rightarrow> bytes \<Rightarrow> nat \<Rightarrow> (nat, transaction_error) result" where
  "preflight_fields kind bs budget =
     (if bs = [] then Ok budget
      else rbind (varint bs) (\<lambda>(key, r).
        let tag = drop_bit 3 key
        in if tag = 0 then Err TxInvalidEncoding
           else if key AND 7 = 0 then rbind (varint r) (\<lambda>(_, r). preflight_fields kind r budget)
           else if key AND 7 = 1 then
             (if 8 \<le> length r then preflight_fields kind (drop 8 r) budget else Err TxInvalidEncoding)
           else if key AND 7 = 5 then
             (if 4 \<le> length r then preflight_fields kind (drop 4 r) budget else Err TxInvalidEncoding)
           else if key AND 7 = 2 then
             rbind (varint r) (\<lambda>(len, r).
               if length r < unat len then Err TxInvalidEncoding
               else
                 (case wire_child kind tag of
                    None \<Rightarrow> preflight_fields kind (drop (unat len) r) budget
                  | Some child \<Rightarrow>
                      rbind (case budget of 0 \<Rightarrow> Err TxTooLarge
                             | Suc b \<Rightarrow> preflight_fields child (take (unat len) r) b)
                        (\<lambda>budget. preflight_fields kind (drop (unat len) r) budget)))
           else Err TxInvalidEncoding))"
  by pat_completeness auto

termination
  by (relation "measure (\<lambda>(kind, bs, budget). length bs)") (auto dest!: varint_shorter)

declare preflight_fields.simps [simp del]

definition preflight :: "bytes \<Rightarrow> wire_kind \<Rightarrow> nat \<Rightarrow> (nat, transaction_error) result" where
  "preflight bs kind budget =
     (case budget of 0 \<Rightarrow> Err TxTooLarge | Suc b \<Rightarrow> preflight_fields kind bs b)"

section \<open>Encoding and decoding\<close>

definition encode :: "prost \<Rightarrow> proto_transaction \<Rightarrow> (bytes, transaction_error) result" where
  "encode pr p =
     (if MAX_TRANSACTION_BYTES < length (prost_encode pr p) then Err TxTooLarge
      else Ok (prost_encode pr p))"

definition decode :: "prost \<Rightarrow> bytes \<Rightarrow> (proto_transaction, transaction_error) result" where
  "decode pr bs =
     (if MAX_TRANSACTION_BYTES < length bs then Err TxTooLarge
      else rbind (preflight bs WTransaction MAX_TRANSACTION_MESSAGES) (\<lambda>_.
        rbind (ok_or (prost_decode pr bs) TxInvalidEncoding) (\<lambda>p.
          if prost_encode pr p \<noteq> bs then Err TxInvalidEncoding else Ok p)))"

definition decode_proto_transaction :: "prost \<Rightarrow> bytes \<Rightarrow> (proto_transaction, transaction_error) result" where
  "decode_proto_transaction pr bs = decode pr bs"

definition encode_proto_transaction :: "prost \<Rightarrow> proto_transaction \<Rightarrow> (bytes, transaction_error) result" where
  "encode_proto_transaction pr value =
     rbind (encode pr value) (\<lambda>bs.
       rbind (preflight bs WTransaction MAX_TRANSACTION_MESSAGES) (\<lambda>_. Ok bs))"

section \<open>The scan for inputs\<close>

primrec lenient_loop :: "nat \<Rightarrow> u64 \<Rightarrow> bytes \<Rightarrow> (u64 \<times> nat) option" where
  "lenient_loop i value [] = None"
| "lenient_loop i value (b # bs) =
     (let value = value OR push_bit (7 * i) (ucast (b AND 0x7f))
      in if b AND 0x80 = 0 then Some (value, i + 1) else lenient_loop (Suc i) value bs)"

definition lenient_varint :: "bytes \<Rightarrow> (u64 \<times> nat) option" where
  "lenient_varint bs = lenient_loop 0 0 (take 10 bs)"

text \<open>How many bytes a field occupies after its key, with the group depth and the flag updated.\<close>

definition field_skip :: "u64 \<Rightarrow> u64 \<Rightarrow> bytes \<Rightarrow> nat \<Rightarrow> bool \<Rightarrow> (nat \<times> nat \<times> bool) option" where
  "field_skip field wtype rest depth inputs =
     (if wtype = 0 then map_option (\<lambda>(_, used). (used, depth, inputs)) (lenient_varint rest)
      else if wtype = 1 then Some (8, depth, inputs)
      else if wtype = 2 then
        (case lenient_varint rest of
           None \<Rightarrow> None
         | Some (len, used) \<Rightarrow>
             if unat len + used < 2 ^ 64
             then Some (unat len + used, depth, inputs \<or> field = 15 \<and> depth = 0)
             else None)
      else if wtype = 3 then Some (0, depth + 1, inputs)
      else if wtype = 4 then (case depth of 0 \<Rightarrow> None | Suc outer \<Rightarrow> Some (0, outer, inputs))
      else if wtype = 5 then Some (4, depth, inputs)
      else None)"

lemma lenient_loop_used: "lenient_loop i v bs = Some (w, u) \<Longrightarrow> i < u \<and> u \<le> i + length bs"
  by (induction bs arbitrary: i v) (force simp: Let_def split: if_splits)+

lemma lenient_used: "lenient_varint bs = Some (v, u) \<Longrightarrow> 0 < u \<and> u \<le> length bs"
  unfolding lenient_varint_def by (drule lenient_loop_used) auto

function inputs_loop :: "bytes \<Rightarrow> nat \<Rightarrow> bool \<Rightarrow> bool" where
  "inputs_loop rest depth inputs =
     (if rest = [] then inputs \<and> depth = 0
      else
        (case lenient_varint rest of
           None \<Rightarrow> False
         | Some (key, used) \<Rightarrow>
             (let rest = drop used rest; field = drop_bit 3 key
              in if field = 0 then False
                 else
                   (case field_skip field (key AND 7) rest depth inputs of
                      None \<Rightarrow> False
                    | Some (skip, depth, inputs) \<Rightarrow>
                        if length rest < skip then False
                        else inputs_loop (drop skip rest) depth inputs))))"
  by pat_completeness auto

termination
  by (relation "measure (\<lambda>(rest, depth, inputs). length rest)") (auto dest!: lenient_used)

declare inputs_loop.simps [simp del]

definition has_transaction_inputs :: "bytes \<Rightarrow> bool" where
  "has_transaction_inputs bs = inputs_loop bs 0 False"

section \<open>The grammar of a message\<close>

text \<open>
  \<open>wire_fields kind bs n ts\<close>: the bytes are a sequence of fields of a message of this kind, with
  \<open>n\<close> embedded messages at any depth, and \<open>ts\<close> are the field numbers and wire types at the top.
\<close>

inductive wire_fields :: "wire_kind \<Rightarrow> bytes \<Rightarrow> nat \<Rightarrow> (u64 \<times> u64) list \<Rightarrow> bool" where
  no_fields: "wire_fields kind [] 0 []"
| varint_field: "varint bs = Ok (key, r) \<Longrightarrow> drop_bit 3 key \<noteq> 0 \<Longrightarrow> key AND 7 = 0 \<Longrightarrow>
    varint r = Ok (v, rest) \<Longrightarrow> wire_fields kind rest n ts \<Longrightarrow>
    wire_fields kind bs n ((drop_bit 3 key, 0) # ts)"
| fixed_field: "varint bs = Ok (key, part @ rest) \<Longrightarrow> drop_bit 3 key \<noteq> 0 \<Longrightarrow>
    key AND 7 = 1 \<and> length part = 8 \<or> key AND 7 = 5 \<and> length part = 4 \<Longrightarrow> wire_fields kind rest n ts \<Longrightarrow>
    wire_fields kind bs n ((drop_bit 3 key, key AND 7) # ts)"
| bytes_field: "varint bs = Ok (key, r) \<Longrightarrow> drop_bit 3 key \<noteq> 0 \<Longrightarrow> key AND 7 = 2 \<Longrightarrow>
    varint r = Ok (len, part @ rest) \<Longrightarrow> length part = unat len \<Longrightarrow>
    wire_child kind (drop_bit 3 key) = None \<Longrightarrow> wire_fields kind rest n ts \<Longrightarrow>
    wire_fields kind bs n ((drop_bit 3 key, 2) # ts)"
| message_field: "varint bs = Ok (key, r) \<Longrightarrow> drop_bit 3 key \<noteq> 0 \<Longrightarrow> key AND 7 = 2 \<Longrightarrow>
    varint r = Ok (len, part @ rest) \<Longrightarrow> length part = unat len \<Longrightarrow>
    wire_child kind (drop_bit 3 key) = Some child \<Longrightarrow> wire_fields child part m us \<Longrightarrow>
    wire_fields kind rest n ts \<Longrightarrow>
    wire_fields kind bs (Suc (m + n)) ((drop_bit 3 key, 2) # ts)"

lemma varint_Nil [simp]: "varint [] = Err TxInvalidEncoding"
  by (simp add: varint_def)

lemma preflight_complete:
  "wire_fields kind bs n ts \<Longrightarrow> n \<le> b \<Longrightarrow> preflight_fields kind bs b = Ok (b - n)"
proof (induction arbitrary: b rule: wire_fields.induct)
  case (no_fields kind)
  then show ?case by (simp add: preflight_fields.simps)
next
  case (varint_field bs key r v rest kind n ts)
  then have "bs \<noteq> []" by auto
  then show ?case using varint_field by (subst preflight_fields.simps) (simp add: Let_def)
next
  case (fixed_field bs key part rest kind n ts)
  then have "bs \<noteq> []" by auto
  then show ?case using fixed_field by (subst preflight_fields.simps) (auto simp: Let_def)
next
  case (bytes_field bs key r len part rest kind n ts)
  then have "bs \<noteq> []" by auto
  then show ?case using bytes_field by (subst preflight_fields.simps) (simp add: Let_def)
next
  case (message_field bs key r len part rest kind child m us n ts)
  then have ne: "bs \<noteq> []" by auto
  obtain b' where b': "b = Suc b'" "m \<le> b'" using message_field.prems by (cases b) auto
  then show ?case
    using message_field ne message_field.IH(1) [OF b'(2)] message_field.IH(2) [of "b' - m"]
    by (subst preflight_fields.simps) (simp add: Let_def)
qed

lemma split_at: "n \<le> length r \<Longrightarrow> r = take n r @ drop n r \<and> length (take n r) = n"
  by simp

lemma preflight_sound:
  "preflight_fields kind bs b = Ok b' \<Longrightarrow> \<exists>n ts. wire_fields kind bs n ts \<and> n \<le> b \<and> b' = b - n"
proof (induction "length bs" arbitrary: kind bs b b' rule: less_induct)
  case less
  show ?case
  proof (cases "bs = []")
    case True
    then show ?thesis using less.prems no_fields by (fastforce simp: preflight_fields.simps)
  next
    case False
    obtain key r where v: "varint bs = Ok (key, r)"
      using less.prems False by (subst (asm) preflight_fields.simps) (auto simp: result_simps)
    note r = varint_shorter [OF v]
    have run: "preflight_fields kind bs b = Ok b'" by (rule less.prems)
    have tag: "drop_bit 3 key \<noteq> 0"
      using run False v by (subst (asm) preflight_fields.simps) (auto simp: Let_def)
    consider (var) "key AND 7 = 0" | (fix8) "key AND 7 = 1" | (fix4) "key AND 7 = 5" | (len) "key AND 7 = 2"
      using run False v tag by (subst (asm) preflight_fields.simps) (auto simp: Let_def split: if_splits)
    then show ?thesis
    proof cases
      case var
      then obtain x r2 where x: "varint r = Ok (x, r2)" "preflight_fields kind r2 b = Ok b'"
        using run False v tag by (subst (asm) preflight_fields.simps) (auto simp: Let_def result_simps)
      then show ?thesis
        using less.hyps [OF _ x(2)] varint_shorter [OF x(1)] r varint_field [OF v tag var x(1)] by fastforce
    next
      case fix8
      then have x: "8 \<le> length r" "preflight_fields kind (drop 8 r) b = Ok b'"
        using run False v tag by (subst (asm) preflight_fields.simps, auto simp: Let_def split: if_splits)+
      have "varint bs = Ok (key, take 8 r @ drop 8 r)" using v by simp
      from fixed_field [OF this tag] show ?thesis
        using less.hyps [OF _ x(2)] r x(1) fix8 by fastforce
    next
      case fix4
      then have x: "4 \<le> length r" "preflight_fields kind (drop 4 r) b = Ok b'"
        using run False v tag by (subst (asm) preflight_fields.simps, auto simp: Let_def split: if_splits)+
      have "varint bs = Ok (key, take 4 r @ drop 4 r)" using v by simp
      from fixed_field [OF this tag] show ?thesis
        using less.hyps [OF _ x(2)] r x(1) fix4 by fastforce
    next
      case len
      then obtain l r2 where x: "varint r = Ok (l, r2)" "unat l \<le> length r2"
        and rest: "(case wire_child kind (drop_bit 3 key) of
            None \<Rightarrow> preflight_fields kind (drop (unat l) r2) b
          | Some child \<Rightarrow>
              rbind (case b of 0 \<Rightarrow> Err TxTooLarge | Suc b \<Rightarrow> preflight_fields child (take (unat l) r2) b)
                (\<lambda>b. preflight_fields kind (drop (unat l) r2) b)) = Ok b'"
        using run False v tag by (subst (asm) preflight_fields.simps) (auto simp: Let_def result_simps not_less split: if_splits)
      have sp: "varint r = Ok (l, take (unat l) r2 @ drop (unat l) r2)" "length (take (unat l) r2) = unat l"
        using x by simp_all
      have sh: "length (drop (unat l) r2) < length bs" "length (take (unat l) r2) < length bs"
        using varint_shorter [OF x(1)] r by simp_all
      show ?thesis
      proof (cases "wire_child kind (drop_bit 3 key)")
        case None
        then have "preflight_fields kind (drop (unat l) r2) b = Ok b'" using rest by simp
        from less.hyps [OF sh(1) this] show ?thesis
          using bytes_field [OF v tag len sp None] by blast
      next
        case (Some child)
        then obtain c c' where c: "b = Suc c" "preflight_fields child (take (unat l) r2) c = Ok c'"
          "preflight_fields kind (drop (unat l) r2) c' = Ok b'"
          using rest by (cases b) (auto simp: result_simps)
        obtain m us where m: "wire_fields child (take (unat l) r2) m us" "m \<le> c" "c' = c - m"
          using less.hyps [OF sh(2) c(2)] by blast
        obtain n ts where n: "wire_fields kind (drop (unat l) r2) n ts" "n \<le> c'" "b' = c' - n"
          using less.hyps [OF sh(1) c(3)] by blast
        have "wire_fields kind bs (Suc (m + n)) ((drop_bit 3 key, 2) # ts)"
          by (rule message_field [OF v tag len sp Some m(1) n(1)])
        moreover have "Suc (m + n) \<le> b" "b' = b - Suc (m + n)" using c(1) m n by auto
        ultimately show ?thesis by blast
      qed
    qed
  qed
qed

lemma preflight_Ok_iff:
  "preflight bs kind b = Ok b' \<longleftrightarrow> (\<exists>n ts. wire_fields kind bs n ts \<and> n < b \<and> b' = b - Suc n)"
proof (cases b)
  case (Suc c)
  then show ?thesis
    using preflight_sound [of kind bs c b'] preflight_complete [of kind bs _ _ c]
    by (fastforce simp: preflight_def less_Suc_eq_le)
qed (simp add: preflight_def)


section \<open>The two readings of a variable-length integer\<close>

lemma high_bit: "b AND 0x80 = 0 \<longleftrightarrow> b < (128 :: u8)"
proof -
  have "b AND 0x80 = 0 \<longleftrightarrow> \<not> bit b 7" using and_exp_eq_0_iff_not_bit [of b 7] by simp
  also have "bit b 7 \<longleftrightarrow> odd (unat b div 128)"
    using bit_unsigned_iff [of b 7, where ?'a = nat] by (simp add: bit_iff_odd)
  also have "\<dots> \<longleftrightarrow> 128 \<le> unat b"
  proof -
    have "unat b div 128 = (if 128 \<le> unat b then 1 else 0)"
      using byte_lt [of b] by (auto intro: div_nat_eqI simp del: byte_lt)
    then show ?thesis by auto
  qed
  finally show ?thesis by (simp add: word_less_nat_alt not_le)
qed

lemma loops_agree:
  "varint_loop (map (\<lambda>j. 7 * j) [i..<i + k]) n bs = Ok (v, r) \<Longrightarrow>
     \<exists>u. lenient_loop i n (take k bs) = Some (v, i + u) \<and> r = drop u bs"
proof (induction k arbitrary: i n bs)
  case (Suc k)
  have up: "[i..<i + Suc k] = i # [Suc i..<Suc i + k]" by (simp add: upt_conv_Cons del: upt_Suc)
  obtain b rest where bs: "bs = b # rest" using Suc.prems unfolding up by (cases bs) auto
  let ?n = "n OR push_bit (7 * i) (ucast (b AND 127))"
  show ?case
  proof (cases "b < 128")
    case True
    then have "v = ?n" "r = rest" using Suc.prems unfolding up bs by (auto split: if_splits)
    then show ?thesis using True bs by (intro exI [of _ 1]) (simp add: high_bit)
  next
    case False
    then have "varint_loop (map (\<lambda>j. 7 * j) [Suc i..<Suc i + k]) ?n rest = Ok (v, r)"
      using Suc.prems unfolding up bs by (auto split: if_splits)
    from Suc.IH [OF this] obtain u where "lenient_loop (Suc i) ?n (take k rest) = Some (v, Suc i + u)" "r = drop u rest"
      by blast
    then show ?thesis using False bs by (intro exI [of _ "Suc u"]) (simp add: high_bit)
  qed
qed simp

lemma lenient_agrees:
  assumes "varint bs = Ok (v, r)"
  shows "\<exists>u. lenient_varint bs = Some (v, u) \<and> r = drop u bs \<and> 0 < u \<and> u \<le> 10"
proof -
  have "[0, 7, 14, 21, 28, 35, 42, 49, 56, 63] = map (\<lambda>j. 7 * j) [0..<0 + (10 :: nat)]"
    by code_simp
  then obtain u where u: "lenient_varint bs = Some (v, u)" "r = drop u bs"
    using loops_agree [of 0 10 0 bs v r] assms by (auto simp: varint_def lenient_varint_def)
  then have "0 < u \<and> u \<le> 10" using lenient_loop_used [of 0 0 "take 10 bs" v u] by (simp add: lenient_varint_def)
  then show ?thesis using u by blast
qed

lemma scan_step:
  assumes "varint bs = Ok (key, r)" and "drop_bit 3 key \<noteq> 0"
    and "field_skip (drop_bit 3 key) (key AND 7) r 0 inp = Some (length part, 0, inp')" and "r = part @ rest"
  shows "inputs_loop bs 0 inp = inputs_loop rest 0 inp'"
proof -
  obtain u where u: "lenient_varint bs = Some (key, u)" "r = drop u bs" using lenient_agrees [OF assms(1)] by blast
  moreover have "bs \<noteq> []" using assms(1) by auto
  moreover have "\<not> length (part @ rest) < length part" "drop (length part) (part @ rest) = rest" by simp_all
  ultimately show ?thesis
    using assms(2,3,4) by (subst inputs_loop.simps) (simp add: Let_def flip: u(2))
qed

lemma varint_prefix:
  assumes "varint bs = Ok (v, r)"
  shows "\<exists>pre. bs = pre @ r \<and> lenient_varint bs = Some (v, length pre) \<and> 0 < length pre \<and> length pre \<le> 10"
proof -
  obtain u where u: "lenient_varint bs = Some (v, u)" "r = drop u bs" "0 < u" "u \<le> 10"
    using lenient_agrees [OF assms] by blast
  moreover have "u \<le> length bs" using lenient_used [OF u(1)] by simp
  ultimately show ?thesis by (intro exI [of _ "take u bs"]) simp
qed

lemma scan_len:
  assumes "varint bs = Ok (key, r)" and "drop_bit 3 key \<noteq> 0" and "key AND 7 = 2"
    and "varint r = Ok (len, part @ rest)" and "length part = unat len" and "length bs < 2 ^ 63"
  shows "inputs_loop bs 0 inp = inputs_loop rest 0 (inp \<or> drop_bit 3 key = 15)" "length rest < 2 ^ 63"
proof -
  obtain pre where pre: "r = pre @ part @ rest" "lenient_varint r = Some (len, length pre)" "length pre \<le> 10"
    using varint_prefix [OF assms(4)] by blast
  have l: "length r < length bs" by (rule varint_shorter [OF assms(1)])
  then show "length rest < 2 ^ 63" using pre(1) assms(6) by simp
  have "length part < 2 ^ 63" using pre(1) l assms(6) by simp
  then have "unat len + length pre < 2 ^ 64" using pre(3) assms(5) by simp
  then have "field_skip (drop_bit 3 key) (key AND 7) r 0 inp =
      Some (length (pre @ part), 0, inp \<or> drop_bit 3 key = 15)"
    using pre(2) assms(3,5) by (simp add: field_skip_def add.commute)
  from scan_step [OF assms(1,2) this] show "inputs_loop bs 0 inp = inputs_loop rest 0 (inp \<or> drop_bit 3 key = 15)"
    using pre(1) by simp
qed

lemma scan_fields:
  "wire_fields kind bs n ts \<Longrightarrow> length bs < 2 ^ 63 \<Longrightarrow> inputs_loop bs 0 inp = (inp \<or> (15, 2) \<in> set ts)"
proof (induction arbitrary: inp rule: wire_fields.induct)
  case (no_fields kind)
  then show ?case by (simp add: inputs_loop.simps)
next
  case (varint_field bs key r v rest kind n ts)
  obtain pre where pre: "r = pre @ rest" "lenient_varint r = Some (v, length pre)"
    using varint_prefix [OF varint_field.hyps(4)] by blast
  have "field_skip (drop_bit 3 key) (key AND 7) r 0 inp = Some (length pre, 0, inp)"
    using pre(2) varint_field.hyps(3) by (simp add: field_skip_def)
  from scan_step [OF varint_field.hyps(1,2) this pre(1)] have "inputs_loop bs 0 inp = inputs_loop rest 0 inp" .
  moreover have "length rest < 2 ^ 63"
    using varint_field.prems varint_shorter [OF varint_field.hyps(1)] pre(1) by simp
  ultimately show ?case using varint_field.IH by simp
next
  case (fixed_field bs key part rest kind n ts)
  have "field_skip (drop_bit 3 key) (key AND 7) (part @ rest) 0 inp = Some (length part, 0, inp)"
    using fixed_field.hyps(3) by (auto simp: field_skip_def)
  from scan_step [OF fixed_field.hyps(1,2) this refl] have "inputs_loop bs 0 inp = inputs_loop rest 0 inp" .
  moreover have "length rest < 2 ^ 63"
    using fixed_field.prems varint_shorter [OF fixed_field.hyps(1)] by simp
  moreover have "key AND 7 \<noteq> 2" using fixed_field.hyps(3) by auto
  ultimately show ?case using fixed_field.IH by simp
next
  case (bytes_field bs key r len part rest kind n ts)
  note sc = scan_len [OF bytes_field.hyps(1-5) bytes_field.prems]
  show ?case unfolding sc(1) bytes_field.IH [OF sc(2)] by auto
next
  case (message_field bs key r len part rest kind child m us n ts)
  note sc = scan_len [OF message_field.hyps(1-5) message_field.prems]
  show ?case unfolding sc(1) message_field.IH(2) [OF sc(2)] by auto
qed

section \<open>Decoding\<close>

lemma decode_Ok:
  "decode pr bs = Ok p \<longleftrightarrow> length bs \<le> MAX_TRANSACTION_BYTES \<and>
     (\<exists>n ts. wire_fields WTransaction bs n ts \<and> n < MAX_TRANSACTION_MESSAGES) \<and>
     prost_decode pr bs = Some p \<and> prost_encode pr p = bs"
  by (auto simp: decode_def result_simps preflight_Ok_iff)

lemma encode_Ok: "encode pr p = Ok bs \<longleftrightarrow> bs = prost_encode pr p \<and> length bs \<le> MAX_TRANSACTION_BYTES"
  by (auto simp: encode_def)

text \<open>
  C33: the scan that guards message signing never misses a transaction with inputs. Whatever bytes
  the strict decoder accepts, the scan reports inputs exactly when the message has a top-level
  length-delimited field 15, the field that carries the inputs.
\<close>

theorem scan_complete:
  assumes "decode pr bs = Ok p"
  shows "\<exists>n ts. wire_fields WTransaction bs n ts \<and> n < MAX_TRANSACTION_MESSAGES \<and>
    (has_transaction_inputs bs \<longleftrightarrow> (15, 2) \<in> set ts)"
proof -
  obtain n ts where w: "wire_fields WTransaction bs n ts" "n < MAX_TRANSACTION_MESSAGES"
    and len: "length bs \<le> MAX_TRANSACTION_BYTES"
    using assms by (auto simp: decode_Ok)
  have "length bs < 2 ^ 63" using len by (simp add: MAX_TRANSACTION_BYTES_def)
  then show ?thesis using w scan_fields [OF w(1), of False] by (auto simp: has_transaction_inputs_def)
qed

text \<open>A message with a type and empty inputs, and its bytes.\<close>

definition sample_message :: proto_transaction where
  "sample_message = proto_default\<lparr>pt_type := Some 2, pt_tx_ins := Some \<lparr>pi_tx_ins = []\<rparr>\<rparr>"

definition sample_prost :: prost where
  "sample_prost = \<lparr>prost_encode = \<lambda>_. [8, 2, 122, 0], prost_decode = \<lambda>_. Some sample_message\<rparr>"

lemma sample_varints:
  "varint [8, 2, 122, 0] = Ok (8, [2, 122, 0])" "varint [2, 122, 0] = Ok (2, [122, 0])"
  "varint [122, 0] = Ok (122, [0])" "varint [0] = Ok (0, [])"
  by (simp_all add: varint_def)

lemma sample_keys:
  "drop_bit 3 (8 :: u64) = 1" "(8 :: u64) AND 7 = 0" "drop_bit 3 (122 :: u64) = 15" "(122 :: u64) AND 7 = 2"
  by simp_all

lemma sample_wire: "wire_fields WTransaction [8, 2, 122, 0] 1 [(1, 0), (15, 2)]"
proof -
  have "wire_fields WTransaction [122, 0] (Suc (0 + 0)) [(15, 2)]"
    using message_field [OF sample_varints(3), of 0 "[]" "[]" WTransaction WInputs 0 "[]" 0 "[]"]
      sample_varints(4) no_fields sample_keys by (simp add: wire_child_def)
  then show ?thesis
    using varint_field [OF sample_varints(1) _ _ sample_varints(2)] sample_keys by simp
qed

lemma sample_decode: "decode sample_prost [8, 2, 122, 0] = Ok sample_message"
  using sample_wire by (auto simp: decode_Ok sample_prost_def MAX_TRANSACTION_BYTES_def MAX_TRANSACTION_MESSAGES_def)

theorem scan_complete_witness:
  "\<exists>n ts. wire_fields WTransaction [8, 2, 122, 0] n ts \<and> n < MAX_TRANSACTION_MESSAGES \<and>
    (has_transaction_inputs [8, 2, 122, 0] \<longleftrightarrow> (15, 2) \<in> set ts)"
  using scan_complete [OF sample_decode] .

text \<open>
  C34: where prost reads its own encoding of a message back, the bounded encoder and decoder are
  inverse: a message encodes to bytes exactly when these bytes decode to the message. In particular
  there is no second accepted spelling of a message.
\<close>

theorem proto_codec_inverse:
  assumes "prost_decode pr (prost_encode pr p) = Some p"
  shows "encode_proto_transaction pr p = Ok bs \<longleftrightarrow> decode_proto_transaction pr bs = Ok p"
  using assms
  by (auto simp: encode_proto_transaction_def decode_proto_transaction_def decode_Ok rbind_eq_Ok encode_Ok
      preflight_Ok_iff)

theorem proto_codec_inverse_witness:
  "encode_proto_transaction sample_prost sample_message = Ok [8, 2, 122, 0]"
proof -
  have "prost_decode sample_prost (prost_encode sample_prost sample_message) = Some sample_message"
    by (simp add: sample_prost_def)
  from proto_codec_inverse [OF this] show ?thesis
    using sample_decode by (simp add: decode_proto_transaction_def)
qed

end
