(* ===== verification/Crypto.thy ===== *)
theory Crypto
  imports Consensus_Base
begin

text \<open>
  Keys and signatures as the transaction code sees them: \<open>quai-crypto/src/signatures.rs\<close> and the
  public key part of \<open>quai-crypto/src/keys.rs\<close>. Curve points, the two signature schemes and
  Keccak come from third-party crates; the record \<open>k256\<close> holds the operations used of them.
\<close>

section \<open>The third-party operations\<close>

text \<open>
  Points, parsed ECDSA and Schnorr signatures and secret scalars are opaque. Recovery yields the
  compressed encoding of a point. The ordered key aggregate signs and verifies for a list of keys.
\<close>

record ('pt, 'ec, 'sc, 'sk) k256 =
  k_keccak :: "bytes \<Rightarrow> bytes"
  k_point_parse :: "bytes \<Rightarrow> 'pt option"
  k_point_compressed :: "'pt \<Rightarrow> bytes"
  k_point_uncompressed :: "'pt \<Rightarrow> bytes"
  k_ecdsa_parse :: "bytes \<Rightarrow> 'ec option"
  k_ecdsa_bytes :: "'ec \<Rightarrow> bytes"
  k_ecdsa_high :: "'ec \<Rightarrow> bool"
  k_ecdsa_recover :: "bytes \<Rightarrow> 'ec \<Rightarrow> u8 \<Rightarrow> bytes option"
  k_ecdsa_verify :: "'pt \<Rightarrow> bytes \<Rightarrow> 'ec \<Rightarrow> bool"
  k_ecdsa_sign :: "'sk \<Rightarrow> bytes \<Rightarrow> ('ec \<times> u8) option"
  k_schnorr_parse :: "bytes \<Rightarrow> 'sc option"
  k_schnorr_bytes :: "'sc \<Rightarrow> bytes"
  k_schnorr_verify :: "bytes \<Rightarrow> bytes \<Rightarrow> 'sc \<Rightarrow> bool"
  k_schnorr_sign :: "'sk \<Rightarrow> bytes \<Rightarrow> 'sc option"
  k_aggregate_verify :: "'pt list \<Rightarrow> bytes \<Rightarrow> 'sc \<Rightarrow> bool"
  k_aggregate_sign :: "'pt list \<Rightarrow> 'sk list \<Rightarrow> bytes \<Rightarrow> 'sc option"
  k_public_key :: "'sk \<Rightarrow> 'pt"

section \<open>Public keys\<close>

datatype crypto_error =
    CrInvalidScalar
  | CrHashLimit
  | CrInvalidSecretKey
  | CrInvalidKeyCount
  | CrInvalidKeyAggregation
  | CrInvalidSecretKeySet
  | CrInvalidPublicKey
  | CrInvalidSignature
  | CrHighS
  | CrInvalidRecoveryId
  | CrUnsupportedRecoveryId
  | CrSigningFailed
  | CrVerificationFailed
  | CrRandomnessUnavailable
  | CrRandomRequestTooLarge

definition public_key_from_sec1 :: "('pt, 'ec, 'sc, 'sk) k256 \<Rightarrow> bytes \<Rightarrow> ('pt, crypto_error) result" where
  "public_key_from_sec1 k bs =
     (if \<not> (length bs = 33 \<and> (hd bs = 2 \<or> hd bs = 3) \<or> length bs = 65 \<and> hd bs = 4) then Err CrInvalidPublicKey
      else ok_or (k_point_parse k bs) CrInvalidPublicKey)"

definition to_compressed :: "('pt, 'ec, 'sc, 'sk) k256 \<Rightarrow> 'pt \<Rightarrow> bytes" where
  "to_compressed k p = k_point_compressed k p"

definition to_uncompressed :: "('pt, 'ec, 'sc, 'sk) k256 \<Rightarrow> 'pt \<Rightarrow> bytes" where
  "to_uncompressed k p = k_point_uncompressed k p"

definition public_key_address :: "('pt, 'ec, 'sc, 'sk) k256 \<Rightarrow> 'pt \<Rightarrow> address" where
  "public_key_address k p = Address (drop 12 (k_keccak k (drop 1 (to_uncompressed k p))))"

section \<open>Recoverable signatures\<close>

record 'ec recoverable_signature =
  rs_signature :: 'ec
  rs_recovery_id :: u8

text \<open>\<open>RecoveryId::from_byte\<close> accepts zero to three.\<close>

definition from_compact ::
  "('pt, 'ec, 'sc, 'sk) k256 \<Rightarrow> bytes \<Rightarrow> u8 \<Rightarrow> ('ec recoverable_signature, crypto_error) result" where
  "from_compact k bs recovery_id =
     (if 3 < recovery_id then Err CrInvalidRecoveryId
      else rbind (ok_or (k_ecdsa_parse k bs) CrInvalidSignature) (\<lambda>signature.
        if k_ecdsa_high k signature then Err CrHighS
        else Ok \<lparr>rs_signature = signature, rs_recovery_id = recovery_id\<rparr>))"

definition to_compact :: "('pt, 'ec, 'sc, 'sk) k256 \<Rightarrow> 'ec recoverable_signature \<Rightarrow> bytes" where
  "to_compact k sig = k_ecdsa_bytes k (rs_signature sig)"

definition from_eip2098 ::
  "('pt, 'ec, 'sc, 'sk) k256 \<Rightarrow> bytes \<Rightarrow> ('ec recoverable_signature, crypto_error) result" where
  "from_eip2098 k bs =
     (let parity = drop_bit 7 (bs ! 32); compact = bs[32 := bs ! 32 AND 0x7f]
      in from_compact k compact parity)"

definition to_eip2098 ::
  "('pt, 'ec, 'sc, 'sk) k256 \<Rightarrow> 'ec recoverable_signature \<Rightarrow> (bytes, crypto_error) result" where
  "to_eip2098 k sig =
     (if 1 < rs_recovery_id sig then Err CrUnsupportedRecoveryId
      else let bs = to_compact k sig in Ok (bs[32 := bs ! 32 OR push_bit 7 (rs_recovery_id sig)]))"

definition signature_r :: "('pt, 'ec, 'sc, 'sk) k256 \<Rightarrow> 'ec recoverable_signature \<Rightarrow> bytes" where
  "signature_r k sig = take 32 (k_ecdsa_bytes k (rs_signature sig))"

definition signature_s :: "('pt, 'ec, 'sc, 'sk) k256 \<Rightarrow> 'ec recoverable_signature \<Rightarrow> bytes" where
  "signature_s k sig = drop 32 (k_ecdsa_bytes k (rs_signature sig))"

definition from_quais_bytes ::
  "('pt, 'ec, 'sc, 'sk) k256 \<Rightarrow> bytes \<Rightarrow> ('ec recoverable_signature, crypto_error) result" where
  "from_quais_bytes k bs =
     rbind (if bs ! 64 = 0 \<or> bs ! 64 = 1 then Ok (bs ! 64)
            else if bs ! 64 = 27 \<or> bs ! 64 = 28 then Ok (bs ! 64 - 27)
            else Err CrUnsupportedRecoveryId)
       (from_compact k (take 64 bs))"

definition to_quais_bytes ::
  "('pt, 'ec, 'sc, 'sk) k256 \<Rightarrow> 'ec recoverable_signature \<Rightarrow> (bytes, crypto_error) result" where
  "to_quais_bytes k sig =
     (if 1 < rs_recovery_id sig then Err CrUnsupportedRecoveryId
      else Ok (to_compact k sig @ [27 + rs_recovery_id sig]))"

definition recover_prehash ::
  "('pt, 'ec, 'sc, 'sk) k256 \<Rightarrow> 'ec recoverable_signature \<Rightarrow> bytes \<Rightarrow> ('pt, crypto_error) result" where
  "recover_prehash k sig digest =
     rbind (ok_or (k_ecdsa_recover k digest (rs_signature sig) (rs_recovery_id sig)) CrVerificationFailed)
       (public_key_from_sec1 k)"

definition verify_prehash ::
  "('pt, 'ec, 'sc, 'sk) k256 \<Rightarrow> 'ec recoverable_signature \<Rightarrow> bytes \<Rightarrow> 'pt \<Rightarrow> (unit, crypto_error) result" where
  "verify_prehash k sig digest public_key =
     (if \<not> k_ecdsa_verify k public_key digest (rs_signature sig) then Err CrVerificationFailed
      else rbind (recover_prehash k sig digest) (\<lambda>key.
        if key \<noteq> public_key then Err CrVerificationFailed else Ok ()))"

text \<open>The reduction of the digest modulo the group order is part of the third-party signer.\<close>

definition sign_prehash ::
  "('pt, 'ec, 'sc, 'sk) k256 \<Rightarrow> 'sk \<Rightarrow> bytes \<Rightarrow> ('ec recoverable_signature, crypto_error) result" where
  "sign_prehash k key digest =
     rbind (ok_or (k_ecdsa_sign k key digest) CrSigningFailed) (\<lambda>(signature, recovery_id).
       rbind (from_compact k (k_ecdsa_bytes k signature) recovery_id) (\<lambda>sig.
         rbind (recover_prehash k sig digest) (\<lambda>public.
           if public \<noteq> k_public_key k key then Err CrSigningFailed else Ok sig)))"

definition schnorr_from_bytes :: "('pt, 'ec, 'sc, 'sk) k256 \<Rightarrow> bytes \<Rightarrow> ('sc, crypto_error) result" where
  "schnorr_from_bytes k bs = ok_or (k_schnorr_parse k bs) CrInvalidSignature"

section \<open>What is relied on of the crates\<close>

text \<open>
  A parsed signature prints to the 64 bytes it was parsed from and parses from what it prints; a
  signature with a low second scalar has the top bit of that scalar clear; a digest has 32 bytes.
\<close>

definition ecdsa_ok :: "('pt, 'ec, 'sc, 'sk) k256 \<Rightarrow> 'ec \<Rightarrow> bool" where
  "ecdsa_ok k e \<longleftrightarrow> length (k_ecdsa_bytes k e) = 64 \<and> k_ecdsa_parse k (k_ecdsa_bytes k e) = Some e \<and>
     (\<not> k_ecdsa_high k e \<longrightarrow> k_ecdsa_bytes k e ! 32 < 128)"

definition wf_signature :: "('pt, 'ec, 'sc, 'sk) k256 \<Rightarrow> 'ec recoverable_signature \<Rightarrow> bool" where
  "wf_signature k sig \<longleftrightarrow> ecdsa_ok k (rs_signature sig) \<and> \<not> k_ecdsa_high k (rs_signature sig) \<and> rs_recovery_id sig \<le> 3"

lemma from_compact_to_compact: "wf_signature k sig \<Longrightarrow> from_compact k (to_compact k sig) (rs_recovery_id sig) = Ok sig"
  by (simp add: from_compact_def to_compact_def wf_signature_def ecdsa_ok_def not_less)

lemma from_compact_Ok:
  "from_compact k bs v = Ok sig \<longleftrightarrow> v \<le> 3 \<and> k_ecdsa_parse k bs = Some (rs_signature sig) \<and>
     \<not> k_ecdsa_high k (rs_signature sig) \<and> rs_recovery_id sig = v"
  by (cases sig) (auto simp: from_compact_def result_simps not_less)

lemma low_byte: "b < 128 \<Longrightarrow> drop_bit 7 b = (0 :: u8) \<and> b AND 0x7f = b"
proof -
  assume "b < 128"
  then have u: "unat b < 2 ^ 7" by (simp add: word_less_nat_alt)
  have "unat (b div 128) = 0" using u by (simp add: unat_div)
  then have "drop_bit 7 b = 0" by (simp add: drop_bit_eq_div unat_eq_0)
  moreover have "b AND 0x7f = take_bit 7 b" by (simp add: take_bit_eq_mask mask_eq_exp_minus_1)
  moreover have "take_bit 7 b = b"
    by (rule word_unat_eq_iff [THEN iffD2]) (use u in \<open>simp add: unsigned_take_bit_eq take_bit_nat_eq_self\<close>)
  ultimately show ?thesis by simp
qed

lemma parity_byte:
  assumes "b < (128 :: u8)" and "v \<le> 1"
  shows "drop_bit 7 (b OR push_bit 7 v) = v" "(b OR push_bit 7 v) AND 0x7f = b"
proof -
  have v: "v = 0 \<or> v = 1" using assms(2) by (metis le_less word_le_less_eq word_less_1)
  have l: "drop_bit 7 b = 0" "b AND 0x7f = b" using low_byte [OF assms(1)] by simp_all
  show "drop_bit 7 (b OR push_bit 7 v) = v"
    using v l(1) by (auto simp: drop_bit_or)
  show "(b OR push_bit 7 v) AND 0x7f = b"
    using v l(2) by (auto simp: bit.conj_disj_distrib2)
qed

lemma compact_forms:
  assumes "wf_signature k sig" and "rs_recovery_id sig \<le> 1"
  shows "\<exists>e q. to_eip2098 k sig = Ok e \<and> from_eip2098 k e = Ok sig \<and> length e = 64 \<and>
    to_quais_bytes k sig = Ok q \<and> from_quais_bytes k q = Ok sig \<and> length q = 65"
proof -
  let ?c = "to_compact k sig" and ?v = "rs_recovery_id sig"
  have c: "length ?c = 64" "?c ! 32 < 128"
    using assms(1) by (simp_all add: wf_signature_def ecdsa_ok_def to_compact_def)
  have v: "?v = 0 \<or> ?v = 1" using assms(2) by (metis le_less word_le_less_eq word_less_1)
  let ?e = "?c[32 := ?c ! 32 OR push_bit 7 ?v]"
  have ei: "?e ! 32 = ?c ! 32 OR push_bit 7 ?v" using c(1) by simp
  have "?e[32 := ?e ! 32 AND 0x7f] = ?c[32 := ?c ! 32]"
    unfolding ei list_update_overwrite parity_byte(2) [OF c(2) assms(2)] ..
  then have "from_eip2098 k ?e = Ok sig"
    using from_compact_to_compact [OF assms(1)] parity_byte(1) [OF c(2) assms(2)]
    unfolding from_eip2098_def Let_def ei by simp
  moreover have "from_quais_bytes k (?c @ [27 + ?v]) = Ok sig"
    using from_compact_to_compact [OF assms(1)] v c(1) by (auto simp: from_quais_bytes_def nth_append)
  ultimately show ?thesis
    using assms(2) c(1) by (simp add: to_eip2098_def to_quais_bytes_def Let_def not_less)
qed

text \<open>
  C35: a signature with a parity recovery identifier survives both of its wire forms: the compact
  form that folds the parity into the second scalar, and the 65-byte form with a trailing byte.
\<close>

theorem signature_forms_roundtrip:
  assumes "wf_signature k sig" and "rs_recovery_id sig \<le> 1"
  shows "\<exists>e q. to_eip2098 k sig = Ok e \<and> from_eip2098 k e = Ok sig \<and> length e = 64 \<and>
    to_quais_bytes k sig = Ok q \<and> from_quais_bytes k q = Ok sig \<and> length q = 65"
  by (rule compact_forms [OF assms])

text \<open>
  A concrete instance for evaluation: a point is its address, a signature is its 64 bytes, the
  digest keeps the first 32 bytes.
\<close>

definition sample_k256 :: "(bytes, bytes, bytes, bytes) k256" where
  "sample_k256 = \<lparr>
     k_keccak = \<lambda>x. take 32 (x @ replicate 32 0),
     k_point_parse = \<lambda>bs. Some (drop 13 bs),
     k_point_compressed = \<lambda>p. [2] @ replicate 12 0 @ p,
     k_point_uncompressed = \<lambda>p. [4] @ replicate 12 0 @ p @ replicate 32 0,
     k_ecdsa_parse = \<lambda>bs. (if length bs = 64 then Some bs else None),
     k_ecdsa_bytes = \<lambda>e. e,
     k_ecdsa_high = \<lambda>e. 128 \<le> e ! 32,
     k_ecdsa_recover = \<lambda>digest e v. Some ([2] @ replicate 32 0),
     k_ecdsa_verify = \<lambda>p digest e. True,
     k_ecdsa_sign = \<lambda>key digest. Some (replicate 64 1, 0),
     k_schnorr_parse = \<lambda>bs. (if length bs = 64 then Some bs else None),
     k_schnorr_bytes = \<lambda>s. s,
     k_schnorr_verify = \<lambda>x digest s. True,
     k_schnorr_sign = \<lambda>key digest. Some (replicate 64 1),
     k_aggregate_verify = \<lambda>ps digest s. True,
     k_aggregate_sign = \<lambda>ps keys digest. Some (replicate 64 1),
     k_public_key = \<lambda>key. key\<rparr>"

definition sample_signature :: "bytes recoverable_signature" where
  "sample_signature = \<lparr>rs_signature = replicate 64 1, rs_recovery_id = 1\<rparr>"

lemma sample_signature_wf: "wf_signature sample_k256 sample_signature"
  by (simp add: wf_signature_def ecdsa_ok_def sample_k256_def sample_signature_def not_le)

theorem signature_forms_roundtrip_witness:
  "\<exists>e q. to_eip2098 sample_k256 sample_signature = Ok e \<and> from_eip2098 sample_k256 e = Ok sample_signature \<and>
    length e = 64 \<and> to_quais_bytes sample_k256 sample_signature = Ok q \<and>
    from_quais_bytes sample_k256 q = Ok sample_signature \<and> length q = 65"
  using sample_signature_wf
  by (rule signature_forms_roundtrip) (simp add: sample_signature_def)

end
