(* ===== verification/Quai_Tx.thy ===== *)
theory Quai_Tx
  imports Wire Crypto
begin

text \<open>
  Quai account transactions, \<open>quai-consensus/src/quai.rs\<close>, with the slippage type and the
  conversion minimum of \<open>quai-consensus/src/conversion.rs\<close> that signing checks. The prost codec
  and the cryptography are parameters.
\<close>

section \<open>Conversion parameters\<close>

definition MIN_QUAI_CONVERSION_VALUE :: u64 where
  "MIN_QUAI_CONVERSION_VALUE = 10000000000000000000"

datatype conversion_slippage = ConversionSlippage (slippage_value: u16)

definition slippage_new :: "u16 \<Rightarrow> (conversion_slippage, transaction_error) result" where
  "slippage_new value =
     (if \<not> (30 \<le> value \<and> value \<le> 9000) then Err (TxInvalidField ''conversion slippage'')
      else Ok (ConversionSlippage value))"

definition slippage_bytes :: "conversion_slippage \<Rightarrow> bytes" where
  "slippage_bytes s = to_be 2 (unat (slippage_value s))"

text \<open>\<open>u16::from_be_bytes\<close> of the first two bytes of the data.\<close>

definition data_slippage :: "bytes \<Rightarrow> (conversion_slippage, transaction_error) result" where
  "data_slippage d = slippage_new (word_of_nat (be_nat [d ! 0, d ! 1]))"

section \<open>Transactions\<close>

record access_tuple =
  at_address :: address
  at_storage_keys :: "hash32 list"

record quai_transaction =
  qt_chain_id :: u256
  qt_nonce :: u64
  qt_to :: "address option"
  qt_value :: u256
  qt_gas_limit :: u64
  qt_gas_price :: u256
  qt_data :: bytes
  qt_access_list :: "access_tuple list"

definition proto_of_hash :: "hash32 \<Rightarrow> proto_hash" where
  "proto_of_hash h = \<lparr>ph_value = hash_bytes h\<rparr>"

definition proto_of_tuple :: "access_tuple \<Rightarrow> proto_access_tuple" where
  "proto_of_tuple a =
     \<lparr>pat_address = address_bytes (at_address a), pat_storage_key = map proto_of_hash (at_storage_keys a)\<rparr>"

definition quai_protobuf :: "quai_transaction \<Rightarrow> proto_transaction" where
  "quai_protobuf tx = proto_default\<lparr>
     pt_type := Some 0,
     pt_to := map_option address_bytes (qt_to tx),
     pt_nonce := Some (qt_nonce tx),
     pt_value := Some (integer_bytes (qt_value tx)),
     pt_gas := Some (qt_gas_limit tx),
     pt_data := Some (qt_data tx),
     pt_chain_id := Some (integer_bytes (qt_chain_id tx)),
     pt_gas_price := Some (integer_bytes (qt_gas_price tx)),
     pt_access_list := Some \<lparr>pal_access_tuples = map proto_of_tuple (qt_access_list tx)\<rparr>\<rparr>"

definition access_messages :: "access_tuple list \<Rightarrow> (nat, transaction_error) result" where
  "access_messages access =
     try_fold (\<lambda>n a. ok_or (usize_add n (1 + length (at_storage_keys a))) TxTooLarge) 2 access"

definition access_payload :: "nat \<Rightarrow> access_tuple list \<Rightarrow> (nat, transaction_error) result" where
  "access_payload start access =
     try_fold (\<lambda>n a. ok_or
         (Option.bind (usize_mul (length (at_storage_keys a)) 32) (\<lambda>k.
           Option.bind (usize_add n k) (\<lambda>n. usize_add n 20))) TxTooLarge) start access"

definition quai_unsigned_bytes :: "prost \<Rightarrow> quai_transaction \<Rightarrow> (bytes, transaction_error) result" where
  "quai_unsigned_bytes pr tx =
     rbind (access_messages (qt_access_list tx)) (\<lambda>messages.
       rbind (access_payload (length (qt_data tx)) (qt_access_list tx)) (\<lambda>payload.
         if MAX_TRANSACTION_MESSAGES < messages \<or> MAX_TRANSACTION_BYTES < payload then Err TxTooLarge
         else encode pr (quai_protobuf tx)))"

definition quai_signing_digest ::
  "('pt, 'ec, 'sc, 'sk) k256 \<Rightarrow> prost \<Rightarrow> quai_transaction \<Rightarrow> (hash32, transaction_error) result" where
  "quai_signing_digest k pr tx = rbind (quai_unsigned_bytes pr tx) (\<lambda>bs. Ok (Hash32 (k_keccak k bs)))"

definition hash_from_field :: "proto_hash \<Rightarrow> string \<Rightarrow> (hash32, transaction_error) result" where
  "hash_from_field h name =
     (if length (ph_value h) = 32 then Ok (Hash32 (ph_value h)) else Err (TxInvalidField name))"

definition tuple_from_proto :: "proto_access_tuple \<Rightarrow> (access_tuple, transaction_error) result" where
  "tuple_from_proto t =
     rbind (map_err (\<lambda>_. TxInvalidField ''access address'') (address_try_from (pat_address t))) (\<lambda>a.
       rbind (try_map (\<lambda>h. hash_from_field h ''storage key'') (pat_storage_key t)) (\<lambda>keys.
         Ok \<lparr>at_address = a, at_storage_keys = keys\<rparr>))"

definition quai_from_proto :: "proto_transaction \<Rightarrow> (quai_transaction, transaction_error) result" where
  "quai_from_proto p =
     (if pt_type p \<noteq> Some 0 then Err TxWrongType
      else rbind (case pt_to p of
            None \<Rightarrow> Ok None
          | Some b \<Rightarrow> rbind (map_err (\<lambda>_. TxInvalidField ''to'') (address_try_from b)) (\<lambda>a. Ok (Some a)))
        (\<lambda>dest. rbind (ok_or (pt_access_list p) (TxInvalidField ''access_list'')) (\<lambda>l.
          rbind (try_map tuple_from_proto (pal_access_tuples l)) (\<lambda>access.
            rbind (integer_field (pt_chain_id p) ''chain_id'') (\<lambda>chain_id.
              rbind (ok_or (pt_nonce p) (TxInvalidField ''nonce'')) (\<lambda>nonce.
                rbind (integer_field (pt_value p) ''value'') (\<lambda>value.
                  rbind (ok_or (pt_gas p) (TxInvalidField ''gas'')) (\<lambda>gas.
                    rbind (integer_field (pt_gas_price p) ''gas_price'') (\<lambda>gas_price.
                      rbind (ok_or (pt_data p) (TxInvalidField ''data'')) (\<lambda>data.
                        Ok \<lparr>qt_chain_id = chain_id, qt_nonce = nonce, qt_to = dest, qt_value = value,
                            qt_gas_limit = gas, qt_gas_price = gas_price, qt_data = data,
                            qt_access_list = access\<rparr>))))))))))"

definition quai_decode_unsigned :: "prost \<Rightarrow> bytes \<Rightarrow> (quai_transaction, transaction_error) result" where
  "quai_decode_unsigned pr bs =
     rbind (decode pr bs) (\<lambda>p. rbind (quai_from_proto p) (\<lambda>tx.
       rbind (quai_unsigned_bytes pr tx) (\<lambda>b. if b \<noteq> bs then Err TxInvalidEncoding else Ok tx)))"

section \<open>Signatures\<close>

record 'ec signed_quai =
  sq_transaction :: quai_transaction
  sq_signature :: "'ec recoverable_signature"
  sq_from :: quai_address

text \<open>The recipient check: a Qi recipient makes the transaction a conversion request.\<close>

definition check_recipient :: "quai_transaction \<Rightarrow> quai_address \<Rightarrow> (unit, transaction_error) result" where
  "check_recipient tx sender =
     (case qt_to tx of
        None \<Rightarrow> Ok ()
      | Some dest \<Rightarrow>
          rbind (map_err (\<lambda>_. TxInvalidScope) (address_zone dest)) (\<lambda>zone.
            if address_ledger dest = Qi then
              (if zone \<noteq> la_zone sender then Err TxInvalidScope
               else if qt_value tx < ucast MIN_QUAI_CONVERSION_VALUE \<or> length (qt_data tx) \<noteq> 2
               then Err (TxInvalidField ''Quai conversion value or data'')
               else rbind (data_slippage (qt_data tx)) (\<lambda>_. Ok ()))
            else Ok ()))"

definition quai_attach_signature ::
  "('pt, 'ec, 'sc, 'sk) k256 \<Rightarrow> prost \<Rightarrow> quai_transaction \<Rightarrow> 'ec recoverable_signature \<Rightarrow>
     ('ec signed_quai, transaction_error) result" where
  "quai_attach_signature k pr tx signature =
     (if qt_chain_id tx = 0 then Err (TxInvalidField ''chain_id'')
      else if 1 < rs_recovery_id signature then Err TxInvalidSignature
      else rbind (quai_signing_digest k pr tx) (\<lambda>digest.
        rbind (map_err (\<lambda>_. TxInvalidSignature) (recover_prehash k signature (hash_bytes digest))) (\<lambda>public.
          rbind (map_err (\<lambda>_. TxInvalidScope) (quai_address_try_from (public_key_address k public))) (\<lambda>sender.
            rbind (check_recipient tx sender) (\<lambda>_.
              Ok \<lparr>sq_transaction = tx, sq_signature = signature, sq_from = sender\<rparr>)))))"

definition quai_sign ::
  "('pt, 'ec, 'sc, 'sk) k256 \<Rightarrow> prost \<Rightarrow> quai_transaction \<Rightarrow> 'sk \<Rightarrow> ('ec signed_quai, transaction_error) result" where
  "quai_sign k pr tx key =
     rbind (quai_signing_digest k pr tx) (\<lambda>digest.
       rbind (map_err (\<lambda>_. TxInvalidSignature) (sign_prehash k key (hash_bytes digest)))
         (quai_attach_signature k pr tx))"

definition signed_protobuf :: "('pt, 'ec, 'sc, 'sk) k256 \<Rightarrow> 'ec signed_quai \<Rightarrow> proto_transaction" where
  "signed_protobuf k s = (quai_protobuf (sq_transaction s))\<lparr>
     pt_v := Some (integer_bytes (ucast (rs_recovery_id (sq_signature s)))),
     pt_r := Some (integer_bytes (word_of_nat (be_nat (signature_r k (sq_signature s))))),
     pt_s := Some (integer_bytes (word_of_nat (be_nat (signature_s k (sq_signature s)))))\<rparr>"

definition quai_signed_bytes ::
  "('pt, 'ec, 'sc, 'sk) k256 \<Rightarrow> prost \<Rightarrow> 'ec signed_quai \<Rightarrow> (bytes, transaction_error) result" where
  "quai_signed_bytes k pr s = encode pr (signed_protobuf k s)"

definition quai_hash ::
  "('pt, 'ec, 'sc, 'sk) k256 \<Rightarrow> prost \<Rightarrow> 'ec signed_quai \<Rightarrow> (hash32, transaction_error) result" where
  "quai_hash k pr s =
     rbind (quai_signed_bytes k pr s) (\<lambda>bs.
       let h = k_keccak k bs; zone = zone_byte (la_zone (sq_from s));
           h = h[0 := zone]; h = h[1 := h ! 1 AND 0x7f]; h = h[2 := zone]; h = h[3 := h ! 3 AND 0x7f]
       in Ok (Hash32 h))"

definition quai_signed_decode ::
  "('pt, 'ec, 'sc, 'sk) k256 \<Rightarrow> prost \<Rightarrow> bytes \<Rightarrow> ('ec signed_quai, transaction_error) result" where
  "quai_signed_decode k pr bs =
     rbind (decode pr bs) (\<lambda>p. rbind (quai_from_proto p) (\<lambda>tx.
       rbind (integer_field (pt_v p) ''v'') (\<lambda>v.
         if 1 < v then Err TxInvalidSignature
         else rbind (integer_field (pt_r p) ''r'') (\<lambda>r.
           rbind (integer_field (pt_s p) ''s'') (\<lambda>s.
             rbind (map_err (\<lambda>_. TxInvalidSignature)
                 (from_compact k (to_be 32 (unat r) @ to_be 32 (unat s)) (ucast v))) (\<lambda>sig.
               rbind (quai_attach_signature k pr tx sig) (\<lambda>signed.
                 rbind (quai_signed_bytes k pr signed) (\<lambda>b.
                   if b \<noteq> bs then Err TxInvalidEncoding else Ok signed))))))))"

section \<open>The type invariant\<close>

definition wf_tuple :: "access_tuple \<Rightarrow> bool" where
  "wf_tuple a \<longleftrightarrow> wf_address (at_address a) \<and> list_all wf_hash (at_storage_keys a)"

definition wf_quai :: "quai_transaction \<Rightarrow> bool" where
  "wf_quai tx \<longleftrightarrow> (case qt_to tx of None \<Rightarrow> True | Some a \<Rightarrow> wf_address a) \<and> list_all wf_tuple (qt_access_list tx)"

text \<open>The fields of a message that the account decoder reads.\<close>

definition quai_fields where
  "quai_fields p = (pt_type p, pt_to p, pt_nonce p, pt_value p, pt_gas p, pt_data p, pt_chain_id p,
     pt_gas_price p, pt_access_list p)"

interpretation addr: partial_codec wf_address address_bytes address_try_from
  by unfold_locales (auto simp: wf_address_def address_try_from_def split: if_splits)

interpretation hash_field: partial_codec wf_hash proto_of_hash "\<lambda>h. hash_from_field h name" for name
  by unfold_locales (auto simp: wf_hash_def proto_of_hash_def hash_from_field_def split: if_splits)

interpretation tuple: partial_codec wf_tuple proto_of_tuple tuple_from_proto
proof
  fix a
  assume w: "wf_tuple a"
  then have "try_map (\<lambda>h. hash_from_field h ''storage key'') (map proto_of_hash (at_storage_keys a)) = Ok (at_storage_keys a)"
    by (simp add: hash_field.codec_list wf_tuple_def)
  then show "tuple_from_proto (proto_of_tuple a) = Ok a"
    using w by (simp add: tuple_from_proto_def proto_of_tuple_def wf_tuple_def addr.codec_roundtrip)
next
  fix t a
  assume "tuple_from_proto t = Ok a"
  then show "wf_tuple a \<and> proto_of_tuple a = t"
    by (auto simp: tuple_from_proto_def proto_of_tuple_def wf_tuple_def result_simps addr.codec_Ok_iff hash_field.codec_list)
qed

lemma integer_field_Ok: "integer_field b name = Ok n \<longleftrightarrow> b = Some (integer_bytes n)"
  using integer_field_canonical by auto

lemma quai_from_proto_Ok:
  "quai_from_proto p = Ok tx \<longleftrightarrow> wf_quai tx \<and> quai_fields p = quai_fields (quai_protobuf tx)"
proof -
  have to: "(case pt_to p of None \<Rightarrow> Ok None
        | Some b \<Rightarrow> rbind (map_err (\<lambda>_. TxInvalidField ''to'') (address_try_from b)) (\<lambda>a. Ok (Some a))) = Ok d \<longleftrightarrow>
      (case d of None \<Rightarrow> True | Some a \<Rightarrow> wf_address a) \<and> pt_to p = map_option address_bytes d" for d
    by (cases d) (auto simp: result_simps addr.codec_Ok_iff split: option.splits)
  have list: "pt_access_list p = Some \<lparr>pal_access_tuples = ts\<rparr> \<longleftrightarrow>
      (\<exists>l. pt_access_list p = Some l \<and> pal_access_tuples l = ts)" for ts
    by (metis (full_types) proto_access_list.cases proto_access_list.select_convs(1))
  show ?thesis
    unfolding quai_from_proto_def if_eq_Ok rbind_eq_Ok to ok_or_eq integer_field_Ok tuple.codec_list
    by (cases tx) (auto simp: quai_fields_def quai_protobuf_def wf_quai_def proto_default_def list)
qed

section \<open>Signed bytes\<close>

text \<open>
  What is relied on of prost for one message: it reads its own encoding back, and that encoding is
  a well-formed message with no more embedded messages than the decoder admits.
\<close>

definition prost_ok :: "prost \<Rightarrow> proto_transaction \<Rightarrow> bool" where
  "prost_ok pr p \<longleftrightarrow> prost_decode pr (prost_encode pr p) = Some p \<and>
     (\<exists>n ts. wire_fields WTransaction (prost_encode pr p) n ts \<and> n < MAX_TRANSACTION_MESSAGES)"

lemma prost_ok_decode:
  "prost_ok pr p \<Longrightarrow> encode pr p = Ok bs \<Longrightarrow> decode pr bs = Ok p"
  by (auto simp: prost_ok_def encode_Ok decode_Ok)

lemma attach_Ok:
  assumes "quai_attach_signature k pr tx sig = Ok s"
  shows "sq_transaction s = tx \<and> sq_signature s = sig \<and> rs_recovery_id sig \<le> 1 \<and> qt_chain_id tx \<noteq> 0 \<and>
    check_recipient tx (sq_from s) = Ok () \<and>
    (\<exists>digest public. quai_signing_digest k pr tx = Ok digest \<and>
       recover_prehash k sig (hash_bytes digest) = Ok public \<and>
       quai_address_try_from (public_key_address k public) = Ok (sq_from s))"
  using assms by (auto simp: quai_attach_signature_def result_simps not_less split: if_splits)

lemma signed_fields:
  "quai_fields (signed_protobuf k s) = quai_fields (quai_protobuf (sq_transaction s))"
  "pt_v (signed_protobuf k s) = Some (integer_bytes (ucast (rs_recovery_id (sq_signature s))))"
  "pt_r (signed_protobuf k s) = Some (integer_bytes (word_of_nat (be_nat (signature_r k (sq_signature s)))))"
  "pt_s (signed_protobuf k s) = Some (integer_bytes (word_of_nat (be_nat (signature_s k (sq_signature s)))))"
  by (simp_all add: signed_protobuf_def quai_fields_def)

lemma scalar_bytes:
  assumes "length b = 32"
  shows "to_be 32 (unat (word_of_nat (be_nat b) :: u256)) = b"
proof -
  have "be_nat b < 256 ^ 32" using be_nat_lt [of b] assms by simp
  also have "(256 :: nat) ^ 32 = 2 ^ LENGTH(256)" by simp
  finally have "unat (word_of_nat (be_nat b) :: u256) = be_nat b" by (rule unat_of_nat_small)
  then show ?thesis using to_be_be_nat [of b] assms by simp
qed

lemma compact_of_scalars:
  assumes "wf_signature k sig"
  shows "to_be 32 (unat (word_of_nat (be_nat (signature_r k sig)) :: u256)) @
    to_be 32 (unat (word_of_nat (be_nat (signature_s k sig)) :: u256)) = to_compact k sig"
  using assms scalar_bytes [of "signature_r k sig"] scalar_bytes [of "signature_s k sig"]
  by (simp add: wf_signature_def ecdsa_ok_def signature_r_def signature_s_def to_compact_def)

lemma recovery_cast: "v \<le> (1 :: u8) \<Longrightarrow> \<not> (1 :: u256) < ucast v \<and> ucast (ucast v :: u256) = v"
proof -
  assume "v \<le> 1"
  then have "v = 0 \<or> v = 1" by (metis le_less word_le_less_eq word_less_1)
  then show ?thesis by auto
qed

lemma signed_decode_iff:
  assumes "ecdsa_ok k (rs_signature (sq_signature s))" and "prost_ok pr (signed_protobuf k s)"
  shows "quai_signed_decode k pr bs = Ok s \<longleftrightarrow>
    wf_quai (sq_transaction s) \<and> wf_signature k (sq_signature s) \<and>
    quai_attach_signature k pr (sq_transaction s) (sq_signature s) = Ok s \<and> quai_signed_bytes k pr s = Ok bs"
    (is "_ \<longleftrightarrow> ?valid")
proof
  assume "quai_signed_decode k pr bs = Ok s"
  then obtain p tx v r t sig where p: "quai_from_proto p = Ok tx"
    and c: "from_compact k (to_be 32 (unat (r :: u256)) @ to_be 32 (unat (t :: u256))) (ucast (v :: u256)) = Ok sig"
    and a: "quai_attach_signature k pr tx sig = Ok s" and b: "quai_signed_bytes k pr s = Ok bs"
    by (auto simp: quai_signed_decode_def result_simps split: if_splits)
  note s = attach_Ok [OF a]
  have "wf_signature k sig"
    using assms(1) c s by (auto simp: wf_signature_def from_compact_Ok)
  then show ?valid using p a b s by (simp add: quai_from_proto_Ok)
next
  assume v: ?valid
  note s = attach_Ok [of k pr "sq_transaction s" "sq_signature s" s]
  have id: "rs_recovery_id (sq_signature s) \<le> 1" using v s by blast
  have d: "decode pr bs = Ok (signed_protobuf k s)"
    using prost_ok_decode [OF assms(2)] v by (simp add: quai_signed_bytes_def)
  have t: "quai_from_proto (signed_protobuf k s) = Ok (sq_transaction s)"
    unfolding quai_from_proto_Ok using v by (simp add: signed_fields(1))
  have c: "from_compact k (to_be 32 (unat (word_of_nat (be_nat (signature_r k (sq_signature s))) :: u256)) @
      to_be 32 (unat (word_of_nat (be_nat (signature_s k (sq_signature s))) :: u256))) (rs_recovery_id (sq_signature s)) =
      Ok (sq_signature s)"
    using v compact_of_scalars from_compact_to_compact by metis
  show "quai_signed_decode k pr bs = Ok s"
    unfolding quai_signed_decode_def d rbind_Inr t signed_fields(2-4) integer_field_roundtrip
    using recovery_cast [OF id] c v by simp
qed

text \<open>
  C6: the signed decoder accepts exactly the canonical bytes of validly signed transactions. It
  returns a signed transaction from some bytes exactly when the transaction is well formed, the
  signature has a low scalar and a parity recovery identifier, attaching it to the payload recovers
  this very sender with every signing rule satisfied, and the bytes are its signed bytes.
\<close>

theorem quai_signed_decode_exact:
  assumes "ecdsa_ok k (rs_signature (sq_signature s))" and "prost_ok pr (signed_protobuf k s)"
  shows "quai_signed_decode k pr bs = Ok s \<longleftrightarrow>
    wf_quai (sq_transaction s) \<and> wf_signature k (sq_signature s) \<and>
    quai_attach_signature k pr (sq_transaction s) (sq_signature s) = Ok s \<and> quai_signed_bytes k pr s = Ok bs"
  by (rule signed_decode_iff [OF assms])

text \<open>A transfer of one unit on chain 9, and a codec that knows its message.\<close>

definition sample_quai :: quai_transaction where
  "sample_quai = \<lparr>qt_chain_id = 9, qt_nonce = 0, qt_to = Some address_zero, qt_value = 1, qt_gas_limit = 21000,
     qt_gas_price = 1, qt_data = [], qt_access_list = []\<rparr>"

definition sample_signed :: "bytes signed_quai" where
  "sample_signed = \<lparr>sq_transaction = sample_quai, sq_signature = sample_signature,
     sq_from = \<lparr>la_address = address_zero, la_zone = Cyprus1\<rparr>\<rparr>"

definition quai_prost :: prost where
  "quai_prost = \<lparr>prost_encode = \<lambda>p. [8, 0],
     prost_decode = \<lambda>bs. Some (if bs = [] then proto_default else signed_protobuf sample_k256 sample_signed)\<rparr>"

lemma quai_prost_ok: "prost_ok quai_prost (signed_protobuf sample_k256 sample_signed)"
proof -
  have "varint [8, 0] = Ok (8, [0])" "varint [0] = Ok (0, [])" by (simp_all add: varint_def)
  then have "wire_fields WTransaction [8, 0] 0 [(1, 0)]"
    using varint_field [of "[8, 0]" 8 "[0]" 0 "[]" WTransaction 0 "[]"] no_fields sample_keys by simp
  then show ?thesis by (auto simp: prost_ok_def quai_prost_def MAX_TRANSACTION_MESSAGES_def)
qed

lemma sample_attach: "quai_attach_signature sample_k256 quai_prost sample_quai sample_signature = Ok sample_signed"
proof -
  have "quai_signing_digest sample_k256 quai_prost sample_quai = Ok (Hash32 ([8, 0] @ replicate 30 0))"
    by (simp add: quai_signing_digest_def quai_unsigned_bytes_def access_messages_def access_payload_def sample_quai_def
        encode_def quai_prost_def sample_k256_def MAX_TRANSACTION_MESSAGES_def MAX_TRANSACTION_BYTES_def)
  moreover have "recover_prehash sample_k256 sample_signature d = Ok (replicate 20 0)" for d
    by (simp add: recover_prehash_def public_key_from_sec1_def sample_k256_def)
  moreover have "quai_address_try_from (public_key_address sample_k256 (replicate 20 0)) =
      Ok \<lparr>la_address = address_zero, la_zone = Cyprus1\<rparr>"
    by (simp add: public_key_address_def to_uncompressed_def sample_k256_def quai_address_try_from_def
        ledger_address_try_from_def address_zone_def address_ledger_def address_zero_def zone_from_byte_def)
  ultimately show ?thesis
    by (simp add: quai_attach_signature_def sample_quai_def sample_signature_def sample_signed_def check_recipient_def
        address_zone_def address_ledger_def address_zero_def zone_from_byte_def)
qed

theorem quai_signed_decode_exact_witness:
  "quai_signed_decode sample_k256 quai_prost [8, 0] = Ok sample_signed"
proof -
  have e: "ecdsa_ok sample_k256 (rs_signature (sq_signature sample_signed))"
    using sample_signature_wf by (simp add: wf_signature_def sample_signed_def)
  have "wf_quai (sq_transaction sample_signed)"
    by (simp add: sample_signed_def sample_quai_def wf_quai_def wf_address_def address_zero_def)
  moreover have "wf_signature sample_k256 (sq_signature sample_signed)"
    using sample_signature_wf by (simp add: sample_signed_def)
  moreover have "quai_attach_signature sample_k256 quai_prost (sq_transaction sample_signed) (sq_signature sample_signed) =
      Ok sample_signed"
    using sample_attach by (simp add: sample_signed_def)
  moreover have "quai_signed_bytes sample_k256 quai_prost sample_signed = Ok [8, 0]"
    by (simp add: quai_signed_bytes_def encode_def quai_prost_def MAX_TRANSACTION_BYTES_def)
  ultimately show ?thesis
    using quai_signed_decode_exact [OF e quai_prost_ok, of "[8, 0]"] by blast
qed

end
