(* ===== verification/Qi_Tx.thy ===== *)
theory Qi_Tx
  imports Quai_Tx
begin

text \<open>
  Qi transactions, \<open>quai-consensus/src/qi.rs\<close>: the validation shared by ordinary transfers,
  conversions and wrappings, the message form, and signing and verification over the ordered
  inputs. Qi denominations and outpoints are in \<open>Consensus_Base\<close>. Ordered sets are sets.
\<close>

section \<open>Transactions\<close>

datatype qi_mode = Ordinary | Conversion | Wrapping

record 'pt qi_input =
  qi_previous_output :: outpoint
  qi_public_key :: 'pt

record qi_output =
  qo_address :: address
  qo_denomination :: denomination

record 'pt qi_transaction =
  qx_chain_id :: u256
  qx_inputs :: "'pt qi_input list"
  qx_outputs :: "qi_output list"
  qx_data :: bytes

section \<open>Validation\<close>

definition message_count :: "nat \<Rightarrow> nat \<Rightarrow> (nat, transaction_error) result" where
  "message_count inputs outputs =
     ok_or (Option.bind (usize_mul inputs 3) (\<lambda>n. Option.bind (usize_add n outputs) (\<lambda>n. usize_add n 3))) TxTooLarge"

definition check_wrapping :: "'pt qi_transaction \<Rightarrow> zone \<Rightarrow> (unit, transaction_error) result" where
  "check_wrapping tx origin =
     rbind (map_err (\<lambda>_. TxInvalidScope) (address_try_from (qx_data tx))) (\<lambda>a.
       rbind (map_err (\<lambda>_. TxInvalidScope) (quai_address_try_from a)) (\<lambda>owner.
         if qx_chain_id tx = 0 \<or> la_zone owner \<noteq> origin then Err TxInvalidScope else Ok ()))"

definition check_conversion :: "'pt qi_transaction \<Rightarrow> zone \<Rightarrow> (unit, transaction_error) result" where
  "check_conversion tx origin =
     (if qx_chain_id tx = 0 \<or> length (qx_data tx) \<noteq> 22 then Err (TxInvalidField ''conversion chain or data'')
      else rbind (data_slippage (qx_data tx)) (\<lambda>_.
        rbind (map_err (\<lambda>_. TxInvalidScope) (address_try_from (drop 2 (qx_data tx)))) (\<lambda>a.
          rbind (map_err (\<lambda>_. TxInvalidScope) (qi_address_try_from a)) (\<lambda>refund.
            if la_zone refund \<noteq> origin then Err TxInvalidScope else Ok ()))))"

definition input_step ::
  "('pt, 'ec, 'sc, 'sk) k256 \<Rightarrow> zone \<Rightarrow> outpoint set \<times> address set \<Rightarrow> 'pt qi_input \<Rightarrow>
     (outpoint set \<times> address set, transaction_error) result" where
  "input_step k origin st input =
     (case st of (seen, addresses) \<Rightarrow>
        if qi_previous_output input \<in> seen then Err (TxInvalidField ''duplicate outpoint'')
        else
          let h = hash_bytes (op_hash (qi_previous_output input))
          in rbind (map_err (\<lambda>_. TxInvalidScope) (qi_address_try_from (public_key_address k (qi_public_key input))))
               (\<lambda>a. if h ! 2 \<noteq> zone_byte origin \<or> h = replicate 32 0 \<or> la_zone a \<noteq> origin then Err TxInvalidScope
                    else Ok (insert (qi_previous_output input) seen, insert (la_address a) addresses)))"

definition output_step ::
  "qi_mode \<Rightarrow> zone \<Rightarrow> address set \<times> address option \<Rightarrow> qi_output \<Rightarrow>
     (address set \<times> address option, transaction_error) result" where
  "output_step mode origin st output =
     (case st of (addresses, destination) \<Rightarrow>
        rbind (map_err (\<lambda>_. TxInvalidScope) (address_zone (qo_address output))) (\<lambda>zone.
          if address_ledger (qo_address output) = Quai then
            (if mode = Ordinary then Err (TxInvalidField ''conversion requires explicit builder'')
             else if zone \<noteq> origin \<or> (case destination of None \<Rightarrow> False | Some d \<Rightarrow> d \<noteq> qo_address output)
             then Err TxInvalidScope
             else Ok (addresses, Some (qo_address output)))
          else if mode \<noteq> Ordinary \<and> zone \<noteq> origin then Err TxInvalidScope
          else if qo_address output \<in> addresses then Err (TxInvalidField ''reused output address'')
          else Ok (insert (qo_address output) addresses, destination)))"

definition validate_for ::
  "('pt, 'ec, 'sc, 'sk) k256 \<Rightarrow> 'pt qi_transaction \<Rightarrow> qi_mode \<Rightarrow> (zone, transaction_error) result" where
  "validate_for k tx mode =
     (if qx_inputs tx = [] \<or> qx_outputs tx = [] then Err (TxInvalidField ''empty inputs or outputs'')
      else rbind (message_count (length (qx_inputs tx)) (length (qx_outputs tx))) (\<lambda>messages.
        if MAX_TRANSACTION_MESSAGES < messages \<or> 65535 < length (qx_inputs tx) \<or> 65535 < length (qx_outputs tx) \<or>
           MAX_TRANSACTION_BYTES < length (qx_data tx)
        then Err TxTooLarge
        else rbind (map_err (\<lambda>_. TxInvalidScope)
              (zone_from_byte (hash_bytes (op_hash (qi_previous_output (hd (qx_inputs tx)))) ! 2))) (\<lambda>origin.
          rbind (if mode = Wrapping then check_wrapping tx origin else Ok ()) (\<lambda>_.
            rbind (if mode = Conversion then check_conversion tx origin else Ok ()) (\<lambda>_.
              rbind (try_fold (input_step k origin) ({}, {}) (qx_inputs tx)) (\<lambda>(seen, addresses).
                rbind (try_fold (output_step mode origin) (addresses, None) (qx_outputs tx)) (\<lambda>(_, destination).
                  if mode \<noteq> Ordinary \<and> destination = None then Err (TxInvalidField ''missing conversion output'')
                  else Ok origin)))))))"

definition origin_zone :: "('pt, 'ec, 'sc, 'sk) k256 \<Rightarrow> 'pt qi_transaction \<Rightarrow> (zone, transaction_error) result" where
  "origin_zone k tx = validate_for k tx Ordinary"

section \<open>The message form\<close>

definition proto_of_input :: "('pt, 'ec, 'sc, 'sk) k256 \<Rightarrow> 'pt qi_input \<Rightarrow> proto_input" where
  "proto_of_input k i =
     \<lparr>pi_previous_out_point = Some
        \<lparr>po_hash = Some (proto_of_hash (op_hash (qi_previous_output i))),
         po_index = Some (ucast (op_index (qi_previous_output i)))\<rparr>,
      pi_pub_key = Some (to_compressed k (qi_public_key i))\<rparr>"

definition proto_of_output :: "qi_output \<Rightarrow> proto_output" where
  "proto_of_output out =
     \<lparr>pu_denomination = Some (ucast (denomination_index (qo_denomination out))),
      pu_address = Some (address_bytes (qo_address out)), pu_lock = Some []\<rparr>"

definition qi_message :: "('pt, 'ec, 'sc, 'sk) k256 \<Rightarrow> 'pt qi_transaction \<Rightarrow> proto_transaction" where
  "qi_message k tx = proto_default\<lparr>
     pt_type := Some 2,
     pt_chain_id := Some (integer_bytes (qx_chain_id tx)),
     pt_data := Some (qx_data tx),
     pt_tx_ins := Some \<lparr>pi_tx_ins = map (proto_of_input k) (qx_inputs tx)\<rparr>,
     pt_tx_outs := Some \<lparr>pu_tx_outs = map proto_of_output (qx_outputs tx)\<rparr>\<rparr>"

definition protobuf_for ::
  "('pt, 'ec, 'sc, 'sk) k256 \<Rightarrow> 'pt qi_transaction \<Rightarrow> qi_mode \<Rightarrow> (proto_transaction, transaction_error) result" where
  "protobuf_for k tx mode = rbind (validate_for k tx mode) (\<lambda>_. Ok (qi_message k tx))"

definition qi_unsigned_bytes ::
  "('pt, 'ec, 'sc, 'sk) k256 \<Rightarrow> prost \<Rightarrow> 'pt qi_transaction \<Rightarrow> (bytes, transaction_error) result" where
  "qi_unsigned_bytes k pr tx = rbind (protobuf_for k tx Ordinary) (encode pr)"

definition qi_signing_digest ::
  "('pt, 'ec, 'sc, 'sk) k256 \<Rightarrow> prost \<Rightarrow> 'pt qi_transaction \<Rightarrow> (hash32, transaction_error) result" where
  "qi_signing_digest k pr tx = rbind (qi_unsigned_bytes k pr tx) (\<lambda>bs. Ok (Hash32 (k_keccak k bs)))"

definition input_from_proto ::
  "('pt, 'ec, 'sc, 'sk) k256 \<Rightarrow> proto_input \<Rightarrow> ('pt qi_input, transaction_error) result" where
  "input_from_proto k i =
     rbind (ok_or (pi_previous_out_point i) (TxInvalidField ''outpoint'')) (\<lambda>point.
       rbind (ok_or (po_hash point) (TxInvalidField ''outpoint hash'')) (\<lambda>h.
         rbind (hash_from_field h ''outpoint hash'') (\<lambda>hash.
           rbind (ok_or (po_index point) (TxInvalidField ''outpoint index'')) (\<lambda>n.
             rbind (ok_or (checked_cast n) (TxInvalidField ''outpoint index'')) (\<lambda>index.
               rbind (ok_or (pi_pub_key i) (TxInvalidField ''public key'')) (\<lambda>key.
                 rbind (map_err (\<lambda>_. TxInvalidField ''public key'') (public_key_from_sec1 k key)) (\<lambda>public_key.
                   Ok \<lparr>qi_previous_output = \<lparr>op_hash = hash, op_index = index\<rparr>, qi_public_key = public_key\<rparr>)))))))"

definition output_from_proto :: "proto_output \<Rightarrow> (qi_output, transaction_error) result" where
  "output_from_proto out =
     rbind (integer_field (pu_lock out) ''lock'') (\<lambda>lock.
       if lock \<noteq> 0 then Err (TxInvalidField ''nonzero user output lock'')
       else rbind (ok_or (pu_denomination out) (TxInvalidField ''denomination'')) (\<lambda>n.
         rbind (ok_or (checked_cast n) (TxInvalidField ''denomination'')) (\<lambda>d.
           rbind (denomination_new d) (\<lambda>denomination.
             rbind (ok_or (pu_address out) (TxInvalidField ''output address'')) (\<lambda>b.
               rbind (map_err (\<lambda>_. TxInvalidField ''output address'') (address_try_from b)) (\<lambda>a.
                 Ok \<lparr>qo_address = a, qo_denomination = denomination\<rparr>))))))"

definition from_proto_for ::
  "('pt, 'ec, 'sc, 'sk) k256 \<Rightarrow> proto_transaction \<Rightarrow> qi_mode \<Rightarrow> ('pt qi_transaction, transaction_error) result" where
  "from_proto_for k p mode =
     (if pt_type p \<noteq> Some 2 then Err TxWrongType
      else rbind (ok_or (pt_tx_ins p) (TxInvalidField ''inputs'')) (\<lambda>ins.
        rbind (try_map (input_from_proto k) (pi_tx_ins ins)) (\<lambda>inputs.
          rbind (ok_or (pt_tx_outs p) (TxInvalidField ''outputs'')) (\<lambda>outs.
            rbind (try_map output_from_proto (pu_tx_outs outs)) (\<lambda>outputs.
              rbind (integer_field (pt_chain_id p) ''chain_id'') (\<lambda>chain_id.
                rbind (ok_or (pt_data p) (TxInvalidField ''data'')) (\<lambda>data.
                  let tx = \<lparr>qx_chain_id = chain_id, qx_inputs = inputs, qx_outputs = outputs, qx_data = data\<rparr>
                  in rbind (validate_for k tx mode) (\<lambda>_. Ok tx))))))))"

definition qi_decode_unsigned ::
  "('pt, 'ec, 'sc, 'sk) k256 \<Rightarrow> prost \<Rightarrow> bytes \<Rightarrow> ('pt qi_transaction, transaction_error) result" where
  "qi_decode_unsigned k pr bs =
     rbind (decode pr bs) (\<lambda>p. rbind (from_proto_for k p Ordinary) (\<lambda>tx.
       rbind (qi_unsigned_bytes k pr tx) (\<lambda>b. if b \<noteq> bs then Err TxInvalidEncoding else Ok tx)))"

section \<open>Signing and verification\<close>

definition validate_ordinary_signing :: "'pt qi_transaction \<Rightarrow> (unit, transaction_error) result" where
  "validate_ordinary_signing tx =
     (if qx_data tx \<noteq> [] then Err (TxInvalidField
        ''ordinary Qi transfers require empty data; conversion/wrapping needs a qualified builder'')
      else if qx_chain_id tx = 0 then Err (TxInvalidField ''chain_id'')
      else Ok ())"

definition mode_digest ::
  "('pt, 'ec, 'sc, 'sk) k256 \<Rightarrow> prost \<Rightarrow> 'pt qi_transaction \<Rightarrow> qi_mode \<Rightarrow> (bytes, transaction_error) result" where
  "mode_digest k pr tx mode =
     rbind (protobuf_for k tx mode) (\<lambda>p. rbind (encode pr p) (\<lambda>bs. Ok (k_keccak k bs)))"

definition sign_local_for ::
  "('pt, 'ec, 'sc, 'sk) k256 \<Rightarrow> prost \<Rightarrow> 'pt qi_transaction \<Rightarrow> 'sk list \<Rightarrow> qi_mode \<Rightarrow> ('sc, transaction_error) result" where
  "sign_local_for k pr tx keys mode =
     rbind (validate_for k tx mode) (\<lambda>_.
       rbind (if mode = Ordinary then validate_ordinary_signing tx else Ok ()) (\<lambda>_.
         if length keys \<noteq> length (qx_inputs tx) \<or>
            list_ex (\<lambda>(key, input). k_public_key k key \<noteq> qi_public_key input) (zip keys (qx_inputs tx))
         then Err TxInvalidSignature
         else rbind (mode_digest k pr tx mode) (\<lambda>digest.
           if length keys = 1 then ok_or (k_schnorr_sign k (hd keys) digest) TxInvalidSignature
           else ok_or (k_aggregate_sign k (map qi_public_key (qx_inputs tx)) keys digest) TxInvalidSignature)))"

definition verify_signature_for ::
  "('pt, 'ec, 'sc, 'sk) k256 \<Rightarrow> prost \<Rightarrow> 'pt qi_transaction \<Rightarrow> 'sc \<Rightarrow> qi_mode \<Rightarrow> (unit, transaction_error) result" where
  "verify_signature_for k pr tx signature mode =
     rbind (validate_for k tx mode) (\<lambda>_.
       rbind (if mode = Ordinary then validate_ordinary_signing tx else Ok ()) (\<lambda>_.
         rbind (mode_digest k pr tx mode) (\<lambda>digest.
           if 1 < length (qx_inputs tx) then
             (if k_aggregate_verify k (map qi_public_key (qx_inputs tx)) digest signature then Ok ()
              else Err TxInvalidSignature)
           else
             let x = drop 1 (to_compressed k (qi_public_key (hd (qx_inputs tx))))
             in if length x \<noteq> 32 then Err TxInvalidSignature
                else if k_schnorr_verify k x digest signature then Ok ()
                else Err TxInvalidSignature)))"

record ('pt, 'sc) signed_qi =
  sx_transaction :: "'pt qi_transaction"
  sx_signature :: 'sc

definition qi_attach_signature ::
  "('pt, 'ec, 'sc, 'sk) k256 \<Rightarrow> prost \<Rightarrow> 'pt qi_transaction \<Rightarrow> 'sc \<Rightarrow> (('pt, 'sc) signed_qi, transaction_error) result" where
  "qi_attach_signature k pr tx signature =
     rbind (verify_signature_for k pr tx signature Ordinary)
       (\<lambda>_. Ok \<lparr>sx_transaction = tx, sx_signature = signature\<rparr>)"

definition attach_single_signature ::
  "('pt, 'ec, 'sc, 'sk) k256 \<Rightarrow> prost \<Rightarrow> 'pt qi_transaction \<Rightarrow> 'sc \<Rightarrow> (('pt, 'sc) signed_qi, transaction_error) result" where
  "attach_single_signature k pr tx signature =
     (if length (qx_inputs tx) \<noteq> 1 then Err (TxInvalidField ''expected single input'')
      else qi_attach_signature k pr tx signature)"

definition sign_single ::
  "('pt, 'ec, 'sc, 'sk) k256 \<Rightarrow> prost \<Rightarrow> 'pt qi_transaction \<Rightarrow> 'sk \<Rightarrow> (('pt, 'sc) signed_qi, transaction_error) result" where
  "sign_single k pr tx key =
     rbind (validate_for k tx Ordinary) (\<lambda>_.
       rbind (validate_ordinary_signing tx) (\<lambda>_.
         if length (qx_inputs tx) \<noteq> 1 then Err TxMultiInputSigningUnavailable
         else if k_public_key k key \<noteq> qi_public_key (hd (qx_inputs tx)) then Err TxInvalidSignature
         else rbind (qi_signing_digest k pr tx) (\<lambda>digest.
           rbind (ok_or (k_schnorr_sign k key (hash_bytes digest)) TxInvalidSignature)
             (attach_single_signature k pr tx))))"

definition sign_local ::
  "('pt, 'ec, 'sc, 'sk) k256 \<Rightarrow> prost \<Rightarrow> 'pt qi_transaction \<Rightarrow> 'sk list \<Rightarrow> (('pt, 'sc) signed_qi, transaction_error) result" where
  "sign_local k pr tx keys = rbind (sign_local_for k pr tx keys Ordinary) (qi_attach_signature k pr tx)"

text \<open>The signed message of a mode, and the transaction identifier that carries the origin and the Qi bits.\<close>

definition qi_signed_message ::
  "('pt, 'ec, 'sc, 'sk) k256 \<Rightarrow> 'pt qi_transaction \<Rightarrow> 'sc \<Rightarrow> proto_transaction" where
  "qi_signed_message k tx signature = (qi_message k tx)\<lparr>pt_signature := Some (k_schnorr_bytes k signature)\<rparr>"

definition signed_bytes_for ::
  "('pt, 'ec, 'sc, 'sk) k256 \<Rightarrow> prost \<Rightarrow> 'pt qi_transaction \<Rightarrow> 'sc \<Rightarrow> qi_mode \<Rightarrow> (bytes, transaction_error) result" where
  "signed_bytes_for k pr tx signature mode =
     rbind (protobuf_for k tx mode) (\<lambda>p.
       encode pr (p\<lparr>pt_signature := Some (k_schnorr_bytes k signature)\<rparr>))"

definition qi_signed_bytes ::
  "('pt, 'ec, 'sc, 'sk) k256 \<Rightarrow> prost \<Rightarrow> ('pt, 'sc) signed_qi \<Rightarrow> (bytes, transaction_error) result" where
  "qi_signed_bytes k pr s = signed_bytes_for k pr (sx_transaction s) (sx_signature s) Ordinary"

definition located_hash :: "u8 \<Rightarrow> bytes \<Rightarrow> hash32" where
  "located_hash zone h =
     (let h = h[0 := zone]; h = h[1 := h ! 1 OR 0x80]; h = h[2 := zone]; h = h[3 := h ! 3 OR 0x80] in Hash32 h)"

definition qi_hash ::
  "('pt, 'ec, 'sc, 'sk) k256 \<Rightarrow> prost \<Rightarrow> ('pt, 'sc) signed_qi \<Rightarrow> (hash32, transaction_error) result" where
  "qi_hash k pr s =
     rbind (validate_for k (sx_transaction s) Ordinary) (\<lambda>origin.
       rbind (qi_signed_bytes k pr s) (\<lambda>bs. Ok (located_hash (zone_byte origin) (k_keccak k bs))))"

text \<open>The 64-byte signature field of a message.\<close>

definition signature_field ::
  "('pt, 'ec, 'sc, 'sk) k256 \<Rightarrow> proto_transaction \<Rightarrow> ('sc, transaction_error) result" where
  "signature_field k p =
     rbind (ok_or (pt_signature p) TxInvalidSignature) (\<lambda>raw.
       if length raw \<noteq> 64 then Err TxInvalidSignature
       else map_err (\<lambda>_. TxInvalidSignature) (schnorr_from_bytes k raw))"

definition qi_signed_decode ::
  "('pt, 'ec, 'sc, 'sk) k256 \<Rightarrow> prost \<Rightarrow> bytes \<Rightarrow> (('pt, 'sc) signed_qi, transaction_error) result" where
  "qi_signed_decode k pr bs =
     rbind (decode pr bs) (\<lambda>p. rbind (from_proto_for k p Ordinary) (\<lambda>tx.
       rbind (signature_field k p) (\<lambda>signature.
         rbind (qi_attach_signature k pr tx signature) (\<lambda>signed.
           rbind (qi_signed_bytes k pr signed) (\<lambda>b.
             if b \<noteq> bs then Err TxInvalidEncoding else Ok signed)))))"

section \<open>What validation establishes\<close>

abbreviation input_address :: "('pt, 'ec, 'sc, 'sk) k256 \<Rightarrow> 'pt qi_input \<Rightarrow> address" where
  "input_address k i \<equiv> public_key_address k (qi_public_key i)"

text \<open>An address on a ledger in a zone.\<close>

definition located :: "ledger \<Rightarrow> zone \<Rightarrow> address \<Rightarrow> bool" where
  "located l z a \<longleftrightarrow> address_ledger a = l \<and> address_zone a = Ok z"

definition input_ok :: "('pt, 'ec, 'sc, 'sk) k256 \<Rightarrow> zone \<Rightarrow> 'pt qi_input \<Rightarrow> bool" where
  "input_ok k origin i \<longleftrightarrow> located Qi origin (input_address k i) \<and>
     hash_bytes (op_hash (qi_previous_output i)) ! 2 = zone_byte origin \<and>
     hash_bytes (op_hash (qi_previous_output i)) \<noteq> replicate 32 0"

abbreviation ledger_outputs :: "ledger \<Rightarrow> qi_output list \<Rightarrow> address list" where
  "ledger_outputs l outs \<equiv> map qo_address (filter (\<lambda>out. address_ledger (qo_address out) = l) outs)"

lemma ledger_try_from_Ok:
  "ledger_address_try_from l a = Ok t \<longleftrightarrow> t = \<lparr>la_address = a, la_zone = la_zone t\<rparr> \<and> located l (la_zone t) a"
  by (auto simp: ledger_address_try_from_def located_def result_simps Let_def split: if_splits)

lemma ledger_dichotomy: "address_ledger a = Quai \<or> address_ledger a = Qi"
  by (cases "address_ledger a") auto

lemma input_step_Ok:
  "input_step k origin (S, A) i = Ok (S', A') \<longleftrightarrow> qi_previous_output i \<notin> S \<and> input_ok k origin i \<and>
     S' = insert (qi_previous_output i) S \<and> A' = insert (input_address k i) A"
  by (auto simp: input_step_def qi_address_try_from_def result_simps ledger_try_from_Ok input_ok_def Let_def
      split: if_splits) (metis ledger_address.select_convs)+

lemma input_fold:
  "try_fold (input_step k origin) (S, A) ins = Ok (S', A') \<longleftrightarrow>
     distinct (map qi_previous_output ins) \<and> S \<inter> qi_previous_output ` set ins = {} \<and> list_all (input_ok k origin) ins \<and>
     S' = S \<union> qi_previous_output ` set ins \<and> A' = A \<union> input_address k ` set ins"
proof (induction ins arbitrary: S A)
  case (Cons i ins)
  have "try_fold (input_step k origin) (S, A) (i # ins) = Ok (S', A') \<longleftrightarrow>
      (\<exists>S1 A1. input_step k origin (S, A) i = Ok (S1, A1) \<and> try_fold (input_step k origin) (S1, A1) ins = Ok (S', A'))"
    by (auto simp: result_simps)
  then show ?case unfolding input_step_Ok Cons.IH by auto
qed auto

text \<open>One output: its scope, then the shared destination of a Quai output or a fresh Qi address.\<close>

definition output_scope :: "qi_mode \<Rightarrow> zone \<Rightarrow> qi_output \<Rightarrow> bool" where
  "output_scope mode origin out \<longleftrightarrow>
     (if mode = Ordinary then \<exists>z. located Qi z (qo_address out) else address_zone (qo_address out) = Ok origin)"

lemma output_step_Ok:
  "output_step mode origin (A, d) out = Ok (A', d') \<longleftrightarrow> output_scope mode origin out \<and>
     (if address_ledger (qo_address out) = Quai
      then d \<in> {None, Some (qo_address out)} \<and> A' = A \<and> d' = Some (qo_address out)
      else qo_address out \<notin> A \<and> A' = insert (qo_address out) A \<and> d' = d)"
  using ledger_dichotomy [of "qo_address out"]
  by (auto simp: output_step_def output_scope_def located_def result_simps split: if_splits option.splits)

lemma output_fold:
  "try_fold (output_step mode origin) (A, d) outs = Ok (A', d') \<longleftrightarrow>
     list_all (output_scope mode origin) outs \<and>
     (\<exists>a. set (ledger_outputs Quai outs) \<union> set_option d \<subseteq> {a}) \<and>
     distinct (ledger_outputs Qi outs) \<and> set (ledger_outputs Qi outs) \<inter> A = {} \<and>
     A' = A \<union> set (ledger_outputs Qi outs) \<and>
     set_option d' = set (ledger_outputs Quai outs) \<union> set_option d"
proof (induction outs arbitrary: A d)
  case Nil
  then show ?case by (cases d; cases d') auto
next
  case (Cons out outs)
  have "try_fold (output_step mode origin) (A, d) (out # outs) = Ok (A', d') \<longleftrightarrow>
      (\<exists>A1 d1. output_step mode origin (A, d) out = Ok (A1, d1) \<and>
         try_fold (output_step mode origin) (A1, d1) outs = Ok (A', d'))"
    by (auto simp: result_simps)
  then show ?case unfolding output_step_Ok Cons.IH
    using ledger_dichotomy [of "qo_address out"] by (cases d) auto
qed

text \<open>The data field each mode demands: the wrapped owner, or a slippage and a refund address.\<close>

definition mode_data :: "qi_mode \<Rightarrow> zone \<Rightarrow> bytes \<Rightarrow> bool" where
  "mode_data mode origin data \<longleftrightarrow>
     (case mode of
        Ordinary \<Rightarrow> True
      | Wrapping \<Rightarrow> length data = 20 \<and> located Quai origin (Address data)
      | Conversion \<Rightarrow> length data = 22 \<and> be_nat (take 2 data) \<in> {30..9000} \<and> located Qi origin (Address (drop 2 data)))"

definition qi_valid :: "('pt, 'ec, 'sc, 'sk) k256 \<Rightarrow> qi_mode \<Rightarrow> 'pt qi_transaction \<Rightarrow> zone \<Rightarrow> bool" where
  "qi_valid k mode tx origin \<longleftrightarrow>
     qx_inputs tx \<noteq> [] \<and> qx_outputs tx \<noteq> [] \<and>
     length (qx_inputs tx) * 3 + length (qx_outputs tx) + 3 \<le> MAX_TRANSACTION_MESSAGES \<and>
     length (qx_data tx) \<le> MAX_TRANSACTION_BYTES \<and>
     (mode \<noteq> Ordinary \<longrightarrow> qx_chain_id tx \<noteq> 0) \<and> mode_data mode origin (qx_data tx) \<and>
     distinct (map qi_previous_output (qx_inputs tx)) \<and> list_all (input_ok k origin) (qx_inputs tx) \<and>
     list_all (output_scope mode origin) (qx_outputs tx) \<and>
     distinct (ledger_outputs Qi (qx_outputs tx)) \<and>
     set (ledger_outputs Qi (qx_outputs tx)) \<inter> input_address k ` set (qx_inputs tx) = {} \<and>
     (if mode = Ordinary then ledger_outputs Quai (qx_outputs tx) = []
      else \<exists>a. set (ledger_outputs Quai (qx_outputs tx)) = {a})"

lemma message_count_Ok:
  "message_count i n = Ok m \<longleftrightarrow> m = i * 3 + n + 3 \<and> m < 2 ^ 64"
  by (auto simp: message_count_def result_simps usize_add_def usize_mul_def split: if_splits)

lemma data_slippage_ok:
  assumes "2 \<le> length d"
  shows "data_slippage d = Ok s \<longleftrightarrow> be_nat (take 2 d) \<in> {30..9000} \<and> s = ConversionSlippage (word_of_nat (be_nat (take 2 d)))"
proof -
  obtain x y r where d: "d = x # y # r" using assms by (auto simp: numeral_2_eq_2 Suc_le_length_iff)
  define n where "n = be_nat [x, y]"
  have "n < 256 ^ 2" using be_nat_lt [of "[x, y]"] by (simp add: n_def)
  then have u: "unat (word_of_nat n :: u16) = n" by (intro unat_of_nat_small) simp
  have "(30 :: u16) \<le> word_of_nat n \<longleftrightarrow> 30 \<le> n" "(word_of_nat n :: u16) \<le> 9000 \<longleftrightarrow> n \<le> 9000"
    by (simp_all add: word_le_nat_alt u)
  then show ?thesis by (auto simp: d data_slippage_def slippage_new_def n_def)
qed

lemma check_wrapping_Ok:
  "check_wrapping tx origin = Ok () \<longleftrightarrow> qx_chain_id tx \<noteq> 0 \<and> mode_data Wrapping origin (qx_data tx)"
  by (auto simp: check_wrapping_def mode_data_def quai_address_try_from_def address_try_from_def result_simps
      ledger_try_from_Ok split: if_splits) (metis ledger_address.select_convs)+

lemma check_conversion_Ok:
  "check_conversion tx origin = Ok () \<longleftrightarrow> qx_chain_id tx \<noteq> 0 \<and> mode_data Conversion origin (qx_data tx)"
  by (auto simp: check_conversion_def mode_data_def qi_address_try_from_def address_try_from_def result_simps
      ledger_try_from_Ok data_slippage_ok split: if_splits) (metis ledger_address.select_convs)+

lemma Ordinary_no_quai:
  "list_all (output_scope Ordinary origin) outs \<Longrightarrow> ledger_outputs Quai outs = []"
  by (auto simp: list_all_iff output_scope_def located_def filter_empty_conv)

lemma mode_checks:
  "(if mode = Wrapping then check_wrapping tx origin else Ok ()) = Ok () \<and>
   (if mode = Conversion then check_conversion tx origin else Ok ()) = Ok () \<longleftrightarrow>
   (mode \<noteq> Ordinary \<longrightarrow> qx_chain_id tx \<noteq> 0) \<and> mode_data mode origin (qx_data tx)"
  by (cases mode) (simp_all add: check_wrapping_Ok check_conversion_Ok mode_data_def)

lemma limits_ok:
  "(\<exists>m. message_count i n = Ok m \<and> \<not> (MAX_TRANSACTION_MESSAGES < m \<or> 65535 < i \<or> 65535 < n \<or> MAX_TRANSACTION_BYTES < d)) \<longleftrightarrow>
     i * 3 + n + 3 \<le> MAX_TRANSACTION_MESSAGES \<and> d \<le> MAX_TRANSACTION_BYTES"
  by (auto simp: message_count_Ok MAX_TRANSACTION_MESSAGES_def)

lemma outputs_fold_valid:
  "(\<exists>A' d. try_fold (output_step mode origin) (A, None) outs = Ok (A', d) \<and> (mode = Ordinary \<or> d \<noteq> None)) \<longleftrightarrow>
     list_all (output_scope mode origin) outs \<and> distinct (ledger_outputs Qi outs) \<and> set (ledger_outputs Qi outs) \<inter> A = {} \<and>
     (if mode = Ordinary then ledger_outputs Quai outs = [] else \<exists>a. set (ledger_outputs Quai outs) = {a})"
  (is "?lhs \<longleftrightarrow> ?rhs")
proof
  assume ?lhs
  then obtain A' d where f: "list_all (output_scope mode origin) outs" "distinct (ledger_outputs Qi outs)"
      "set (ledger_outputs Qi outs) \<inter> A = {}" "set_option d = set (ledger_outputs Quai outs)"
    and m: "mode = Ordinary \<or> d \<noteq> None"
    unfolding output_fold by auto
  show ?rhs
  proof (cases "mode = Ordinary")
    case True
    then show ?thesis using f Ordinary_no_quai [of origin outs] by simp
  next
    case False
    then obtain a where "d = Some a" using m by auto
    then have "\<exists>a. set (ledger_outputs Quai outs) = {a}" using f(4) by (intro exI [of _ a]) simp
    then show ?thesis using f False by simp
  qed
next
  assume r: ?rhs
  then obtain d where d: "set_option d = set (ledger_outputs Quai outs)" "mode = Ordinary \<or> d \<noteq> None"
    by (cases "mode = Ordinary") (force intro: exI [of _ None], metis option.distinct(1) option.set(2))
  then have "try_fold (output_step mode origin) (A, None) outs = Ok (A \<union> set (ledger_outputs Qi outs), d)"
    using r unfolding output_fold by (cases d) auto
  then show ?lhs using d(2) by blast
qed

text \<open>Validation accepts exactly the valid transactions, and returns their origin.\<close>

lemma validate_for_Ok: "validate_for k tx mode = Ok origin \<longleftrightarrow> qi_valid k mode tx origin" (is "?lhs \<longleftrightarrow> _")
proof -
  let ?ins = "qx_inputs tx" and ?outs = "qx_outputs tx"
  let ?A = "input_address k ` set ?ins"
  let ?h = "hash_bytes (op_hash (qi_previous_output (hd ?ins))) ! 2"
  have "?lhs \<longleftrightarrow> ?ins \<noteq> [] \<and> ?outs \<noteq> [] \<and>
      (\<exists>m. message_count (length ?ins) (length ?outs) = Ok m \<and>
        \<not> (MAX_TRANSACTION_MESSAGES < m \<or> 65535 < length ?ins \<or> 65535 < length ?outs \<or>
           MAX_TRANSACTION_BYTES < length (qx_data tx))) \<and>
      zone_from_byte ?h = Ok origin \<and>
      ((if mode = Wrapping then check_wrapping tx origin else Ok ()) = Ok () \<and>
       (if mode = Conversion then check_conversion tx origin else Ok ()) = Ok ()) \<and>
      (\<exists>S A. try_fold (input_step k origin) ({}, {}) ?ins = Ok (S, A) \<and>
        (\<exists>A' d. try_fold (output_step mode origin) (A, None) ?outs = Ok (A', d) \<and> (mode = Ordinary \<or> d \<noteq> None)))"
    by (simp only: validate_for_def result_simps if_eq_Ok) (simp add: result_simps if_eq_Ok, blast)
  also have "\<dots> \<longleftrightarrow> qi_valid k mode tx origin \<and> zone_from_byte ?h = Ok origin"
    unfolding limits_ok mode_checks input_fold outputs_fold_valid qi_valid_def by auto
  also have "\<dots> \<longleftrightarrow> qi_valid k mode tx origin"
    by (cases ?ins) (auto simp: qi_valid_def input_ok_def)
  finally show ?thesis .
qed

section \<open>Signed bytes\<close>

text \<open>
  The type invariant, and what is relied on of the curve crate for a key and for a signature: each
  reads its own fixed-width form back.
\<close>

definition wf_output :: "qi_output \<Rightarrow> bool" where
  "wf_output out \<longleftrightarrow> wf_address (qo_address out) \<and> wf_denomination (qo_denomination out)"

definition wf_qi :: "'pt qi_transaction \<Rightarrow> bool" where
  "wf_qi tx \<longleftrightarrow> list_all (\<lambda>i. wf_hash (op_hash (qi_previous_output i))) (qx_inputs tx) \<and> list_all wf_output (qx_outputs tx)"

definition point_ok :: "('pt, 'ec, 'sc, 'sk) k256 \<Rightarrow> 'pt \<Rightarrow> bool" where
  "point_ok k p \<longleftrightarrow> public_key_from_sec1 k (to_compressed k p) = Ok p"

definition schnorr_ok :: "('pt, 'ec, 'sc, 'sk) k256 \<Rightarrow> 'sc \<Rightarrow> bool" where
  "schnorr_ok k s \<longleftrightarrow> length (k_schnorr_bytes k s) = 64 \<and> k_schnorr_parse k (k_schnorr_bytes k s) = Some s"

lemma integer_bytes_zero: "integer_bytes 0 = []"
  using integer_field_Ok [of "Some []" "[]" 0] by (simp add: integer_field_def)

interpretation output_field: partial_codec wf_output proto_of_output output_from_proto
proof
  fix out
  assume "wf_output out"
  moreover have "checked_cast (ucast (denomination_index (qo_denomination out)) :: u32) =
      Some (denomination_index (qo_denomination out))"
    by (simp add: checked_cast_Some unat_ucast_up)
  ultimately show "output_from_proto (proto_of_output out) = Ok out"
    by (simp add: output_from_proto_def proto_of_output_def wf_output_def wf_denomination_def addr.codec_roundtrip
        denomination_new_Ok result_simps integer_field_Ok integer_bytes_zero)
next
  fix b out
  assume "output_from_proto b = Ok out"
  then show "wf_output out \<and> proto_of_output out = b"
    by (cases b) (auto simp: output_from_proto_def proto_of_output_def wf_output_def wf_denomination_def
        addr.codec_Ok_iff denomination_new_Ok result_simps integer_field_Ok integer_bytes_zero checked_cast_Some
        unat_ucast_up split: if_splits intro!: word_unat_eq_iff [THEN iffD2])
qed

lemma input_from_proto_wf: "input_from_proto k b = Ok i \<Longrightarrow> wf_hash (op_hash (qi_previous_output i))"
  by (auto simp: input_from_proto_def result_simps hash_field.codec_Ok_iff)

lemma input_roundtrip:
  assumes "wf_hash (op_hash (qi_previous_output i))" and "point_ok k (qi_public_key i)"
  shows "input_from_proto k (proto_of_input k i) = Ok i"
proof -
  have "checked_cast (ucast (op_index (qi_previous_output i)) :: u32) = Some (op_index (qi_previous_output i))"
    by (simp add: checked_cast_Some unat_ucast_up)
  then show ?thesis using assms
    by (simp add: input_from_proto_def proto_of_input_def hash_field.codec_roundtrip point_ok_def)
qed

text \<open>Reading a signed message back, in any mode.\<close>

lemma from_proto_valid:
  assumes "from_proto_for k p mode = Ok tx"
  shows "wf_qi tx" and "\<exists>origin. validate_for k tx mode = Ok origin"
proof -
  obtain ins outs I U c d z where m: "try_map (input_from_proto k) ins = Ok I"
      "try_map output_from_proto outs = Ok U"
    and v: "validate_for k \<lparr>qx_chain_id = c, qx_inputs = I, qx_outputs = U, qx_data = d\<rparr> mode = Ok z"
    and tx: "tx = \<lparr>qx_chain_id = c, qx_inputs = I, qx_outputs = U, qx_data = d\<rparr>"
    using assms unfolding from_proto_for_def Let_def if_eq_Ok rbind_eq_Ok sum.inject by blast
  have i: "try_map (input_from_proto k) ins = Ok (qx_inputs tx)"
    and o: "try_map output_from_proto outs = Ok (qx_outputs tx)" using m by (simp_all add: tx)
  have "list_all (\<lambda>i. wf_hash (op_hash (qi_previous_output i))) (qx_inputs tx)"
    using i by (auto simp: try_map_Ok_iff list_all2_conv_all_nth list_all_length intro: input_from_proto_wf)
  then show "wf_qi tx" using o by (simp add: wf_qi_def output_field.codec_list)
  show "\<exists>origin. validate_for k tx mode = Ok origin" using v by (auto simp: tx)
qed

lemma from_proto_message:
  assumes "wf_qi tx" and "list_all (\<lambda>i. point_ok k (qi_public_key i)) (qx_inputs tx)"
    and "validate_for k tx mode = Ok origin"
  shows "from_proto_for k (qi_signed_message k tx sig) mode = Ok tx" and "from_proto_for k (qi_message k tx) mode = Ok tx"
proof -
  have "try_map (input_from_proto k) (map (proto_of_input k) (qx_inputs tx)) = Ok (qx_inputs tx)"
    using assms(1,2) by (intro try_map_map_id input_roundtrip) (auto simp: wf_qi_def list_all_iff)
  moreover have "try_map output_from_proto (map proto_of_output (qx_outputs tx)) = Ok (qx_outputs tx)"
    using assms(1) by (simp add: output_field.codec_list wf_qi_def)
  ultimately show "from_proto_for k (qi_signed_message k tx sig) mode = Ok tx" "from_proto_for k (qi_message k tx) mode = Ok tx"
    using assms(3)
    by (cases tx; simp add: from_proto_for_def qi_signed_message_def qi_message_def proto_default_def integer_field_roundtrip Let_def)+
qed

lemma signed_message_decodes:
  assumes "wf_qi tx" and "list_all (\<lambda>i. point_ok k (qi_public_key i)) (qx_inputs tx)" and "schnorr_ok k sig"
    and "prost_ok pr (qi_signed_message k tx sig)" and "signed_bytes_for k pr tx sig mode = Ok bs"
  shows "decode pr bs = Ok (qi_signed_message k tx sig)" and "from_proto_for k (qi_signed_message k tx sig) mode = Ok tx"
    and "signature_field k (qi_signed_message k tx sig) = Ok sig"
proof -
  obtain origin where v: "validate_for k tx mode = Ok origin" and e: "encode pr (qi_signed_message k tx sig) = Ok bs"
    using assms(5) by (auto simp: signed_bytes_for_def protobuf_for_def qi_signed_message_def result_simps)
  show "decode pr bs = Ok (qi_signed_message k tx sig)" by (rule prost_ok_decode [OF assms(4) e])
  show "from_proto_for k (qi_signed_message k tx sig) mode = Ok tx" by (rule from_proto_message(1) [OF assms(1,2) v])
  show "signature_field k (qi_signed_message k tx sig) = Ok sig"
    using assms(3) by (simp add: signature_field_def qi_signed_message_def schnorr_ok_def schnorr_from_bytes_def)
qed

lemma qi_attach_Ok:
  "qi_attach_signature k pr tx sig = Ok s \<longleftrightarrow>
     s = \<lparr>sx_transaction = tx, sx_signature = sig\<rparr> \<and> verify_signature_for k pr tx sig Ordinary = Ok ()"
  by (auto simp: qi_attach_signature_def result_simps)

lemma qi_signed_decode_iff:
  assumes "list_all (\<lambda>i. point_ok k (qi_public_key i)) (qx_inputs (sx_transaction s))" and "schnorr_ok k (sx_signature s)"
    and "prost_ok pr (qi_signed_message k (sx_transaction s) (sx_signature s))"
  shows "qi_signed_decode k pr bs = Ok s \<longleftrightarrow> wf_qi (sx_transaction s) \<and>
    verify_signature_for k pr (sx_transaction s) (sx_signature s) Ordinary = Ok () \<and> qi_signed_bytes k pr s = Ok bs"
    (is "_ \<longleftrightarrow> ?valid")
proof
  assume "qi_signed_decode k pr bs = Ok s"
  then obtain p tx sig where p: "from_proto_for k p Ordinary = Ok tx"
    and a: "qi_attach_signature k pr tx sig = Ok s" and b: "qi_signed_bytes k pr s = Ok bs"
    by (auto simp: qi_signed_decode_def result_simps split: if_splits)
  show ?valid using a b from_proto_valid(1) [OF p] by (simp add: qi_attach_Ok)
next
  assume v: ?valid
  then have b: "signed_bytes_for k pr (sx_transaction s) (sx_signature s) Ordinary = Ok bs" by (simp add: qi_signed_bytes_def)
  note m = signed_message_decodes [OF conjunct1 [OF v] assms b]
  have "qi_attach_signature k pr (sx_transaction s) (sx_signature s) = Ok s" using v by (simp add: qi_attach_Ok)
  then show "qi_signed_decode k pr bs = Ok s" using v by (simp add: qi_signed_decode_def m)
qed

section \<open>Signing and identifiers\<close>

text \<open>A key list signs only when it lists the owner of every input, in order.\<close>

lemma owners_match:
  "length keys = length ins \<and> \<not> list_ex (\<lambda>(key, input). f key \<noteq> qi_public_key input) (zip keys ins) \<longleftrightarrow>
     map f keys = map qi_public_key ins"
proof -
  have "map f keys = map qi_public_key ins \<longleftrightarrow> list_all2 (\<lambda>key input. f key = qi_public_key input) keys ins"
    by (auto simp: list_all2_conv_all_nth list_eq_iff_nth_eq)
  then show ?thesis by (auto simp: list_all2_iff list_ex_iff)
qed

lemma sign_local_for_Ok:
  assumes "sign_local_for k pr tx keys mode = Ok sig"
  shows "(\<exists>origin. qi_valid k mode tx origin) \<and> map (k_public_key k) keys = map qi_public_key (qx_inputs tx) \<and>
    (mode = Ordinary \<longrightarrow> qx_data tx = [] \<and> qx_chain_id tx \<noteq> 0)"
  using assms owners_match [of keys "qx_inputs tx" "k_public_key k"]
  by (auto simp: sign_local_for_def result_simps if_eq_Ok validate_for_Ok validate_ordinary_signing_def split: if_splits)

lemma high_bit_set: "x OR 0x80 \<noteq> (0 :: u8)" "(x OR 0x80) AND 0x80 = (0x80 :: u8)"
proof -
  have "bit (x OR 0x80) 7" by (simp add: bit_or_iff)
  then show "x OR 0x80 \<noteq> 0" by auto
  show "(x OR 0x80) AND 0x80 = (0x80 :: u8)" by (auto simp: bit_eq_iff bit_or_iff bit_and_iff)
qed

lemma located_hash_bytes:
  assumes "length h = 32"
  shows "hash_bytes (located_hash z h) = [z, h ! 1 OR 0x80, z, h ! 3 OR 0x80] @ drop 4 h"
proof -
  have "Suc (Suc (Suc (Suc 0))) \<le> length h" using assms by simp
  then obtain a b c d r where "h = a # b # c # d # r" by (auto simp: Suc_le_length_iff)
  then show ?thesis by (simp add: located_hash_def)
qed

lemma located_hash_input:
  assumes "length h = 32" and "located Qi origin (public_key_address k p)"
  shows "input_ok k origin \<lparr>qi_previous_output = \<lparr>op_hash = located_hash (zone_byte origin) h, op_index = n\<rparr>, qi_public_key = p\<rparr>"
  using assms high_bit_set(1) [of "h ! 1"]
  by (simp add: input_ok_def located_hash_bytes numeral_eq_Suc)

text \<open>
  C5: validation of a Qi transaction, in each mode, accepts exactly the valid ones and returns
  their origin zone: within the message and size limits; no outpoint spent twice; every input owned
  by a Qi key of the origin and created there; every output in its scope, no Qi address reused
  among the outputs or from the inputs; no Quai output in a transfer and exactly one Quai
  destination in a conversion or wrapping, whose data field names a party of the origin zone.
\<close>

theorem qi_validate_exact: "validate_for k tx mode = Ok origin \<longleftrightarrow> qi_valid k mode tx origin"
  by (rule validate_for_Ok)

text \<open>
  C36: the signed decoder of Qi transfers accepts exactly the canonical bytes of verified transfers:
  it returns a signed transfer exactly when the transfer is well formed, its signature verifies over
  the digest of the unsigned bytes for the ordered inputs, and the bytes are its signed bytes.
\<close>

theorem qi_signed_decode_exact:
  assumes "list_all (\<lambda>i. point_ok k (qi_public_key i)) (qx_inputs (sx_transaction s))" and "schnorr_ok k (sx_signature s)"
    and "prost_ok pr (qi_signed_message k (sx_transaction s) (sx_signature s))"
  shows "qi_signed_decode k pr bs = Ok s \<longleftrightarrow> wf_qi (sx_transaction s) \<and>
    verify_signature_for k pr (sx_transaction s) (sx_signature s) Ordinary = Ok () \<and> qi_signed_bytes k pr s = Ok bs"
  by (rule qi_signed_decode_iff [OF assms])

text \<open>
  C37: the identifier of a signed transfer is its digest with the origin zone and the Qi bits written
  in, and the outpoints it names can be spent from the origin: an input that spends one of them with
  a Qi key of the origin passes the input checks of validation.
\<close>

theorem qi_hash_spendable:
  assumes "digest_ok (k_keccak k)" and "qi_hash k pr s = Ok h" and "qi_signed_bytes k pr s = Ok bs"
  shows "\<exists>origin d. qi_valid k Ordinary (sx_transaction s) origin \<and> d = k_keccak k bs \<and>
    hash_bytes h = [zone_byte origin, d ! 1 OR 0x80, zone_byte origin, d ! 3 OR 0x80] @ drop 4 d \<and>
    (\<forall>n p. located Qi origin (public_key_address k p) \<longrightarrow>
       input_ok k origin \<lparr>qi_previous_output = \<lparr>op_hash = h, op_index = n\<rparr>, qi_public_key = p\<rparr>)"
proof -
  obtain origin where "validate_for k (sx_transaction s) Ordinary = Ok origin"
    and h: "h = located_hash (zone_byte origin) (k_keccak k bs)"
    using assms(2,3) by (auto simp: qi_hash_def result_simps)
  moreover have "length (k_keccak k bs) = 32" using assms(1) by (simp add: digest_ok_def)
  ultimately show ?thesis unfolding validate_for_Ok h
    by (intro exI [of _ origin] exI [of _ "k_keccak k bs"]) (simp add: located_hash_bytes located_hash_input)
qed

text \<open>A transfer of the largest denomination within Cyprus1 on chain 9, and a codec that knows its message.\<close>

definition sample_qi :: "bytes qi_transaction" where
  "sample_qi = \<lparr>qx_chain_id = 9,
     qx_inputs = [\<lparr>qi_previous_output = \<lparr>op_hash = Hash32 ([0, 128, 0, 128] @ replicate 28 0), op_index = 0\<rparr>,
       qi_public_key = [0, 128] @ replicate 18 0\<rparr>],
     qx_outputs = [\<lparr>qo_address = Address ([0, 128] @ replicate 18 1), qo_denomination = Denomination 14\<rparr>], qx_data = []\<rparr>"

definition sample_signed_qi :: "(bytes, bytes) signed_qi" where
  "sample_signed_qi = \<lparr>sx_transaction = sample_qi, sx_signature = replicate 64 1\<rparr>"

definition qi_prost :: prost where
  "qi_prost = \<lparr>prost_encode = \<lambda>p. [8, 0],
     prost_decode = \<lambda>bs. Some (qi_signed_message sample_k256 sample_qi (replicate 64 1))\<rparr>"

lemma sample_address: "length p = 20 \<Longrightarrow> public_key_address sample_k256 p = Address p"
  by (simp add: public_key_address_def to_uncompressed_def sample_k256_def)

lemma sample_located: "located Qi Cyprus1 (Address (0 # 128 # r))"
  by (simp add: located_def address_ledger_def address_zone_def zone_from_byte_def)

lemma sample_hash_nonzero: "0 # 128 # r \<noteq> replicate 32 (0 :: u8)"
proof
  assume "0 # 128 # r = replicate 32 (0 :: u8)"
  then have "(0 # 128 # r) ! 1 = replicate 32 (0 :: u8) ! 1" by simp
  then show False by simp
qed

lemmas sample_qi_simps = sample_qi_def sample_address sample_located input_ok_def output_scope_def sample_hash_nonzero

lemma sample_qi_valid: "qi_valid sample_k256 Ordinary sample_qi Cyprus1"
proof -
  have "address_ledger (Address (0 # 128 # r)) = Qi" for r
    using sample_located [of r] by (simp add: located_def)
  moreover have "replicate 18 (1 :: u8) \<noteq> replicate 18 0" by (simp add: replicate_eq_replicate)
  moreover have "\<exists>z. located Qi z (Address (0 # 128 # r))" for r using sample_located by blast
  ultimately show ?thesis
    by (simp add: qi_valid_def mode_data_def sample_qi_simps MAX_TRANSACTION_MESSAGES_def)
qed

lemma sample_qi_verifies: "verify_signature_for sample_k256 qi_prost sample_qi (replicate 64 1) Ordinary = Ok ()"
proof -
  have "validate_for sample_k256 sample_qi Ordinary = Ok Cyprus1" using sample_qi_valid by (simp add: validate_for_Ok)
  moreover have "validate_ordinary_signing sample_qi = Ok ()" by (simp add: validate_ordinary_signing_def sample_qi_def)
  moreover have "to_compressed sample_k256 (qi_public_key (hd (qx_inputs sample_qi))) = [2] @ replicate 12 0 @ [0, 128] @ replicate 18 0"
    by (simp add: to_compressed_def sample_k256_def sample_qi_def)
  moreover have "length (qx_inputs sample_qi) = 1" by (simp add: sample_qi_def)
  ultimately show ?thesis
    by (simp add: verify_signature_for_def mode_digest_def protobuf_for_def encode_def qi_prost_def MAX_TRANSACTION_BYTES_def
        sample_k256_def)
qed

lemma sample_qi_ok:
  "list_all (\<lambda>i. point_ok sample_k256 (qi_public_key i)) (qx_inputs sample_qi)"
  "schnorr_ok sample_k256 (replicate 64 1)"
  "prost_ok qi_prost (qi_signed_message sample_k256 sample_qi (replicate 64 1))"
  "signed_bytes_for sample_k256 qi_prost sample_qi (replicate 64 1) Ordinary = Ok [8, 0]"
  "wf_qi sample_qi"
proof -
  show "list_all (\<lambda>i. point_ok sample_k256 (qi_public_key i)) (qx_inputs sample_qi)"
    by (simp add: sample_qi_def point_ok_def public_key_from_sec1_def to_compressed_def sample_k256_def)
  show "schnorr_ok sample_k256 (replicate 64 1)" by (simp add: schnorr_ok_def sample_k256_def)
  show "prost_ok qi_prost (qi_signed_message sample_k256 sample_qi (replicate 64 1))"
    using quai_prost_ok by (simp add: prost_ok_def quai_prost_def qi_prost_def)
  have "validate_for sample_k256 sample_qi Ordinary = Ok Cyprus1" using sample_qi_valid by (simp add: validate_for_Ok)
  then show "signed_bytes_for sample_k256 qi_prost sample_qi (replicate 64 1) Ordinary = Ok [8, 0]"
    by (simp add: signed_bytes_for_def protobuf_for_def encode_def qi_prost_def MAX_TRANSACTION_BYTES_def)
  show "wf_qi sample_qi"
    by (simp add: sample_qi_def wf_qi_def wf_hash_def wf_output_def wf_address_def wf_denomination_def)
qed

theorem qi_signed_decode_exact_witness:
  "qi_signed_decode sample_k256 qi_prost [8, 0] = Ok sample_signed_qi"
  using qi_signed_decode_exact [of sample_k256 sample_signed_qi qi_prost "[8, 0]"] sample_qi_ok sample_qi_verifies
  by (simp add: sample_signed_qi_def qi_signed_bytes_def)

theorem qi_hash_spendable_witness:
  "\<exists>h origin d. qi_hash sample_k256 qi_prost sample_signed_qi = Ok h \<and>
    qi_valid sample_k256 Ordinary (sx_transaction sample_signed_qi) origin \<and> d = k_keccak sample_k256 [8, 0] \<and>
    hash_bytes h = [zone_byte origin, d ! 1 OR 0x80, zone_byte origin, d ! 3 OR 0x80] @ drop 4 d"
proof -
  have v: "validate_for sample_k256 (sx_transaction sample_signed_qi) Ordinary = Ok Cyprus1"
    using sample_qi_valid by (simp add: validate_for_Ok sample_signed_qi_def)
  have b: "qi_signed_bytes sample_k256 qi_prost sample_signed_qi = Ok [8, 0]"
    using sample_qi_ok(4) by (simp add: qi_signed_bytes_def sample_signed_qi_def)
  obtain h where h: "qi_hash sample_k256 qi_prost sample_signed_qi = Ok h" using v b by (simp add: qi_hash_def)
  have "digest_ok (k_keccak sample_k256)" by (auto simp: digest_ok_def sample_k256_def min_def)
  from qi_hash_spendable [OF this h b] h show ?thesis by blast
qed

end
