(* ===== verification/Qi_Conversion.thy ===== *)
theory Qi_Conversion
  imports Qi_Tx
begin

text \<open>
  Explicit conversion envelopes, \<open>quai-consensus/src/conversion.rs\<close>: the hold windows, the
  Qi-to-Quai builder and classifier, its signed form, the batch discount, and the Quai-to-Qi request.
\<close>

section \<open>Hold windows\<close>

definition KAWPOW_FORK_BLOCK :: u64 where
  "KAWPOW_FORK_BLOCK = 1171500"

definition SHA_EQUIVALENT_DIFFICULTY_FORK_BLOCK :: u64 where
  "SHA_EQUIVALENT_DIFFICULTY_FORK_BLOCK = 1755000"

definition KQUAI_CHANGE_HOLD_INTERVAL :: u64 where
  "KQUAI_CHANGE_HOLD_INTERVAL = 20000"

definition held_after :: "u64 \<Rightarrow> u64 \<Rightarrow> bool" where
  "held_after prime_terminus fork \<longleftrightarrow> fork \<le> prime_terminus \<and> prime_terminus < fork + KQUAI_CHANGE_HOLD_INTERVAL"

definition conversion_held :: "u64 \<Rightarrow> bool" where
  "conversion_held prime_terminus \<longleftrightarrow>
     held_after prime_terminus KAWPOW_FORK_BLOCK \<or> held_after prime_terminus SHA_EQUIVALENT_DIFFICULTY_FORK_BLOCK"

section \<open>Qi to Quai\<close>

record conversion_intent =
  ci_destination :: quai_address
  ci_refund :: qi_address
  ci_slippage :: conversion_slippage

record 'pt qi_conversion =
  cv_transaction :: "'pt qi_transaction"
  cv_intent :: conversion_intent

text \<open>The first output that is a Quai address, as the classifiers search for the destination.\<close>

fun find_quai :: "qi_output list \<Rightarrow> quai_address option" where
  "find_quai [] = None"
| "find_quai (out # outs) =
     (case quai_address_try_from (qo_address out) of Inr a \<Rightarrow> Some a | Inl _ \<Rightarrow> find_quai outs)"

definition conversion_from_transaction ::
  "('pt, 'ec, 'sc, 'sk) k256 \<Rightarrow> 'pt qi_transaction \<Rightarrow> ('pt qi_conversion, transaction_error) result" where
  "conversion_from_transaction k tx =
     rbind (validate_for k tx Conversion) (\<lambda>_.
       rbind (ok_or (find_quai (qx_outputs tx)) TxInvalidScope) (\<lambda>destination.
         rbind (map_err (\<lambda>_. TxInvalidScope) (address_try_from (drop 2 (qx_data tx)))) (\<lambda>a.
           rbind (map_err (\<lambda>_. TxInvalidScope) (qi_address_try_from a)) (\<lambda>refund.
             rbind (data_slippage (qx_data tx)) (\<lambda>slippage.
               Ok \<lparr>cv_transaction = tx,
                   cv_intent = \<lparr>ci_destination = destination, ci_refund = refund, ci_slippage = slippage\<rparr>\<rparr>)))))"

text \<open>The checks both builders make before they assemble the outputs: paid denominations first, then change.\<close>

definition builder_checks ::
  "string \<Rightarrow> nat \<Rightarrow> denomination list \<Rightarrow> qi_output list \<Rightarrow> (unit, transaction_error) result" where
  "builder_checks missing inputs paid change =
     (if paid = [] then Err (TxInvalidField missing)
      else rbind (ok_or (usize_add (length paid) (length change)) TxTooLarge) (\<lambda>output_len.
        rbind (message_count inputs output_len) (\<lambda>messages.
          if MAX_TRANSACTION_MESSAGES < messages \<or> 65535 < inputs \<or> 65535 < output_len then Err TxTooLarge
          else if list_ex (\<lambda>out. address_ledger (qo_address out) \<noteq> Qi) change then Err TxInvalidScope
          else Ok ())))"

definition paid_outputs :: "quai_address \<Rightarrow> denomination list \<Rightarrow> qi_output list" where
  "paid_outputs destination paid = map (\<lambda>d. \<lparr>qo_address = la_address destination, qo_denomination = d\<rparr>) paid"

definition conversion_data :: "conversion_intent \<Rightarrow> bytes" where
  "conversion_data intent = slippage_bytes (ci_slippage intent) @ address_bytes (la_address (ci_refund intent))"

definition conversion_payload ::
  "u256 \<Rightarrow> 'pt qi_input list \<Rightarrow> denomination list \<Rightarrow> qi_output list \<Rightarrow> conversion_intent \<Rightarrow> 'pt qi_transaction" where
  "conversion_payload chain_id inputs converted change intent =
     \<lparr>qx_chain_id = chain_id, qx_inputs = inputs,
      qx_outputs = paid_outputs (ci_destination intent) converted @ change, qx_data = conversion_data intent\<rparr>"

definition conversion_new ::
  "('pt, 'ec, 'sc, 'sk) k256 \<Rightarrow> u256 \<Rightarrow> 'pt qi_input list \<Rightarrow> denomination list \<Rightarrow> qi_output list \<Rightarrow>
     conversion_intent \<Rightarrow> ('pt qi_conversion, transaction_error) result" where
  "conversion_new k chain_id inputs converted change intent =
     rbind (builder_checks ''missing conversion output'' (length inputs) converted change) (\<lambda>_.
       conversion_from_transaction k (conversion_payload chain_id inputs converted change intent))"

definition conversion_origin :: "'pt qi_conversion \<Rightarrow> zone" where
  "conversion_origin c = la_zone (ci_destination (cv_intent c))"

definition conversion_unsigned_bytes ::
  "('pt, 'ec, 'sc, 'sk) k256 \<Rightarrow> prost \<Rightarrow> 'pt qi_conversion \<Rightarrow> (bytes, transaction_error) result" where
  "conversion_unsigned_bytes k pr c = rbind (protobuf_for k (cv_transaction c) Conversion) (encode pr)"

definition conversion_signing_digest ::
  "('pt, 'ec, 'sc, 'sk) k256 \<Rightarrow> prost \<Rightarrow> 'pt qi_conversion \<Rightarrow> (hash32, transaction_error) result" where
  "conversion_signing_digest k pr c = rbind (conversion_unsigned_bytes k pr c) (\<lambda>bs. Ok (Hash32 (k_keccak k bs)))"

definition conversion_decode_unsigned ::
  "('pt, 'ec, 'sc, 'sk) k256 \<Rightarrow> prost \<Rightarrow> bytes \<Rightarrow> ('pt qi_conversion, transaction_error) result" where
  "conversion_decode_unsigned k pr bs =
     rbind (decode pr bs) (\<lambda>p. rbind (from_proto_for k p Conversion) (\<lambda>tx.
       rbind (conversion_from_transaction k tx) (\<lambda>c.
         rbind (conversion_unsigned_bytes k pr c) (\<lambda>b. if b \<noteq> bs then Err TxInvalidEncoding else Ok c))))"

record ('pt, 'sc) signed_conversion =
  sv_transaction :: "'pt qi_conversion"
  sv_signature :: 'sc

definition conversion_attach_signature ::
  "('pt, 'ec, 'sc, 'sk) k256 \<Rightarrow> prost \<Rightarrow> 'pt qi_conversion \<Rightarrow> 'sc \<Rightarrow> (('pt, 'sc) signed_conversion, transaction_error) result" where
  "conversion_attach_signature k pr c signature =
     rbind (verify_signature_for k pr (cv_transaction c) signature Conversion)
       (\<lambda>_. Ok \<lparr>sv_transaction = c, sv_signature = signature\<rparr>)"

definition conversion_sign_local ::
  "('pt, 'ec, 'sc, 'sk) k256 \<Rightarrow> prost \<Rightarrow> 'pt qi_conversion \<Rightarrow> 'sk list \<Rightarrow> (('pt, 'sc) signed_conversion, transaction_error) result" where
  "conversion_sign_local k pr c keys =
     rbind (sign_local_for k pr (cv_transaction c) keys Conversion) (conversion_attach_signature k pr c)"

definition conversion_sign_single ::
  "('pt, 'ec, 'sc, 'sk) k256 \<Rightarrow> prost \<Rightarrow> 'pt qi_conversion \<Rightarrow> 'sk \<Rightarrow> (('pt, 'sc) signed_conversion, transaction_error) result" where
  "conversion_sign_single k pr c key =
     (if length (qx_inputs (cv_transaction c)) \<noteq> 1 then Err (TxInvalidField ''expected single input'')
      else conversion_sign_local k pr c [key])"

definition conversion_signed_bytes ::
  "('pt, 'ec, 'sc, 'sk) k256 \<Rightarrow> prost \<Rightarrow> ('pt, 'sc) signed_conversion \<Rightarrow> (bytes, transaction_error) result" where
  "conversion_signed_bytes k pr s = signed_bytes_for k pr (cv_transaction (sv_transaction s)) (sv_signature s) Conversion"

definition conversion_hash ::
  "('pt, 'ec, 'sc, 'sk) k256 \<Rightarrow> prost \<Rightarrow> ('pt, 'sc) signed_conversion \<Rightarrow> (hash32, transaction_error) result" where
  "conversion_hash k pr s =
     rbind (conversion_signed_bytes k pr s) (\<lambda>bs.
       Ok (located_hash (zone_byte (conversion_origin (sv_transaction s))) (k_keccak k bs)))"

definition conversion_decode ::
  "('pt, 'ec, 'sc, 'sk) k256 \<Rightarrow> prost \<Rightarrow> bytes \<Rightarrow> (('pt, 'sc) signed_conversion, transaction_error) result" where
  "conversion_decode k pr bs =
     rbind (decode pr bs) (\<lambda>p. rbind (from_proto_for k p Conversion) (\<lambda>tx.
       rbind (conversion_from_transaction k tx) (\<lambda>c.
         rbind (signature_field k p) (\<lambda>signature.
           rbind (conversion_attach_signature k pr c signature) (\<lambda>signed.
             rbind (conversion_signed_bytes k pr signed) (\<lambda>b.
               if b \<noteq> bs then Err TxInvalidEncoding else Ok signed))))))"

section \<open>The batch discount\<close>

definition div_ceil :: "u256 \<Rightarrow> u256 \<Rightarrow> u256" where
  "div_ceil a b = (if a mod b = 0 then a div b else a div b + 1)"

definition conversion_batch_discount_bps :: "u256 \<Rightarrow> u256 \<Rightarrow> u16 option" where
  "conversion_batch_discount_bps batch_total flow_amount =
     (if flow_amount = 0 then None
      else if batch_total \<le> flow_amount then Some 20
      else Option.bind (checked_mul flow_amount 10) (\<lambda>limit.
        if limit < batch_total then Some 9000
        else Option.bind (checked_mul batch_total batch_total) (\<lambda>n.
          Option.bind (checked_mul n batch_total) (\<lambda>n.
            Option.bind (checked_mul n 10) (\<lambda>numerator.
              Option.bind (checked_mul flow_amount flow_amount) (\<lambda>d.
                Option.bind (checked_mul d flow_amount) (\<lambda>denominator.
                  Option.bind (checked_add (div_ceil numerator denominator) 10) (\<lambda>bps.
                    checked_cast (min bps 9000)))))))))"

section \<open>Quai to Qi\<close>

record quai_to_qi =
  qq_transaction :: quai_transaction
  qq_destination :: qi_address
  qq_slippage :: conversion_slippage

definition quai_to_qi_new ::
  "prost \<Rightarrow> quai_transaction \<Rightarrow> (quai_to_qi, transaction_error) result" where
  "quai_to_qi_new pr tx =
     (if qt_chain_id tx = 0 \<or> qt_value tx < ucast MIN_QUAI_CONVERSION_VALUE \<or> length (qt_data tx) \<noteq> 2
      then Err (TxInvalidField ''Quai conversion chain, value or data'')
      else rbind (ok_or (qt_to tx) TxInvalidScope) (\<lambda>to.
        rbind (map_err (\<lambda>_. TxInvalidScope) (qi_address_try_from to)) (\<lambda>destination.
          rbind (data_slippage (qt_data tx)) (\<lambda>slippage.
            rbind (quai_unsigned_bytes pr tx) (\<lambda>_.
              Ok \<lparr>qq_transaction = tx, qq_destination = destination, qq_slippage = slippage\<rparr>)))))"

definition quai_to_qi_decode_unsigned :: "prost \<Rightarrow> bytes \<Rightarrow> (quai_to_qi, transaction_error) result" where
  "quai_to_qi_decode_unsigned pr bs = rbind (quai_decode_unsigned pr bs) (quai_to_qi_new pr)"

definition quai_to_qi_attach_signature ::
  "('pt, 'ec, 'sc, 'sk) k256 \<Rightarrow> prost \<Rightarrow> quai_to_qi \<Rightarrow> 'ec recoverable_signature \<Rightarrow>
     ('ec signed_quai, transaction_error) result" where
  "quai_to_qi_attach_signature k pr q signature = quai_attach_signature k pr (qq_transaction q) signature"

definition quai_to_qi_sign ::
  "('pt, 'ec, 'sc, 'sk) k256 \<Rightarrow> prost \<Rightarrow> quai_to_qi \<Rightarrow> 'sk \<Rightarrow> ('ec signed_quai, transaction_error) result" where
  "quai_to_qi_sign k pr q key = quai_sign k pr (qq_transaction q) key"

section \<open>Classification\<close>

lemma quai_try_from_located:
  assumes "address_zone a = Ok z"
  shows "quai_address_try_from a =
    (if address_ledger a = Quai then Ok \<lparr>la_address = a, la_zone = z\<rparr> else Err (WrongLedger Quai (address_ledger a)))"
  using assms by (simp add: quai_address_try_from_def ledger_address_try_from_def Let_def)

lemma find_quai_scope:
  assumes "list_all (\<lambda>out. address_zone (qo_address out) = Ok z) outs"
  shows "find_quai outs =
    (case ledger_outputs Quai outs of [] \<Rightarrow> None | a # _ \<Rightarrow> Some \<lparr>la_address = a, la_zone = z\<rparr>)"
  using assms by (induction outs) (simp_all add: quai_try_from_located)

text \<open>The one Quai destination of a valid conversion or wrapping is what the search returns.\<close>

lemma find_quai_valid:
  assumes "qi_valid k mode tx origin" and "mode \<noteq> Ordinary"
  shows "find_quai (qx_outputs tx) = Some d \<longleftrightarrow>
    set (ledger_outputs Quai (qx_outputs tx)) = {la_address d} \<and> la_zone d = origin"
proof -
  have "list_all (\<lambda>out. address_zone (qo_address out) = Ok origin) (qx_outputs tx)"
    using assms by (simp add: qi_valid_def output_scope_def [abs_def])
  note f = find_quai_scope [OF this]
  obtain a where a: "set (ledger_outputs Quai (qx_outputs tx)) = {a}"
    using assms unfolding qi_valid_def by auto
  then obtain r where "ledger_outputs Quai (qx_outputs tx) = a # r"
    by (cases "ledger_outputs Quai (qx_outputs tx)") auto
  then show ?thesis unfolding a f by (cases d) auto
qed

lemma located_try_from:
  "located Quai z a \<Longrightarrow> quai_address_try_from a = Ok \<lparr>la_address = a, la_zone = z\<rparr>"
  "located Qi z a \<Longrightarrow> qi_address_try_from a = Ok \<lparr>la_address = a, la_zone = z\<rparr>"
  by (simp_all add: located_def quai_address_try_from_def qi_address_try_from_def ledger_address_try_from_def)

lemma conversion_parts:
  assumes "qi_valid k Conversion tx origin"
  shows "address_try_from (drop 2 (qx_data tx)) = Ok (Address (drop 2 (qx_data tx)))"
    and "qi_address_try_from (Address (drop 2 (qx_data tx))) = Ok \<lparr>la_address = Address (drop 2 (qx_data tx)), la_zone = origin\<rparr>"
    and "data_slippage (qx_data tx) = Ok (ConversionSlippage (word_of_nat (be_nat (take 2 (qx_data tx)))))"
  using assms by (auto simp: qi_valid_def mode_data_def data_slippage_ok address_try_from_def located_try_from(2))

lemma conversion_from_transaction_Ok:
  "conversion_from_transaction k tx = Ok c \<longleftrightarrow> cv_transaction c = tx \<and>
    (\<exists>origin. qi_valid k Conversion tx origin \<and>
      set (ledger_outputs Quai (qx_outputs tx)) = {la_address (ci_destination (cv_intent c))} \<and>
      la_zone (ci_destination (cv_intent c)) = origin \<and>
      ci_refund (cv_intent c) = \<lparr>la_address = Address (drop 2 (qx_data tx)), la_zone = origin\<rparr> \<and>
      ci_slippage (cv_intent c) = ConversionSlippage (word_of_nat (be_nat (take 2 (qx_data tx)))))"
    (is "?lhs \<longleftrightarrow> ?rhs")
proof (cases "validate_for k tx Conversion")
  case (Inl e)
  then have "\<not> qi_valid k Conversion tx origin" for origin by (simp add: validate_for_Ok [symmetric])
  then show ?thesis by (simp add: conversion_from_transaction_def Inl)
next
  case (Inr z)
  then have z: "qi_valid k Conversion tx origin \<longleftrightarrow> origin = z" for origin by (auto simp: validate_for_Ok [symmetric])
  then have v: "qi_valid k Conversion tx z" by simp
  have "?lhs \<longleftrightarrow> (\<exists>d. find_quai (qx_outputs tx) = Some d \<and>
      c = \<lparr>cv_transaction = tx, cv_intent = \<lparr>ci_destination = d,
        ci_refund = \<lparr>la_address = Address (drop 2 (qx_data tx)), la_zone = z\<rparr>,
        ci_slippage = ConversionSlippage (word_of_nat (be_nat (take 2 (qx_data tx))))\<rparr>\<rparr>)"
    by (auto simp: conversion_from_transaction_def Inr conversion_parts [OF v] result_simps)
  also have "\<dots> \<longleftrightarrow> ?rhs"
    unfolding find_quai_valid [OF v qi_mode.distinct(2)] z by (cases c; cases "cv_intent c") auto
  finally show ?thesis .
qed

text \<open>The typed fields of an intent: what their own constructors establish.\<close>

definition wf_intent :: "conversion_intent \<Rightarrow> bool" where
  "wf_intent intent \<longleftrightarrow> wf_ledger_address Quai (ci_destination intent) \<and> wf_ledger_address Qi (ci_refund intent) \<and>
     wf_address (la_address (ci_refund intent)) \<and> unat (slippage_value (ci_slippage intent)) \<in> {30..9000}"

lemma ledger_outputs_paid:
  assumes "address_ledger (la_address d) = Quai" and "list_all (\<lambda>out. address_ledger (qo_address out) = Qi) change"
  shows "set (ledger_outputs Quai (paid_outputs d paid @ change)) = (if paid = [] then {} else {la_address d})"
    and "ledger_outputs Qi (paid_outputs d paid @ change) = map qo_address change"
proof -
  have "filter (\<lambda>out. address_ledger (qo_address out) = Quai) change = []"
    and c: "filter (\<lambda>out. address_ledger (qo_address out) = Qi) change = change"
    using assms(2) by (auto simp: list_all_iff filter_empty_conv filter_id_conv)
  then show "set (ledger_outputs Quai (paid_outputs d paid @ change)) = (if paid = [] then {} else {la_address d})"
    using assms(1) by (simp add: paid_outputs_def filter_map comp_def image_constant_conv)
  show "ledger_outputs Qi (paid_outputs d paid @ change) = map qo_address change"
    using assms(1) c by (simp add: paid_outputs_def filter_map comp_def)
qed

lemma builder_checks_Ok:
  "builder_checks missing i paid change = Ok () \<longleftrightarrow> paid \<noteq> [] \<and>
     list_all (\<lambda>out. address_ledger (qo_address out) = Qi) change \<and>
     i * 3 + (length paid + length change) + 3 \<le> MAX_TRANSACTION_MESSAGES"
  by (auto simp: builder_checks_def result_simps message_count_Ok usize_add_def MAX_TRANSACTION_MESSAGES_def
      list_ex_iff list_all_iff split: if_splits)

lemma conversion_data_parts:
  assumes "wf_intent intent"
  shows "be_nat (take 2 (conversion_data intent)) = unat (slippage_value (ci_slippage intent))"
    and "drop 2 (conversion_data intent) = address_bytes (la_address (ci_refund intent))"
proof -
  have "unat (slippage_value (ci_slippage intent)) < 256 ^ 2"
    using assms by (simp add: wf_intent_def)
  then show "be_nat (take 2 (conversion_data intent)) = unat (slippage_value (ci_slippage intent))"
    by (simp add: conversion_data_def slippage_bytes_def be_nat_to_be)
  show "drop 2 (conversion_data intent) = address_bytes (la_address (ci_refund intent))"
    by (simp add: conversion_data_def slippage_bytes_def)
qed

text \<open>What the classifier reads back from an assembled payload.\<close>

lemma payload_zones:
  assumes "wf_intent intent" and "converted \<noteq> []"
    and "qi_valid k Conversion (conversion_payload chain_id inputs converted change intent) origin"
  shows "la_zone (ci_destination intent) = origin" and "la_zone (ci_refund intent) = origin"
proof -
  have "address_zone (la_address (ci_destination intent)) = Ok (la_zone (ci_destination intent))"
    and "address_zone (la_address (ci_refund intent)) = Ok (la_zone (ci_refund intent))"
    using assms(1) by (simp_all add: wf_intent_def wf_ledger_address_def)
  then show "la_zone (ci_destination intent) = origin" and "la_zone (ci_refund intent) = origin"
    using assms(2,3) conversion_data_parts(2) [OF assms(1)]
    by (cases converted; auto simp: qi_valid_def conversion_payload_def output_scope_def paid_outputs_def mode_data_def
        located_def)+
qed

lemma payload_parts:
  assumes "wf_intent intent"
  shows "Address (drop 2 (qx_data (conversion_payload chain_id inputs converted change intent))) = la_address (ci_refund intent)"
    and "ConversionSlippage (word_of_nat (be_nat (take 2 (qx_data (conversion_payload chain_id inputs converted change intent))))) =
      ci_slippage intent"
  by (cases "la_address (ci_refund intent)"; cases "ci_slippage intent";
      simp add: conversion_payload_def conversion_data_parts [OF assms])+

lemma ledger_address_eta: "la_zone a = z \<Longrightarrow> \<lparr>la_address = la_address a, la_zone = z\<rparr> = a"
  by (cases a) simp

lemma payload_classified:
  assumes "wf_intent intent" and "converted \<noteq> []"
    and "list_all (\<lambda>out. address_ledger (qo_address out) = Qi) change"
    and tx: "tx = conversion_payload chain_id inputs converted change intent"
  shows "conversion_from_transaction k tx = Ok c \<longleftrightarrow>
    cv_intent c = intent \<and> cv_transaction c = tx \<and> qi_valid k Conversion tx (la_zone (ci_destination intent))"
proof -
  define D R where "D = ci_destination intent" and "R = ci_refund intent"
  have "address_ledger (la_address D) = Quai" using assms(1) by (simp add: wf_intent_def wf_ledger_address_def D_def)
  have zones: "la_zone D = origin" "la_zone R = origin" if "qi_valid k Conversion tx origin" for origin
    using payload_zones [OF assms(1,2) that [unfolded tx]] by (simp_all add: D_def R_def)
  have d: "set (ledger_outputs Quai (qx_outputs tx)) = {la_address D}"
    using \<open>address_ledger (la_address D) = Quai\<close> ledger_outputs_paid(1) [of D change converted] assms(2,3) by (simp add: tx conversion_payload_def D_def)
  have "conversion_from_transaction k tx = Ok c \<longleftrightarrow> cv_transaction c = tx \<and> (\<exists>origin.
      qi_valid k Conversion tx origin \<and> ci_destination (cv_intent c) = \<lparr>la_address = la_address D, la_zone = origin\<rparr> \<and>
      ci_refund (cv_intent c) = \<lparr>la_address = la_address R, la_zone = origin\<rparr> \<and> ci_slippage (cv_intent c) = ci_slippage intent)"
    unfolding conversion_from_transaction_Ok d payload_parts [OF assms(1), of chain_id inputs converted change, folded tx] R_def
    by (cases "ci_destination (cv_intent c)") auto
  also have "\<dots> \<longleftrightarrow> cv_transaction c = tx \<and> qi_valid k Conversion tx (la_zone D) \<and> ci_destination (cv_intent c) = D \<and>
      ci_refund (cv_intent c) = R \<and> ci_slippage (cv_intent c) = ci_slippage intent"
    using zones ledger_address_eta by metis
  finally show ?thesis by (cases "cv_intent c"; cases intent) (auto simp: D_def R_def)
qed

lemma conversion_new_Ok:
  assumes "wf_intent intent"
  shows "conversion_new k chain_id inputs converted change intent = Ok c \<longleftrightarrow>
    converted \<noteq> [] \<and> list_all (\<lambda>out. address_ledger (qo_address out) = Qi) change \<and> cv_intent c = intent \<and>
    cv_transaction c = conversion_payload chain_id inputs converted change intent \<and>
    qi_valid k Conversion (cv_transaction c) (la_zone (ci_destination intent))"
proof -
  have "length inputs * 3 + (length converted + length change) + 3 \<le> MAX_TRANSACTION_MESSAGES"
    if "conversion_from_transaction k (conversion_payload chain_id inputs converted change intent) = Ok c"
    using that by (auto simp: conversion_from_transaction_Ok qi_valid_def conversion_payload_def paid_outputs_def add.assoc)
  then have "conversion_new k chain_id inputs converted change intent = Ok c \<longleftrightarrow> converted \<noteq> [] \<and>
      list_all (\<lambda>out. address_ledger (qo_address out) = Qi) change \<and>
      conversion_from_transaction k (conversion_payload chain_id inputs converted change intent) = Ok c"
    unfolding conversion_new_def rbind_eq_Ok by (auto simp: builder_checks_Ok)
  then show ?thesis
    using payload_classified [OF assms _ _ refl, of converted change k chain_id inputs c] by auto
qed

section \<open>The discount in closed form\<close>

text \<open>
  Ten basis points plus ten times the cubed ratio, rounded up, between 20 and 9000.
\<close>

lemma ceil_nat:
  assumes "0 < (b :: nat)"
  shows "(a + b - Suc 0) div b = (if a mod b = 0 then a div b else a div b + 1)"
proof -
  define q r where "q = a div b" and "r = a mod b"
  have a: "a = q * b + r" and r: "r < b" using assms by (simp_all add: q_def r_def)
  have "a + b - Suc 0 = q * b + (r + b - 1)" using a assms by linarith
  then have "(a + b - Suc 0) div b = (q * b + (r + b - 1)) div b" by simp
  also have "\<dots> = q + (r + b - 1) div b" using assms by (subst div_mult_self3) simp_all
  also have "(r + b - 1) div b = of_bool (r \<noteq> 0)"
  proof (cases r)
    case (Suc m)
    then have "r + b - 1 = m + b" and "m < b" using r by simp_all
    then show ?thesis using Suc assms by (simp add: div_add_self2)
  qed (use assms in simp)
  finally show ?thesis by (simp add: q_def r_def)
qed

lemma unat_div_ceil:
  assumes "b \<noteq> 0"
  shows "unat (div_ceil a b) = (unat a + unat b - 1) div unat b"
proof -
  have b: "0 < unat b" using assms by (simp add: unat_gt_0)
  show ?thesis
  proof (cases "a mod b = 0")
    case True
    then have "unat a mod unat b = 0" by (metis unat_0 unat_mod)
    then show ?thesis by (simp add: div_ceil_def True ceil_nat [OF b] unat_div)
  next
    case False
    then have m: "unat a mod unat b \<noteq> 0" by (metis unat_eq_0 unat_mod)
    then have "1 < unat b" and "0 < unat a" using b by (cases "unat b = 1"; cases "unat a"; simp)+
    then have "unat a div unat b < unat a" by simp
    then have "unat (a div b) + unat (1 :: u256) < 2 ^ LENGTH(256)"
      using less_trans_Suc [OF _ unsigned_less [of a]] by (simp only: unat_div unsigned_1) simp
    then have "unat (a div b + 1) = unat a div unat b + 1"
      by (simp add: unat_add_lem [THEN iffD1] unat_div)
    then show ?thesis using m False by (simp add: div_ceil_def ceil_nat [OF b])
  qed
qed
definition discount_nat :: "nat \<Rightarrow> nat \<Rightarrow> nat" where
  "discount_nat T F = (if T \<le> F then 20 else min 9000 (10 + (10 * T ^ 3 + F ^ 3 - Suc 0) div F ^ 3))"

lemma ceil_bounds:
  assumes "0 < (b :: nat)"
  shows "m * b \<le> a \<Longrightarrow> m \<le> (a + b - Suc 0) div b" and "a \<le> m * b \<Longrightarrow> (a + b - Suc 0) div b \<le> m"
proof -
  assume "m * b \<le> a"
  then have "m * b \<le> a + b - Suc 0" using assms by linarith
  then show "m \<le> (a + b - Suc 0) div b" using assms by (simp add: less_eq_div_iff_mult_less_eq)
next
  assume "a \<le> m * b"
  then have "a + b - Suc 0 < Suc m * b" using assms by simp
  then have "(a + b - Suc 0) div b < Suc m" using assms by (simp add: div_less_iff_less_mult)
  then show "(a + b - Suc 0) div b \<le> m" by simp
qed

lemma cubic_chain:
  assumes "F < T" and "T \<le> 10 * F"
  shows "(10 * T ^ 3 + F ^ 3 - Suc 0) div F ^ 3 \<le> 10000"
proof (rule ceil_bounds(2))
  have "T ^ 3 \<le> (10 * F) ^ 3" using assms(2) by (rule power_mono) simp
  then show "10 * T ^ 3 \<le> 10000 * F ^ 3" by (simp add: power_mult_distrib)
qed (use assms in simp)

lemma discount_far:
  assumes "0 < F" and "10 * F < T"
  shows "discount_nat T F = 9000"
proof -
  have "(10 * F) ^ 3 \<le> T ^ 3" using assms by (intro power_mono) simp_all
  then have "10000 * F ^ 3 \<le> 10 * T ^ 3" by (simp add: power_mult_distrib)
  then have "10000 \<le> (10 * T ^ 3 + F ^ 3 - Suc 0) div F ^ 3" using assms(1) by (intro ceil_bounds(1)) simp_all
  then show ?thesis using assms by (simp add: discount_nat_def)
qed

lemma word_of_unat_ex: "x < 2 ^ LENGTH('a) \<Longrightarrow> \<exists>w :: 'a::len word. unat w = x"
  using unat_of_nat_small by blast

lemma cube_words:
  assumes "f < t" and "10 * t ^ 3 < 2 ^ LENGTH(256)"
  shows "\<exists>(n :: u256) (m :: u256) (N :: u256) (e :: u256) (D :: u256). unat n = t * t \<and> unat m = t * t * t \<and> unat N = 10 * t ^ 3 \<and> unat e = f * f \<and> unat D = f * f * f"
proof -
  define P :: nat where "P = 2 ^ LENGTH(256)"
  have "10 * t ^ 3 < P" using assms(2) by (simp only: P_def)
  moreover have "f * f \<le> t * t" "f * f * f \<le> t * t * t" using assms(1) by (simp_all add: mult_le_mono)
  moreover have "t * t * 1 \<le> t * t * t" using assms(1) by (intro mult_le_mono2) simp
  ultimately have "t * t < P" "t * t * t < P" "10 * t ^ 3 < P" "f * f < P" "f * f * f < P"
    using power3_eq_cube [of t] by linarith+
  then show ?thesis unfolding P_def using word_of_unat_ex [where 'a = 256] by metis
qed

lemma cubic_bps:
  assumes "F < T" and "unat T \<le> 10 * unat F"
  shows "Option.bind (checked_mul T T) (\<lambda>n. Option.bind (checked_mul n T) (\<lambda>n.
      Option.bind (checked_mul n 10) (\<lambda>numerator. Option.bind (checked_mul F F) (\<lambda>d.
        Option.bind (checked_mul d F) (\<lambda>denominator. Option.bind (checked_add (div_ceil numerator denominator) 10) (\<lambda>bps.
          checked_cast (min bps 9000))))))) = Some d \<longleftrightarrow>
    10 * unat T ^ 3 < 2 ^ LENGTH(256) \<and> unat d = discount_nat (unat T) (unat F)" (is "?lhs \<longleftrightarrow> ?rhs")
proof -
  define t f where "t = unat T" and "f = unat F"
  let ?c = "(10 * t ^ 3 + f ^ 3 - Suc 0) div f ^ 3"
  have tf: "f < t" "t \<le> 10 * f" using assms by (simp_all add: t_def f_def word_less_nat_alt)
  have c: "?c \<le> 10000" by (rule cubic_chain [OF tf])
  have "0 < f ^ 3" using tf by simp
  then have ceil: "unat (div_ceil N D) = ?c" if "unat N = 10 * t ^ 3" "unat D = f ^ 3" for N D
    using unat_div_ceil [of D N] that unat_eq_0 [of D] by fastforce
  have unat_numerals: "unat (10 :: u256) = 10" by simp
  have m: "unat (min b 9000) = min 9000 (unat b)" for b :: u256 by (simp add: min_def word_le_nat_alt)
  have cubes: "x * x * x = x ^ 3" for x :: nat by (simp add: power3_eq_cube)
  have "?lhs \<longleftrightarrow> (\<exists>(n :: u256) (m :: u256) N (e :: u256) D (b :: u256). unat n = t * t \<and> unat m = unat n * t \<and> unat N = unat m * 10 \<and> unat e = f * f \<and>
      unat D = unat e * f \<and> unat b = unat (div_ceil N D) + 10 \<and> unat d = unat (min b 9000))"
    unfolding Option.bind_eq_Some_conv checked_mul_Some checked_add_Some checked_cast_Some t_def f_def unat_numerals by blast
  also have "\<dots> \<longleftrightarrow> ?rhs"
  proof
    assume "\<exists>(n :: u256) (m :: u256) N (e :: u256) D (b :: u256). unat n = t * t \<and> unat m = unat n * t \<and> unat N = unat m * 10 \<and> unat e = f * f \<and>
      unat D = unat e * f \<and> unat b = unat (div_ceil N D) + 10 \<and> unat d = unat (min b (9000 :: u256))"
    then obtain n m N e D b :: u256 where c: "unat n = t * t" "unat m = unat n * t" "unat N = unat m * 10"
        "unat e = f * f" "unat D = unat e * f"
      and b: "unat b = unat (div_ceil N D) + 10" "unat d = unat (min b 9000)" by blast
    then have w: "unat N = 10 * t ^ 3" "unat D = f ^ 3" by (simp_all add: cubes)
    have "unat N < 2 ^ LENGTH(256)" by (rule unsigned_less)
    moreover have "unat d = discount_nat t f" using b tf by (simp add: ceil [OF w] m discount_nat_def add.commute)
    ultimately show ?rhs by (simp only: w(1) t_def f_def simp_thms)
  next
    assume r: ?rhs
    have "10 * t ^ 3 < 2 ^ LENGTH(256)" using r by (simp only: t_def)
    then obtain n m N e D :: u256 where w: "unat n = t * t" "unat m = t * t * t" "unat N = 10 * t ^ 3"
      "unat e = f * f" "unat D = f * f * f"
      using cube_words [OF tf(1)] by blast
    have "?c + 10 < 2 ^ LENGTH(256)" using c by simp
    then obtain b :: u256 where b: "unat b = ?c + 10" using word_of_unat_ex [where 'a = 256] by blast
    have "unat (div_ceil N D) = ?c" using w by (intro ceil) (simp_all add: cubes)
    moreover have "unat d = unat (min b 9000)" using r tf b by (simp add: m discount_nat_def t_def f_def)
    moreover have "unat m = unat n * t" "unat N = unat m * 10" "unat D = unat e * f" using w by (simp_all add: cubes)
    ultimately show "\<exists>(n :: u256) (m :: u256) N (e :: u256) D (b :: u256). unat n = t * t \<and> unat m = unat n * t \<and> unat N = unat m * 10 \<and> unat e = f * f \<and>
      unat D = unat e * f \<and> unat b = unat (div_ceil N D) + 10 \<and> unat d = unat (min b (9000 :: u256))"
      using w(1,4) b by metis
  qed
  finally show ?thesis .
qed

lemma discount_iff:
  "conversion_batch_discount_bps T F = Some d \<longleftrightarrow> F \<noteq> 0 \<and>
     (T \<le> F \<or> 10 * unat F < 2 ^ LENGTH(256) \<and> (10 * unat F < unat T \<or> 10 * unat T ^ 3 < 2 ^ LENGTH(256))) \<and>
     unat d = discount_nat (unat T) (unat F)"
proof (cases "F = 0 \<or> T \<le> F")
  case True
  have "Some 20 = Some d \<longleftrightarrow> unat d = 20" by (auto simp: word_unat_eq_iff)
  then show ?thesis using True by (auto simp: conversion_batch_discount_bps_def discount_nat_def word_le_nat_alt)
next
  case False
  then have F: "F \<noteq> 0" "F < T" "\<not> T \<le> F" by (simp_all add: not_le)
  show ?thesis
  proof (cases "checked_mul F 10")
    case None
    then have "\<not> 10 * unat F < 2 ^ LENGTH(256)" by (simp add: checked_mul_def mult.commute split: if_splits)
    then show ?thesis using F None by (simp only: conversion_batch_discount_bps_def) simp
  next
    case (Some L)
    then have L: "unat L = 10 * unat F" by (simp add: checked_mul_Some)
    have "unat L < 2 ^ LENGTH(256)" by (rule unsigned_less)
    then have l: "10 * unat F < 2 ^ LENGTH(256)" unfolding L .
    have "conversion_batch_discount_bps T F = Some d \<longleftrightarrow>
        (if 10 * unat F < unat T then Some 9000 = Some d
         else 10 * unat T ^ 3 < 2 ^ LENGTH(256) \<and> unat d = discount_nat (unat T) (unat F))"
      using cubic_bps [OF F(2), of d] F Some L
      by (simp add: conversion_batch_discount_bps_def word_less_nat_alt)
    moreover have "discount_nat (unat T) (unat F) = 9000" if "10 * unat F < unat T"
      using discount_far [OF _ that] F(1) by (simp add: unat_gt_0)
    moreover have "Some 9000 = Some d \<longleftrightarrow> unat d = 9000" by (auto simp: word_unat_eq_iff)
    ultimately show ?thesis using F l by (simp split: if_splits)
  qed
qed
lemma discount_range: "0 < F \<Longrightarrow> 20 \<le> discount_nat T F \<and> discount_nat T F \<le> 9000"
proof (cases "T \<le> F")
  case False
  assume "0 < F"
  with False have "F ^ 3 \<le> T ^ 3" and F: "0 < F ^ 3" by (auto intro!: power_mono)
  then have "10 \<le> (10 * T ^ 3 + F ^ 3 - Suc 0) div F ^ 3" by (intro ceil_bounds(1)) simp_all
  then show ?thesis using False by (simp add: discount_nat_def)
qed (auto simp: discount_nat_def)

lemma discount_mono: "0 < F \<Longrightarrow> T \<le> U \<Longrightarrow> discount_nat T F \<le> discount_nat U F"
proof -
  assume "0 < F" and "T \<le> U"
  then have "(10 * T ^ 3 + F ^ 3 - Suc 0) div F ^ 3 \<le> (10 * U ^ 3 + F ^ 3 - Suc 0) div F ^ 3"
    by (intro div_le_mono diff_le_mono add_right_mono mult_left_mono power_mono) simp_all
  then show ?thesis using \<open>T \<le> U\<close> discount_range [OF \<open>0 < F\<close>, of U] by (auto simp: discount_nat_def)
qed

section \<open>Signed bytes\<close>

lemma conversion_attach_Ok:
  "conversion_attach_signature k pr c sig = Ok s \<longleftrightarrow>
     s = \<lparr>sv_transaction = c, sv_signature = sig\<rparr> \<and> verify_signature_for k pr (cv_transaction c) sig Conversion = Ok ()"
  by (auto simp: conversion_attach_signature_def result_simps)

lemma conversion_decode_iff:
  assumes "list_all (\<lambda>i. point_ok k (qi_public_key i)) (qx_inputs (cv_transaction (sv_transaction s)))"
    and "schnorr_ok k (sv_signature s)"
    and "prost_ok pr (qi_signed_message k (cv_transaction (sv_transaction s)) (sv_signature s))"
  shows "conversion_decode k pr bs = Ok s \<longleftrightarrow> wf_qi (cv_transaction (sv_transaction s)) \<and>
    conversion_from_transaction k (cv_transaction (sv_transaction s)) = Ok (sv_transaction s) \<and>
    verify_signature_for k pr (cv_transaction (sv_transaction s)) (sv_signature s) Conversion = Ok () \<and>
    conversion_signed_bytes k pr s = Ok bs" (is "_ \<longleftrightarrow> ?valid")
proof
  assume "conversion_decode k pr bs = Ok s"
  then obtain p tx c sig where p: "from_proto_for k p Conversion = Ok tx" and c: "conversion_from_transaction k tx = Ok c"
    and a: "conversion_attach_signature k pr c sig = Ok s" and b: "conversion_signed_bytes k pr s = Ok bs"
    by (auto simp: conversion_decode_def result_simps split: if_splits)
  have "cv_transaction c = tx" using c by (simp add: conversion_from_transaction_Ok)
  then show ?valid using a b c from_proto_valid(1) [OF p] by (simp add: conversion_attach_Ok)
next
  assume v: ?valid
  then have b: "signed_bytes_for k pr (cv_transaction (sv_transaction s)) (sv_signature s) Conversion = Ok bs"
    by (simp add: conversion_signed_bytes_def)
  note m = signed_message_decodes [OF conjunct1 [OF v] assms b]
  have "conversion_attach_signature k pr (sv_transaction s) (sv_signature s) = Ok s"
    using v by (simp add: conversion_attach_Ok)
  then show "conversion_decode k pr bs = Ok s" using v by (simp add: conversion_decode_def m)
qed


definition sample_intent :: conversion_intent where
  "sample_intent = \<lparr>ci_destination = \<lparr>la_address = address_zero, la_zone = Cyprus1\<rparr>,
     ci_refund = \<lparr>la_address = Address ([0, 128] @ replicate 18 2), la_zone = Cyprus1\<rparr>,
     ci_slippage = ConversionSlippage 50\<rparr>"

definition sample_conversion :: "bytes qi_conversion" where
  "sample_conversion = \<lparr>cv_transaction = conversion_payload 9 (qx_inputs sample_qi) [Denomination 14] (qx_outputs sample_qi) sample_intent,
     cv_intent = sample_intent\<rparr>"

lemma sample_zero: "located Quai Cyprus1 address_zero"
  by (simp add: located_def address_zero_def address_zone_def address_ledger_def zone_from_byte_def)

lemma sample_qi_ledger: "address_ledger (Address (0 # 128 # r)) = Qi" "address_zone (Address (0 # 128 # r)) = Ok Cyprus1"
  using sample_located [of r] by (simp_all add: located_def)

lemma sample_intent_wf: "wf_intent sample_intent"
  using sample_zero by (simp add: wf_intent_def sample_intent_def wf_ledger_address_def located_def sample_qi_ledger wf_address_def)

lemma sample_conversion_valid: "qi_valid sample_k256 Conversion (cv_transaction sample_conversion) Cyprus1"
proof -
  have d: "length (conversion_data sample_intent) = 22"
    by (simp add: conversion_data_def slippage_bytes_def sample_intent_def)
  have m: "mode_data Conversion Cyprus1 (conversion_data sample_intent)"
    using conversion_data_parts [OF sample_intent_wf]
    by (simp add: mode_data_def d sample_located) (simp add: sample_intent_def sample_located)
  have z: "address_ledger address_zero = Quai" "address_zone address_zero = Ok Cyprus1"
    using sample_zero by (simp_all add: located_def)
  have "replicate 18 (1 :: u8) \<noteq> replicate 18 0" by (simp add: replicate_eq_replicate)
  then show ?thesis
    using m d by (simp add: qi_valid_def sample_conversion_def conversion_payload_def paid_outputs_def sample_qi_simps
        sample_qi_ledger MAX_TRANSACTION_MESSAGES_def MAX_TRANSACTION_BYTES_def z) (simp add: sample_intent_def z)
qed



end
