(* ===== verification/Qi_Wrapping.thy ===== *)
theory Qi_Wrapping
  imports Qi_Conversion
begin

text \<open>
  Qi wrapping envelopes, \<open>quai-consensus/src/wrapping.rs\<close>, and the dispatch over the three signed
  operations, \<open>quai-consensus/src/qi_operation.rs\<close>.
\<close>

section \<open>Wrapping\<close>

record wrapping_intent =
  wi_destination :: quai_address
  wi_owner_contract :: quai_address

record 'pt qi_wrapping =
  wr_transaction :: "'pt qi_transaction"
  wr_intent :: wrapping_intent

definition wrapping_from_transaction ::
  "('pt, 'ec, 'sc, 'sk) k256 \<Rightarrow> 'pt qi_transaction \<Rightarrow> ('pt qi_wrapping, transaction_error) result" where
  "wrapping_from_transaction k tx =
     rbind (validate_for k tx Wrapping) (\<lambda>_.
       rbind (ok_or (find_quai (qx_outputs tx)) TxInvalidScope) (\<lambda>destination.
         rbind (map_err (\<lambda>_. TxInvalidScope) (address_try_from (qx_data tx))) (\<lambda>a.
           rbind (map_err (\<lambda>_. TxInvalidScope) (quai_address_try_from a)) (\<lambda>owner.
             Ok \<lparr>wr_transaction = tx, wr_intent = \<lparr>wi_destination = destination, wi_owner_contract = owner\<rparr>\<rparr>))))"

definition wrapping_payload ::
  "u256 \<Rightarrow> 'pt qi_input list \<Rightarrow> denomination list \<Rightarrow> qi_output list \<Rightarrow> wrapping_intent \<Rightarrow> 'pt qi_transaction" where
  "wrapping_payload chain_id inputs wrapped change intent =
     \<lparr>qx_chain_id = chain_id, qx_inputs = inputs, qx_outputs = paid_outputs (wi_destination intent) wrapped @ change,
      qx_data = address_bytes (la_address (wi_owner_contract intent))\<rparr>"

definition wrapping_new ::
  "('pt, 'ec, 'sc, 'sk) k256 \<Rightarrow> u256 \<Rightarrow> 'pt qi_input list \<Rightarrow> denomination list \<Rightarrow> qi_output list \<Rightarrow>
     wrapping_intent \<Rightarrow> ('pt qi_wrapping, transaction_error) result" where
  "wrapping_new k chain_id inputs wrapped change intent =
     rbind (builder_checks ''missing wrapping output'' (length inputs) wrapped change) (\<lambda>_.
       wrapping_from_transaction k (wrapping_payload chain_id inputs wrapped change intent))"

definition wrapping_origin :: "'pt qi_wrapping \<Rightarrow> zone" where
  "wrapping_origin w = la_zone (wi_destination (wr_intent w))"

definition wrapping_unsigned_bytes ::
  "('pt, 'ec, 'sc, 'sk) k256 \<Rightarrow> prost \<Rightarrow> 'pt qi_wrapping \<Rightarrow> (bytes, transaction_error) result" where
  "wrapping_unsigned_bytes k pr w = rbind (protobuf_for k (wr_transaction w) Wrapping) (encode pr)"

definition wrapping_signing_digest ::
  "('pt, 'ec, 'sc, 'sk) k256 \<Rightarrow> prost \<Rightarrow> 'pt qi_wrapping \<Rightarrow> (hash32, transaction_error) result" where
  "wrapping_signing_digest k pr w = rbind (wrapping_unsigned_bytes k pr w) (\<lambda>bs. Ok (Hash32 (k_keccak k bs)))"

definition wrapping_decode_unsigned ::
  "('pt, 'ec, 'sc, 'sk) k256 \<Rightarrow> prost \<Rightarrow> bytes \<Rightarrow> ('pt qi_wrapping, transaction_error) result" where
  "wrapping_decode_unsigned k pr bs =
     rbind (decode pr bs) (\<lambda>p. rbind (from_proto_for k p Wrapping) (\<lambda>tx.
       rbind (wrapping_from_transaction k tx) (\<lambda>w.
         rbind (wrapping_unsigned_bytes k pr w) (\<lambda>b. if b \<noteq> bs then Err TxInvalidEncoding else Ok w))))"

record ('pt, 'sc) signed_wrapping =
  sw_transaction :: "'pt qi_wrapping"
  sw_signature :: 'sc

definition wrapping_attach_signature ::
  "('pt, 'ec, 'sc, 'sk) k256 \<Rightarrow> prost \<Rightarrow> 'pt qi_wrapping \<Rightarrow> 'sc \<Rightarrow> (('pt, 'sc) signed_wrapping, transaction_error) result" where
  "wrapping_attach_signature k pr w signature =
     rbind (verify_signature_for k pr (wr_transaction w) signature Wrapping)
       (\<lambda>_. Ok \<lparr>sw_transaction = w, sw_signature = signature\<rparr>)"

definition wrapping_sign_local ::
  "('pt, 'ec, 'sc, 'sk) k256 \<Rightarrow> prost \<Rightarrow> 'pt qi_wrapping \<Rightarrow> 'sk list \<Rightarrow> (('pt, 'sc) signed_wrapping, transaction_error) result" where
  "wrapping_sign_local k pr w keys =
     rbind (sign_local_for k pr (wr_transaction w) keys Wrapping) (wrapping_attach_signature k pr w)"

definition wrapping_sign_single ::
  "('pt, 'ec, 'sc, 'sk) k256 \<Rightarrow> prost \<Rightarrow> 'pt qi_wrapping \<Rightarrow> 'sk \<Rightarrow> (('pt, 'sc) signed_wrapping, transaction_error) result" where
  "wrapping_sign_single k pr w key =
     (if length (qx_inputs (wr_transaction w)) \<noteq> 1 then Err (TxInvalidField ''expected single input'')
      else wrapping_sign_local k pr w [key])"

definition wrapping_signed_bytes ::
  "('pt, 'ec, 'sc, 'sk) k256 \<Rightarrow> prost \<Rightarrow> ('pt, 'sc) signed_wrapping \<Rightarrow> (bytes, transaction_error) result" where
  "wrapping_signed_bytes k pr s = signed_bytes_for k pr (wr_transaction (sw_transaction s)) (sw_signature s) Wrapping"

definition wrapping_hash ::
  "('pt, 'ec, 'sc, 'sk) k256 \<Rightarrow> prost \<Rightarrow> ('pt, 'sc) signed_wrapping \<Rightarrow> (hash32, transaction_error) result" where
  "wrapping_hash k pr s =
     rbind (wrapping_signed_bytes k pr s) (\<lambda>bs.
       Ok (located_hash (zone_byte (wrapping_origin (sw_transaction s))) (k_keccak k bs)))"

definition wrapping_decode ::
  "('pt, 'ec, 'sc, 'sk) k256 \<Rightarrow> prost \<Rightarrow> bytes \<Rightarrow> (('pt, 'sc) signed_wrapping, transaction_error) result" where
  "wrapping_decode k pr bs =
     rbind (decode pr bs) (\<lambda>p. rbind (from_proto_for k p Wrapping) (\<lambda>tx.
       rbind (wrapping_from_transaction k tx) (\<lambda>w.
         rbind (signature_field k p) (\<lambda>signature.
           rbind (wrapping_attach_signature k pr w signature) (\<lambda>signed.
             rbind (wrapping_signed_bytes k pr signed) (\<lambda>b.
               if b \<noteq> bs then Err TxInvalidEncoding else Ok signed))))))"

section \<open>Operation dispatch\<close>

datatype ('pt, 'sc) signed_qi_operation =
    OpTransfer "('pt, 'sc) signed_qi"
  | OpConversion "('pt, 'sc) signed_conversion"
  | OpWrapping "('pt, 'sc) signed_wrapping"

definition operation_decode ::
  "('pt, 'ec, 'sc, 'sk) k256 \<Rightarrow> prost \<Rightarrow> bytes \<Rightarrow> (('pt, 'sc) signed_qi_operation, transaction_error) result" where
  "operation_decode k pr bs =
     rbind (decode pr bs) (\<lambda>p.
       let n = (case pt_data p of None \<Rightarrow> 0 | Some d \<Rightarrow> length d)
       in if n = 0 then rbind (qi_signed_decode k pr bs) (\<lambda>s. Ok (OpTransfer s))
          else if n = 20 then rbind (wrapping_decode k pr bs) (\<lambda>s. Ok (OpWrapping s))
          else if n = 22 then rbind (conversion_decode k pr bs) (\<lambda>s. Ok (OpConversion s))
          else Err (TxInvalidField ''unsupported Qi operation data''))"

fun operation_transaction :: "('pt, 'sc) signed_qi_operation \<Rightarrow> 'pt qi_transaction" where
  "operation_transaction (OpTransfer s) = sx_transaction s"
| "operation_transaction (OpConversion s) = cv_transaction (sv_transaction s)"
| "operation_transaction (OpWrapping s) = wr_transaction (sw_transaction s)"

fun operation_origin_zone ::
  "('pt, 'ec, 'sc, 'sk) k256 \<Rightarrow> ('pt, 'sc) signed_qi_operation \<Rightarrow> (zone, transaction_error) result" where
  "operation_origin_zone k (OpTransfer s) = origin_zone k (sx_transaction s)"
| "operation_origin_zone k (OpConversion s) = Ok (conversion_origin (sv_transaction s))"
| "operation_origin_zone k (OpWrapping s) = Ok (wrapping_origin (sw_transaction s))"

fun operation_hash ::
  "('pt, 'ec, 'sc, 'sk) k256 \<Rightarrow> prost \<Rightarrow> ('pt, 'sc) signed_qi_operation \<Rightarrow> (hash32, transaction_error) result" where
  "operation_hash k pr (OpTransfer s) = qi_hash k pr s"
| "operation_hash k pr (OpConversion s) = conversion_hash k pr s"
| "operation_hash k pr (OpWrapping s) = wrapping_hash k pr s"

fun operation_signed_bytes ::
  "('pt, 'ec, 'sc, 'sk) k256 \<Rightarrow> prost \<Rightarrow> ('pt, 'sc) signed_qi_operation \<Rightarrow> (bytes, transaction_error) result" where
  "operation_signed_bytes k pr (OpTransfer s) = qi_signed_bytes k pr s"
| "operation_signed_bytes k pr (OpConversion s) = conversion_signed_bytes k pr s"
| "operation_signed_bytes k pr (OpWrapping s) = wrapping_signed_bytes k pr s"

section \<open>Classification and signed bytes of a wrapping\<close>

lemma wrapping_from_transaction_Ok:
  "wrapping_from_transaction k tx = Ok w \<longleftrightarrow> wr_transaction w = tx \<and>
    (\<exists>origin. qi_valid k Wrapping tx origin \<and>
      set (ledger_outputs Quai (qx_outputs tx)) = {la_address (wi_destination (wr_intent w))} \<and>
      la_zone (wi_destination (wr_intent w)) = origin \<and>
      wi_owner_contract (wr_intent w) = \<lparr>la_address = Address (qx_data tx), la_zone = origin\<rparr>)"
    (is "?lhs \<longleftrightarrow> ?rhs")
proof (cases "validate_for k tx Wrapping")
  case (Inl e)
  then have "\<not> qi_valid k Wrapping tx origin" for origin by (simp add: validate_for_Ok [symmetric])
  then show ?thesis by (simp add: wrapping_from_transaction_def Inl)
next
  case (Inr z)
  then have z: "qi_valid k Wrapping tx origin \<longleftrightarrow> origin = z" for origin by (auto simp: validate_for_Ok [symmetric])
  then have v: "qi_valid k Wrapping tx z" by simp
  then have "length (qx_data tx) = 20" and o: "located Quai z (Address (qx_data tx))"
    by (simp_all add: qi_valid_def mode_data_def)
  then have "?lhs \<longleftrightarrow> (\<exists>d. find_quai (qx_outputs tx) = Some d \<and> w = \<lparr>wr_transaction = tx,
      wr_intent = \<lparr>wi_destination = d, wi_owner_contract = \<lparr>la_address = Address (qx_data tx), la_zone = z\<rparr>\<rparr>\<rparr>)"
    by (auto simp: wrapping_from_transaction_def Inr address_try_from_def located_try_from(1) [OF o] result_simps)
  also have "\<dots> \<longleftrightarrow> ?rhs"
    unfolding find_quai_valid [OF v qi_mode.distinct(4)] z by (cases w; cases "wr_intent w") auto
  finally show ?thesis .
qed

lemma wrapping_attach_Ok:
  "wrapping_attach_signature k pr w sig = Ok s \<longleftrightarrow>
     s = \<lparr>sw_transaction = w, sw_signature = sig\<rparr> \<and> verify_signature_for k pr (wr_transaction w) sig Wrapping = Ok ()"
  by (auto simp: wrapping_attach_signature_def result_simps)

lemma wrapping_decode_iff:
  assumes "list_all (\<lambda>i. point_ok k (qi_public_key i)) (qx_inputs (wr_transaction (sw_transaction s)))"
    and "schnorr_ok k (sw_signature s)"
    and "prost_ok pr (qi_signed_message k (wr_transaction (sw_transaction s)) (sw_signature s))"
  shows "wrapping_decode k pr bs = Ok s \<longleftrightarrow> wf_qi (wr_transaction (sw_transaction s)) \<and>
    wrapping_from_transaction k (wr_transaction (sw_transaction s)) = Ok (sw_transaction s) \<and>
    verify_signature_for k pr (wr_transaction (sw_transaction s)) (sw_signature s) Wrapping = Ok () \<and>
    wrapping_signed_bytes k pr s = Ok bs" (is "_ \<longleftrightarrow> ?valid")
proof
  assume "wrapping_decode k pr bs = Ok s"
  then obtain p tx w sig where p: "from_proto_for k p Wrapping = Ok tx" and w: "wrapping_from_transaction k tx = Ok w"
    and a: "wrapping_attach_signature k pr w sig = Ok s" and b: "wrapping_signed_bytes k pr s = Ok bs"
    by (auto simp: wrapping_decode_def result_simps split: if_splits)
  have "wr_transaction w = tx" using w by (simp add: wrapping_from_transaction_Ok)
  then show ?valid using a b w from_proto_valid(1) [OF p] by (simp add: wrapping_attach_Ok)
next
  assume v: ?valid
  then have b: "signed_bytes_for k pr (wr_transaction (sw_transaction s)) (sw_signature s) Wrapping = Ok bs"
    by (simp add: wrapping_signed_bytes_def)
  note m = signed_message_decodes [OF conjunct1 [OF v] assms b]
  have "wrapping_attach_signature k pr (sw_transaction s) (sw_signature s) = Ok s"
    using v by (simp add: wrapping_attach_Ok)
  then show "wrapping_decode k pr bs = Ok s" using v by (simp add: wrapping_decode_def m)
qed

section \<open>Dispatch is exact\<close>

fun operation_mode :: "('pt, 'sc) signed_qi_operation \<Rightarrow> qi_mode" where
  "operation_mode (OpTransfer _) = Ordinary"
| "operation_mode (OpConversion _) = Conversion"
| "operation_mode (OpWrapping _) = Wrapping"

fun operation_signature :: "('pt, 'sc) signed_qi_operation \<Rightarrow> 'sc" where
  "operation_signature (OpTransfer s) = sx_signature s"
| "operation_signature (OpConversion s) = sv_signature s"
| "operation_signature (OpWrapping s) = sw_signature s"

text \<open>The stored intent is the one the payload classifies to.\<close>

fun operation_classified :: "('pt, 'ec, 'sc, 'sk) k256 \<Rightarrow> ('pt, 'sc) signed_qi_operation \<Rightarrow> bool" where
  "operation_classified k (OpTransfer s) \<longleftrightarrow> True"
| "operation_classified k (OpConversion s) \<longleftrightarrow>
     conversion_from_transaction k (cv_transaction (sv_transaction s)) = Ok (sv_transaction s)"
| "operation_classified k (OpWrapping s) \<longleftrightarrow>
     wrapping_from_transaction k (wr_transaction (sw_transaction s)) = Ok (sw_transaction s)"

lemma operation_signed_bytes_eq:
  "operation_signed_bytes k pr op = signed_bytes_for k pr (operation_transaction op) (operation_signature op) (operation_mode op)"
  by (cases op) (simp_all add: qi_signed_bytes_def conversion_signed_bytes_def wrapping_signed_bytes_def)

lemma verified_data:
  assumes "verify_signature_for k pr tx sig mode = Ok ()"
  shows "length (qx_data tx) = (case mode of Ordinary \<Rightarrow> 0 | Wrapping \<Rightarrow> 20 | Conversion \<Rightarrow> 22)"
    and "\<exists>origin. qi_valid k mode tx origin"
proof -
  show v: "\<exists>origin. qi_valid k mode tx origin"
    using assms by (auto simp: verify_signature_for_def result_simps validate_for_Ok)
  show "length (qx_data tx) = (case mode of Ordinary \<Rightarrow> 0 | Wrapping \<Rightarrow> 20 | Conversion \<Rightarrow> 22)"
    using assms v by (cases mode) (auto simp: qi_valid_def mode_data_def verify_signature_for_def result_simps
        validate_ordinary_signing_def split: if_splits)
qed

lemma operation_decode_iff:
  assumes "list_all (\<lambda>i. point_ok k (qi_public_key i)) (qx_inputs (operation_transaction op))"
    and "schnorr_ok k (operation_signature op)"
    and "prost_ok pr (qi_signed_message k (operation_transaction op) (operation_signature op))"
  shows "operation_decode k pr bs = Ok op \<longleftrightarrow> wf_qi (operation_transaction op) \<and> operation_classified k op \<and>
    verify_signature_for k pr (operation_transaction op) (operation_signature op) (operation_mode op) = Ok () \<and>
    operation_signed_bytes k pr op = Ok bs" (is "_ \<longleftrightarrow> ?valid")
proof -
  have variant: "(case op of OpTransfer s \<Rightarrow> qi_signed_decode k pr bs = Ok s
      | OpConversion s \<Rightarrow> conversion_decode k pr bs = Ok s | OpWrapping s \<Rightarrow> wrapping_decode k pr bs = Ok s) \<longleftrightarrow> ?valid"
    using assms by (cases op) (simp_all add: qi_signed_decode_iff conversion_decode_iff wrapping_decode_iff)
  show ?thesis
  proof
    assume "operation_decode k pr bs = Ok op"
    then show ?valid unfolding variant [symmetric]
      by (auto simp: operation_decode_def result_simps Let_def split: if_splits)
  next
    assume v: ?valid
    then have "signed_bytes_for k pr (operation_transaction op) (operation_signature op) (operation_mode op) = Ok bs"
      by (simp add: operation_signed_bytes_eq)
    from signed_message_decodes(1) [OF conjunct1 [OF v] assms this]
    have d: "decode pr bs = Ok (qi_signed_message k (operation_transaction op) (operation_signature op))" .
    have "length (qx_data (operation_transaction op)) = (case operation_mode op of Ordinary \<Rightarrow> 0 | Wrapping \<Rightarrow> 20 | Conversion \<Rightarrow> 22)"
      using v by (intro verified_data(1)) blast
    with v [folded variant] d show "operation_decode k pr bs = Ok op"
      by (cases op) (simp_all add: operation_decode_def qi_signed_message_def qi_message_def)
  qed
qed

lemma operation_origin_valid:
  assumes "operation_classified k op"
    and "verify_signature_for k pr (operation_transaction op) (operation_signature op) (operation_mode op) = Ok ()"
  shows "\<exists>origin. operation_origin_zone k op = Ok origin \<and> qi_valid k (operation_mode op) (operation_transaction op) origin"
  using assms verified_data(2) [OF assms(2)]
  by (cases op) (auto simp: origin_zone_def validate_for_Ok conversion_from_transaction_Ok wrapping_from_transaction_Ok
      conversion_origin_def wrapping_origin_def)

text \<open>
  C10: decoding a signed operation is exact across the three kinds. Bytes decode to an operation
  exactly when its payload is well formed, its stored intent is the one the payload classifies to,
  its signature verifies under the rules of its kind, and the bytes are its own signed bytes; the
  data length that selects the kind never sends the bytes of one kind to another.
\<close>

theorem operation_decode_exact:
  assumes "list_all (\<lambda>i. point_ok k (qi_public_key i)) (qx_inputs (operation_transaction op))"
    and "schnorr_ok k (operation_signature op)"
    and "prost_ok pr (qi_signed_message k (operation_transaction op) (operation_signature op))"
  shows "operation_decode k pr bs = Ok op \<longleftrightarrow> wf_qi (operation_transaction op) \<and> operation_classified k op \<and>
    verify_signature_for k pr (operation_transaction op) (operation_signature op) (operation_mode op) = Ok () \<and>
    operation_signed_bytes k pr op = Ok bs"
  by (rule operation_decode_iff [OF assms])

text \<open>A signed conversion on chain 9, and a codec that knows its message.\<close>

definition sample_signed_conversion :: "(bytes, bytes) signed_conversion" where
  "sample_signed_conversion = \<lparr>sv_transaction = sample_conversion, sv_signature = replicate 64 1\<rparr>"

definition conversion_prost :: prost where
  "conversion_prost = \<lparr>prost_encode = \<lambda>p. [8, 0],
     prost_decode = \<lambda>bs. Some (qi_signed_message sample_k256 (cv_transaction sample_conversion) (replicate 64 1))\<rparr>"

lemma sample_conversion_inputs: "qx_inputs (cv_transaction sample_conversion) = qx_inputs sample_qi"
  by (simp add: sample_conversion_def conversion_payload_def)

lemma sample_conversion_verifies:
  "verify_signature_for sample_k256 conversion_prost (cv_transaction sample_conversion) (replicate 64 1) Conversion = Ok ()"
proof -
  have "validate_for sample_k256 (cv_transaction sample_conversion) Conversion = Ok Cyprus1"
    using sample_conversion_valid by (simp add: validate_for_Ok)
  moreover have "to_compressed sample_k256 (qi_public_key (hd (qx_inputs sample_qi))) = [2] @ replicate 12 0 @ [0, 128] @ replicate 18 0"
    by (simp add: to_compressed_def sample_k256_def sample_qi_def)
  moreover have "length (qx_inputs sample_qi) = 1" by (simp add: sample_qi_def)
  ultimately show ?thesis
    by (simp add: verify_signature_for_def mode_digest_def protobuf_for_def encode_def conversion_prost_def
        MAX_TRANSACTION_BYTES_def sample_k256_def sample_conversion_inputs)
qed

theorem operation_decode_exact_witness:
  "operation_decode sample_k256 conversion_prost [8, 0] = Ok (OpConversion sample_signed_conversion)"
proof -
  let ?tx = "cv_transaction sample_conversion"
  have "conversion_new sample_k256 9 (qx_inputs sample_qi) [Denomination 14] (qx_outputs sample_qi) sample_intent = Ok sample_conversion"
    using conversion_new_Ok [OF sample_intent_wf, of sample_k256 9 "qx_inputs sample_qi" "[Denomination 14]"
        "qx_outputs sample_qi" sample_conversion] sample_conversion_valid
    by (simp add: sample_conversion_def sample_intent_def sample_qi_def sample_qi_ledger)
  then have "conversion_from_transaction sample_k256 ?tx = Ok sample_conversion"
    by (auto simp: conversion_new_def sample_conversion_def result_simps)
  moreover have "validate_for sample_k256 ?tx Conversion = Ok Cyprus1"
    using sample_conversion_valid by (simp add: validate_for_Ok)
  then have "conversion_signed_bytes sample_k256 conversion_prost sample_signed_conversion = Ok [8, 0]"
    by (simp add: conversion_signed_bytes_def signed_bytes_for_def protobuf_for_def encode_def conversion_prost_def
        MAX_TRANSACTION_BYTES_def sample_signed_conversion_def)
  moreover have "prost_ok conversion_prost (qi_signed_message sample_k256 ?tx (replicate 64 1))"
    using quai_prost_ok by (simp add: prost_ok_def quai_prost_def conversion_prost_def)
  moreover have "wf_qi ?tx"
    using sample_qi_ok(5) by (simp add: wf_qi_def sample_conversion_def conversion_payload_def paid_outputs_def
        wf_output_def wf_address_def wf_denomination_def sample_intent_def address_zero_def)
  ultimately show ?thesis
    using operation_decode_exact [of sample_k256 "OpConversion sample_signed_conversion" conversion_prost "[8, 0]"]
      sample_qi_ok(1,2) sample_conversion_verifies
    by (simp add: sample_signed_conversion_def sample_conversion_inputs)
qed

end
