(* ===== verification/Custody_Base.thy ===== *)
theory Custody_Base
  imports Qi_Wrapping "HOL-Library.List_Lexorder" "HOL-Library.Sublist"
begin

text \<open>
  What the custody journals of \<open>quai-wallet\<close> share: network scope and checkpoint of
  \<open>discovery.rs\<close>, the storage errors of \<open>metadata.rs\<close>, the public records of \<open>state.rs\<close>, the bounded
  framing of \<open>custody_codec.rs\<close>, candidate families of \<open>state/replacements.rs\<close>, and ordered maps
  (\<open>BTreeMap\<close>) as association lists with strictly increasing keys.
\<close>

section \<open>Ordered maps\<close>

text \<open>
  The interface the journals use: lookup after an insertion, and that insertions keep the
  representation invariant.
\<close>

locale ordered_map =
  fixes invar :: "'m \<Rightarrow> bool"
    and lookup :: "'m \<Rightarrow> 'k \<Rightarrow> 'v option"
    and ins :: "'k \<Rightarrow> 'v \<Rightarrow> 'm \<Rightarrow> 'm"
    and empty_map :: 'm
  assumes invar_empty: "invar empty_map"
    and lookup_empty: "lookup empty_map k = None"
    and invar_ins: "invar m \<Longrightarrow> invar (ins k v m)"
    and lookup_ins: "invar m \<Longrightarrow> lookup (ins k v m) = (lookup m)(k := Some v)"
begin

lemma lookup_ins_same: "invar m \<Longrightarrow> lookup (ins k v m) k = Some v"
  by (simp add: lookup_ins)

lemma dom_ins: "invar m \<Longrightarrow> dom (lookup (ins k v m)) = insert k (dom (lookup m))"
  by (simp add: lookup_ins)

lemma lookup_ins_twice: "invar m \<Longrightarrow> lookup (ins k w (ins k v m)) = lookup (ins k w m)"
  by (simp add: lookup_ins invar_ins)

lemma ins_extends: "invar m \<Longrightarrow> lookup m k = None \<Longrightarrow> lookup m \<subseteq>\<^sub>m lookup (ins k v m)"
  by (auto simp: lookup_ins map_le_def)

end

fun bt_insert :: "'k::linorder \<Rightarrow> 'v \<Rightarrow> ('k \<times> 'v) list \<Rightarrow> ('k \<times> 'v) list" where
  "bt_insert k v [] = [(k, v)]"
| "bt_insert k v ((a, b) # m) =
     (if k < a then (k, v) # (a, b) # m else if k = a then (k, v) # m else (a, b) # bt_insert k v m)"

abbreviation bt_sorted :: "('k::linorder \<times> 'v) list \<Rightarrow> bool" where
  "bt_sorted m \<equiv> sorted_wrt (<) (map fst m)"

lemma bt_get_insert: "map_of (bt_insert k v m) = (map_of m)(k \<mapsto> v)"
  by (induction m) auto

lemma bt_keys_insert: "fst ` set (bt_insert k v m) = insert k (fst ` set m)"
  by (induction k v m rule: bt_insert.induct) auto

lemma bt_insert_subset: "set (bt_insert k v m) \<subseteq> insert (k, v) (set m)"
  by (induction k v m rule: bt_insert.induct) auto

lemma bt_sorted_insert: "bt_sorted m \<Longrightarrow> bt_sorted (bt_insert k v m)"
  by (induction k v m rule: bt_insert.induct) (auto simp: bt_keys_insert)

lemma bt_sorted_distinct: "bt_sorted m \<Longrightarrow> distinct (map fst m)"
  by (induction m) auto

interpretation bt: ordered_map bt_sorted map_of bt_insert "[]"
  by unfold_locales (simp_all add: bt_get_insert bt_sorted_insert)

text \<open>Replacing or adding one binding, seen as lists.\<close>

lemma bt_insert_present:
  "bt_sorted m \<Longrightarrow> map_of m k = Some v \<Longrightarrow>
     \<exists>xs ys. m = xs @ (k, v) # ys \<and> (\<forall>w. bt_insert k w m = xs @ (k, w) # ys)"
proof (induction m)
  case (Cons p m)
  obtain a b where p: "p = (a, b)" by (cases p)
  show ?case
  proof (cases "k = a")
    case True
    then have "p # m = [] @ (k, v) # m \<and> (\<forall>w. bt_insert k w (p # m) = [] @ (k, w) # m)" using Cons.prems p by auto
    then show ?thesis by blast
  next
    case False
    then have m: "map_of m k = Some v" using Cons.prems p by simp
    then have "a < k" using Cons.prems(1) p map_of_SomeD [OF m] by fastforce
    moreover obtain xs ys where "m = xs @ (k, v) # ys" "\<forall>w. bt_insert k w m = xs @ (k, w) # ys"
      using Cons.IH m Cons.prems by auto
    ultimately have "p # m = (p # xs) @ (k, v) # ys \<and> (\<forall>w. bt_insert k w (p # m) = (p # xs) @ (k, w) # ys)"
      using p by auto
    then show ?thesis by blast
  qed
qed simp

lemma bt_insert_absent:
  "map_of m k = None \<Longrightarrow> \<exists>xs ys. m = xs @ ys \<and> bt_insert k v m = xs @ (k, v) # ys"
proof (induction m)
  case (Cons p m)
  obtain a b where p: "p = (a, b)" by (cases p)
  then have k: "k \<noteq> a" "map_of m k = None" using Cons.prems by (auto split: if_splits)
  then obtain xs ys where m: "m = xs @ ys" "bt_insert k v m = xs @ (k, v) # ys" using Cons.IH by blast
  show ?case
  proof (cases "k < a")
    case True
    then have "p # m = [] @ (p # m) \<and> bt_insert k v (p # m) = [] @ (k, v) # p # m" using p by simp
    then show ?thesis by blast
  next
    case False
    then have "p # m = (p # xs) @ ys \<and> bt_insert k v (p # m) = (p # xs) @ (k, v) # ys" using p k m by simp
    then show ?thesis by blast
  qed
qed simp

section \<open>Journals\<close>

text \<open>
  A journal is a state machine whose steps keep a soundness predicate and only move up in an order
  of retained history; whole runs then do the same.
\<close>

locale journal =
  fixes step :: "'s \<Rightarrow> 's \<Rightarrow> bool"
    and sound :: "'s \<Rightarrow> bool"
    and history :: "'s \<Rightarrow> 's \<Rightarrow> bool"
  assumes step_sound: "sound s \<Longrightarrow> step s t \<Longrightarrow> sound t"
    and step_history: "sound s \<Longrightarrow> step s t \<Longrightarrow> history s t"
    and history_refl: "history s s"
    and history_trans: "history s t \<Longrightarrow> history t u \<Longrightarrow> history s u"
begin

lemma run_sound: "step\<^sup>*\<^sup>* s t \<Longrightarrow> sound s \<Longrightarrow> sound t"
  by (induction rule: rtranclp_induct) (blast intro: step_sound)+

lemma run_history: "step\<^sup>*\<^sup>* s t \<Longrightarrow> sound s \<Longrightarrow> history s t"
proof (induction rule: rtranclp_induct)
  case (step t u)
  then have "sound t" by (blast intro: run_sound)
  then show ?case using step by (blast intro: step_history history_trans)
qed (rule history_refl)

end

section \<open>Shared records\<close>

datatype storage_error =
    StDatabase | StSchema | StInvalid | StStaleSnapshot | StConflict | StObservationRaced | StCancelled
  | StDerivationExhausted | StTransition | StOverflow | StLimitReached

record network_scope =
  ns_chain_id :: u256
  ns_genesis :: hash32
  ns_zone :: zone

definition scope_key :: "network_scope \<Rightarrow> bytes" where
  "scope_key s = to_be 32 (unat (ns_chain_id s)) @ hash_bytes (ns_genesis s) @ [zone_byte (ns_zone s)]"

record checkpoint =
  cp_hash :: hash32
  cp_height :: u256

datatype reservation_state = Reserved | Signed | Submitted | Confirmed | Released

fun state_byte :: "reservation_state \<Rightarrow> u8" where
  "state_byte Reserved = 0"
| "state_byte Signed = 1"
| "state_byte Submitted = 2"
| "state_byte Confirmed = 3"
| "state_byte Released = 4"

record reservation =
  rv_id :: bytes
  rv_state :: reservation_state
  rv_transaction :: "hash32 option"
  rv_inclusion :: "checkpoint option"

record quai_replacement =
  rp_parent :: hash32
  rp_payload :: bytes

section \<open>Bounded framing\<close>

definition MAX_CUSTODY_BYTES :: nat where
  "MAX_CUSTODY_BYTES = 16 * 1024 * 1024"

definition put :: "bytes \<Rightarrow> bytes \<Rightarrow> (bytes, storage_error) result" where
  "put bs w = (if MAX_CUSTODY_BYTES - length w < length bs then Err StInvalid else Ok (w @ bs))"

definition put_blob :: "bytes \<Rightarrow> bytes \<Rightarrow> (bytes, storage_error) result" where
  "put_blob bs w =
     (if MAX_TRANSACTION_BYTES < length bs then Err StInvalid
      else rbind (put (to_be 4 (length bs)) w) (put bs))"

definition take_bytes :: "nat \<Rightarrow> bytes \<Rightarrow> (bytes \<times> bytes, storage_error) result" where
  "take_bytes n r = (if length r < n then Err StInvalid else Ok (take n r, drop n r))"

definition take_byte :: "bytes \<Rightarrow> (u8 \<times> bytes, storage_error) result" where
  "take_byte r = rbind (take_bytes 1 r) (\<lambda>(b, r). Ok (hd b, r))"

definition take_flag :: "bytes \<Rightarrow> (bool \<times> bytes, storage_error) result" where
  "take_flag r =
     rbind (take_byte r) (\<lambda>(b, r). if b = 0 then Ok (False, r) else if b = 1 then Ok (True, r) else Err StInvalid)"

definition take_blob :: "bytes \<Rightarrow> (bytes \<times> bytes, storage_error) result" where
  "take_blob r =
     rbind (take_bytes 4 r) (\<lambda>(b, r).
       if MAX_TRANSACTION_BYTES < be_nat b then Err StInvalid else take_bytes (be_nat b) r)"

section \<open>Candidate families\<close>

definition output_value :: "'pt qi_transaction \<Rightarrow> (u256, storage_error) result" where
  "output_value tx =
     try_fold (\<lambda>acc out. ok_or (checked_add acc (ucast (denomination_value (qo_denomination out)))) StInvalid) 0 (qx_outputs tx)"

definition qi_variant ::
  "('pt, 'ec, 'sc, 'sk) k256 \<Rightarrow> prost \<Rightarrow> (hash32 \<rightharpoonup> ('pt, 'sc) signed_qi_operation) \<Rightarrow> quai_replacement \<Rightarrow>
     (hash32 \<rightharpoonup> ('pt, 'sc) signed_qi_operation, storage_error) result" where
  "qi_variant k pr known variant =
     rbind (ok_or (known (rp_parent variant)) StInvalid) (\<lambda>parent.
       rbind (map_err (\<lambda>_. StInvalid) (operation_decode k pr (rp_payload variant))) (\<lambda>op.
         let old = operation_transaction parent; tx = operation_transaction op
         in if qx_chain_id tx \<noteq> qx_chain_id old \<or> qx_inputs tx \<noteq> qx_inputs old \<or> qx_data tx \<noteq> qx_data old then Err StInvalid
            else rbind (output_value tx) (\<lambda>v. rbind (output_value old) (\<lambda>w.
              if w \<le> v then Err StInvalid
              else rbind (map_err (\<lambda>_. StInvalid) (operation_hash k pr op)) (\<lambda>hash.
                if known hash \<noteq> None then Err StInvalid else Ok (known(hash \<mapsto> op)))))))"

definition validate_qi_family ::
  "('pt, 'ec, 'sc, 'sk) k256 \<Rightarrow> prost \<Rightarrow> ('pt, 'sc) signed_qi_operation \<Rightarrow> quai_replacement list \<Rightarrow> (unit, storage_error) result" where
  "validate_qi_family k pr root variants =
     (if 32 < length variants then Err StInvalid
      else rbind (map_err (\<lambda>_. StInvalid) (operation_hash k pr root)) (\<lambda>h.
        rbind (try_fold (qi_variant k pr) [h \<mapsto> root] variants) (\<lambda>_. Ok ())))"

definition quai_variant ::
  "('pt, 'ec, 'sc, 'sk) k256 \<Rightarrow> prost \<Rightarrow> (hash32 \<rightharpoonup> 'ec signed_quai) \<Rightarrow> quai_replacement \<Rightarrow>
     (hash32 \<rightharpoonup> 'ec signed_quai, storage_error) result" where
  "quai_variant k pr known variant =
     rbind (ok_or (known (rp_parent variant)) StInvalid) (\<lambda>parent.
       rbind (map_err (\<lambda>_. StInvalid) (quai_signed_decode k pr (rp_payload variant))) (\<lambda>s.
         let expected = sq_transaction parent
         in if sq_from s \<noteq> sq_from parent \<or> qt_gas_price (sq_transaction s) \<le> qt_gas_price expected then Err StInvalid
            else if sq_transaction s \<noteq> expected\<lparr>qt_gas_price := qt_gas_price (sq_transaction s)\<rparr> then Err StInvalid
            else rbind (map_err (\<lambda>_. StInvalid) (quai_hash k pr s)) (\<lambda>hash.
              if known hash \<noteq> None then Err StInvalid else Ok (known(hash \<mapsto> s)))))"

definition validate_family ::
  "('pt, 'ec, 'sc, 'sk) k256 \<Rightarrow> prost \<Rightarrow> bytes \<Rightarrow> quai_replacement list \<Rightarrow> (unit, storage_error) result" where
  "validate_family k pr root variants =
     (case operation_decode k pr root of
        Inr op \<Rightarrow> validate_qi_family k pr op variants
      | Inl _ \<Rightarrow>
          if 32 < length variants then Err StInvalid
          else rbind (map_err (\<lambda>_. StInvalid) (quai_signed_decode k pr root)) (\<lambda>s.
            rbind (map_err (\<lambda>_. StInvalid) (quai_hash k pr s)) (\<lambda>h.
              rbind (try_fold (quai_variant k pr) [h \<mapsto> s] variants) (\<lambda>_. Ok ()))))"

end
