(* ===== verification/Account_Custody.thy ===== *)
theory Account_Custody
  imports Custody_Base
begin

text \<open>
  The account nonce journal, \<open>quai-wallet/src/account_custody.rs\<close>: nonce reservation, signed
  candidates and their replacements, submission and inclusion, backup merges, validation, and the
  deterministic state encoding with its strict import. A method that fails leaves the book as it
  was, so a mutation is modelled as returning the new book or the error.
\<close>

section \<open>The book\<close>

definition MAX_ACCOUNT_OPERATIONS :: nat where
  "MAX_ACCOUNT_OPERATIONS = 256"

definition MAX_ACCOUNT_CUSTODY_BYTES :: nat where
  "MAX_ACCOUNT_CUSTODY_BYTES = 16 * 1024 * 1024"

definition MAGIC :: bytes where
  "MAGIC = as_bytes ''QACCTBK1''"

record account_operation =
  ao_id :: bytes
  ao_nonce :: u64
  ao_state :: reservation_state
  ao_transaction :: "hash32 option"
  ao_payload :: "bytes option"
  ao_replacements :: "quai_replacement list"
  ao_inclusion :: "(hash32 \<times> checkpoint) option"

record 'pt account_book =
  ab_scope :: network_scope
  ab_owner :: 'pt
  ab_address :: quai_address
  ab_next_nonce :: u64
  ab_operations :: "(bytes \<times> account_operation) list"

definition book_new ::
  "('pt, 'ec, 'sc, 'sk) k256 \<Rightarrow> network_scope \<Rightarrow> 'pt \<Rightarrow> u64 \<Rightarrow> ('pt account_book, storage_error) result" where
  "book_new k scope owner first_nonce =
     rbind (map_err (\<lambda>_. StInvalid) (quai_address_try_from (public_key_address k owner))) (\<lambda>address.
       if ns_chain_id scope = 0 \<or> hash_bytes (ns_genesis scope) = replicate 32 0 \<or> la_zone address \<noteq> ns_zone scope
       then Err StInvalid
       else Ok \<lparr>ab_scope = scope, ab_owner = owner, ab_address = address, ab_next_nonce = first_nonce, ab_operations = []\<rparr>)"

definition account_identity :: "('pt, 'ec, 'sc, 'sk) k256 \<Rightarrow> 'pt \<Rightarrow> hash32" where
  "account_identity k owner = Hash32 (k_keccak k (as_bytes ''quai-rust/account-custody/v1'' @ to_compressed k owner))"

definition operation :: "'pt account_book \<Rightarrow> bytes \<Rightarrow> account_operation option" where
  "operation b i = map_of (ab_operations b) i"

section \<open>State encoding\<close>

definition put_all :: "('a \<Rightarrow> bytes \<Rightarrow> (bytes, storage_error) result) \<Rightarrow> 'a list \<Rightarrow> bytes \<Rightarrow> (bytes, storage_error) result" where
  "put_all f xs w = try_fold (\<lambda>w x. f x w) w xs"

definition put_transaction :: "hash32 option \<Rightarrow> bytes \<Rightarrow> (bytes, storage_error) result" where
  "put_transaction t w =
     rbind (put [of_bool (t \<noteq> None)] w) (\<lambda>w. case t of None \<Rightarrow> Ok w | Some h \<Rightarrow> put (hash_bytes h) w)"

definition put_inclusion :: "(hash32 \<times> checkpoint) option \<Rightarrow> bytes \<Rightarrow> (bytes, storage_error) result" where
  "put_inclusion i w =
     rbind (put [of_bool (i \<noteq> None)] w) (\<lambda>w.
       case i of None \<Rightarrow> Ok w
       | Some (h, block) \<Rightarrow>
           rbind (put (hash_bytes h) w) (\<lambda>w. rbind (put (hash_bytes (cp_hash block)) w)
             (put (to_be 32 (unat (cp_height block))))))"

definition put_edge :: "quai_replacement \<Rightarrow> bytes \<Rightarrow> (bytes, storage_error) result" where
  "put_edge edge w = rbind (put (hash_bytes (rp_parent edge)) w) (put_blob (rp_payload edge))"

definition put_operation :: "account_operation \<Rightarrow> bytes \<Rightarrow> (bytes, storage_error) result" where
  "put_operation op w =
     rbind (put (ao_id op) w) (\<lambda>w. rbind (put (to_be 8 (unat (ao_nonce op))) w) (\<lambda>w.
       rbind (put [state_byte (ao_state op)] w) (\<lambda>w. rbind (put_transaction (ao_transaction op) w) (\<lambda>w.
         rbind (put_inclusion (ao_inclusion op) w) (\<lambda>w.
           rbind (put_blob (case ao_payload op of None \<Rightarrow> [] | Some p \<Rightarrow> p) w) (\<lambda>w.
             rbind (put [word_of_nat (length (ao_replacements op))] w) (put_all put_edge (ao_replacements op))))))))"

definition export_state ::
  "('pt, 'ec, 'sc, 'sk) k256 \<Rightarrow> 'pt account_book \<Rightarrow> (bytes, storage_error) result" where
  "export_state k b =
     rbind (put MAGIC []) (\<lambda>w. rbind (put (scope_key (ab_scope b)) w) (\<lambda>w.
       rbind (put (to_compressed k (ab_owner b)) w) (\<lambda>w.
         rbind (put (to_be 8 (unat (ab_next_nonce b))) w) (\<lambda>w.
           rbind (put (to_be 2 (unat (word_of_nat (length (ab_operations b)) :: u16))) w)
             (put_all put_operation (map snd (ab_operations b)))))))"

section \<open>Mutations\<close>

definition install ::
  "('pt, 'ec, 'sc, 'sk) k256 \<Rightarrow> 'pt account_book \<Rightarrow> account_operation \<Rightarrow> u64 \<Rightarrow> ('pt account_book, storage_error) result" where
  "install k b op next_nonce =
     (let candidate = b\<lparr>ab_operations := bt_insert (ao_id op) op (ab_operations b), ab_next_nonce := next_nonce\<rparr>
      in rbind (export_state k candidate) (\<lambda>_. Ok candidate))"

definition reserve_nonce ::
  "('pt, 'ec, 'sc, 'sk) k256 \<Rightarrow> 'pt account_book \<Rightarrow> bytes \<Rightarrow> u64 \<Rightarrow> ('pt account_book \<times> u64, storage_error) result" where
  "reserve_nonce k b i remote_pending =
     (if operation b i \<noteq> None then Err StConflict
      else if MAX_ACCOUNT_OPERATIONS \<le> length (ab_operations b) then Err StInvalid
      else let nonce = max (ab_next_nonce b) remote_pending
        in rbind (ok_or (checked_add nonce 1) StOverflow) (\<lambda>next.
          rbind (install k b \<lparr>ao_id = i, ao_nonce = nonce, ao_state = Reserved, ao_transaction = None, ao_payload = None,
            ao_replacements = [], ao_inclusion = None\<rparr> next) (\<lambda>b. Ok (b, nonce))))"

text \<open>An in-place change of one retained operation.\<close>

definition update_operation :: "'pt account_book \<Rightarrow> bytes \<Rightarrow> account_operation \<Rightarrow> 'pt account_book" where
  "update_operation b i op = b\<lparr>ab_operations := bt_insert i op (ab_operations b)\<rparr>"

definition release_unsigned :: "'pt account_book \<Rightarrow> bytes \<Rightarrow> ('pt account_book, storage_error) result" where
  "release_unsigned b i =
     rbind (ok_or (operation b i) StTransition) (\<lambda>op.
       if ao_state op \<noteq> Reserved then Err StTransition else Ok (update_operation b i (op\<lparr>ao_state := Released\<rparr>)))"

definition reopen_unsigned :: "'pt account_book \<Rightarrow> bytes \<Rightarrow> ('pt account_book, storage_error) result" where
  "reopen_unsigned b i =
     rbind (ok_or (operation b i) StTransition) (\<lambda>op.
       if ao_state op \<noteq> Released then Err StTransition else Ok (update_operation b i (op\<lparr>ao_state := Reserved\<rparr>)))"

definition checked_payload ::
  "('pt, 'ec, 'sc, 'sk) k256 \<Rightarrow> prost \<Rightarrow> 'pt account_book \<Rightarrow> u64 \<Rightarrow> bytes \<Rightarrow> (hash32, storage_error) result" where
  "checked_payload k pr b nonce payload =
     rbind (map_err (\<lambda>_. StInvalid) (quai_signed_decode k pr payload)) (\<lambda>s.
       if sq_from s \<noteq> ab_address b \<or> qt_nonce (sq_transaction s) \<noteq> nonce \<or>
          qt_chain_id (sq_transaction s) \<noteq> ns_chain_id (ab_scope b)
       then Err StConflict
       else map_err (\<lambda>_. StInvalid) (quai_hash k pr s))"

definition with_root :: "account_operation \<Rightarrow> bytes \<Rightarrow> hash32 \<Rightarrow> account_operation" where
  "with_root op payload hash =
     op\<lparr>ao_payload := Some payload, ao_transaction := Some hash,
       ao_state := if ao_state op = Reserved then Signed else ao_state op\<rparr>"

definition commit_signed ::
  "('pt, 'ec, 'sc, 'sk) k256 \<Rightarrow> prost \<Rightarrow> 'pt account_book \<Rightarrow> bytes \<Rightarrow> 'ec signed_quai \<Rightarrow>
     ('pt account_book, storage_error) result" where
  "commit_signed k pr b i s =
     rbind (ok_or (operation b i) StTransition) (\<lambda>op.
       rbind (map_err (\<lambda>_. StInvalid) (quai_signed_bytes k pr s)) (\<lambda>payload.
         rbind (checked_payload k pr b (ao_nonce op) payload) (\<lambda>hash.
           if ao_state op = Released \<or> (case ao_transaction op of None \<Rightarrow> False | Some old \<Rightarrow> old \<noteq> hash) then Err StTransition
           else case ao_payload op of
             Some old \<Rightarrow> if old = payload then Ok b else Err StConflict
           | None \<Rightarrow> install k b (with_root op payload hash) (ab_next_nonce b))))"

definition commit_replacement ::
  "('pt, 'ec, 'sc, 'sk) k256 \<Rightarrow> prost \<Rightarrow> 'pt account_book \<Rightarrow> bytes \<Rightarrow> hash32 \<Rightarrow> 'ec signed_quai \<Rightarrow>
     ('pt account_book, storage_error) result" where
  "commit_replacement k pr b i parent s =
     rbind (ok_or (operation b i) StTransition) (\<lambda>op.
       if ao_state op \<noteq> Signed \<and> ao_state op \<noteq> Submitted then Err StTransition
       else rbind (ok_or (ao_payload op) StInvalid) (\<lambda>root.
         rbind (map_err (\<lambda>_. StInvalid) (quai_signed_bytes k pr s)) (\<lambda>payload.
           let new = \<lparr>rp_parent = parent, rp_payload = payload\<rparr>
           in if new \<in> set (ao_replacements op) then Ok b
              else rbind (validate_family k pr root (ao_replacements op @ [new])) (\<lambda>_.
                install k b (op\<lparr>ao_replacements := ao_replacements op @ [new]\<rparr>) (ab_next_nonce b)))))"

definition mark_submitted :: "'pt account_book \<Rightarrow> bytes \<Rightarrow> ('pt account_book, storage_error) result" where
  "mark_submitted b i =
     rbind (ok_or (operation b i) StTransition) (\<lambda>op.
       if ao_state op = Submitted then Ok b
       else if ao_state op \<noteq> Signed then Err StTransition
       else Ok (update_operation b i (op\<lparr>ao_state := Submitted\<rparr>)))"

definition contains_candidate ::
  "('pt, 'ec, 'sc, 'sk) k256 \<Rightarrow> prost \<Rightarrow> account_operation \<Rightarrow> hash32 \<Rightarrow> bool" where
  "contains_candidate k pr op hash \<longleftrightarrow>
     ao_transaction op = Some hash \<or>
     list_ex (\<lambda>v. rbind (quai_signed_decode k pr (rp_payload v)) (quai_hash k pr) = Ok hash) (ao_replacements op)"

definition observe_inclusion ::
  "('pt, 'ec, 'sc, 'sk) k256 \<Rightarrow> prost \<Rightarrow> 'pt account_book \<Rightarrow> bytes \<Rightarrow> hash32 \<Rightarrow> checkpoint \<Rightarrow>
     ('pt account_book, storage_error) result" where
  "observe_inclusion k pr b i hash checkpoint =
     rbind (ok_or (operation b i) StTransition) (\<lambda>op.
       if ao_state op = Confirmed \<and> ao_inclusion op = Some (hash, checkpoint) then Ok b
       else if ao_state op \<noteq> Signed \<and> ao_state op \<noteq> Submitted \<or> \<not> contains_candidate k pr op hash \<or>
         hash_bytes (cp_hash checkpoint) = replicate 32 0 then Err StTransition
       else install k b (op\<lparr>ao_state := Confirmed, ao_inclusion := Some (hash, checkpoint)\<rparr>) (ab_next_nonce b))"

definition invalidate_inclusion ::
  "'pt account_book \<Rightarrow> bytes \<Rightarrow> hash32 \<times> checkpoint \<Rightarrow> ('pt account_book, storage_error) result" where
  "invalidate_inclusion b i expected =
     rbind (ok_or (operation b i) StTransition) (\<lambda>op.
       if ao_state op \<noteq> Confirmed \<or> ao_inclusion op \<noteq> Some expected then Err StStaleSnapshot
       else Ok (update_operation b i (op\<lparr>ao_state := Submitted, ao_inclusion := None\<rparr>)))"

section \<open>Validation\<close>

definition signed_state :: "reservation_state \<Rightarrow> bool" where
  "signed_state s \<longleftrightarrow> s \<in> {Signed, Submitted, Confirmed}"

definition validate_operation ::
  "('pt, 'ec, 'sc, 'sk) k256 \<Rightarrow> prost \<Rightarrow> 'pt account_book \<Rightarrow> u64 set \<Rightarrow> account_operation \<Rightarrow> (u64 set, storage_error) result" where
  "validate_operation k pr b nonces op =
     (if ab_next_nonce b \<le> ao_nonce op \<or> ao_nonce op \<in> nonces then Err StInvalid
      else if signed_state (ao_state op) \<noteq> (ao_transaction op \<noteq> None) \<or>
        (ao_state op = Confirmed) \<noteq> (ao_inclusion op \<noteq> None) \<or>
        (\<not> signed_state (ao_state op) \<and> (ao_payload op \<noteq> None \<or> ao_replacements op \<noteq> [])) then Err StInvalid
      else rbind
        (case ao_payload op of
           Some payload \<Rightarrow> rbind (checked_payload k pr b (ao_nonce op) payload) (\<lambda>hash.
             if Some hash \<noteq> ao_transaction op then Err StInvalid
             else validate_family k pr payload (ao_replacements op))
         | None \<Rightarrow> if ao_replacements op \<noteq> [] then Err StInvalid else Ok ())
        (\<lambda>_. case ao_inclusion op of
           Some (hash, block) \<Rightarrow>
             if hash_bytes (cp_hash block) = replicate 32 0 \<or> \<not> contains_candidate k pr op hash then Err StInvalid
             else Ok (insert (ao_nonce op) nonces)
         | None \<Rightarrow> Ok (insert (ao_nonce op) nonces)))"

definition validate ::
  "('pt, 'ec, 'sc, 'sk) k256 \<Rightarrow> prost \<Rightarrow> 'pt account_book \<Rightarrow> (unit, storage_error) result" where
  "validate k pr b =
     (if MAX_ACCOUNT_OPERATIONS < length (ab_operations b) then Err StInvalid
      else rbind (try_fold (validate_operation k pr b) {} (map snd (ab_operations b))) (\<lambda>_. Ok ()))"

section \<open>Strict import\<close>

definition read_state :: "bytes \<Rightarrow> (reservation_state \<times> bytes, storage_error) result" where
  "read_state r =
     rbind (take_byte r) (\<lambda>(c, r).
       if c = 0 then Ok (Reserved, r) else if c = 1 then Ok (Signed, r) else if c = 2 then Ok (Submitted, r)
       else if c = 3 then Ok (Confirmed, r) else if c = 4 then Ok (Released, r) else Err StInvalid)"

definition read_transaction :: "bytes \<Rightarrow> (hash32 option \<times> bytes, storage_error) result" where
  "read_transaction r =
     rbind (take_flag r) (\<lambda>(f, r). if f then rbind (take_bytes 32 r) (\<lambda>(h, r). Ok (Some (Hash32 h), r)) else Ok (None, r))"

definition read_inclusion :: "bytes \<Rightarrow> ((hash32 \<times> checkpoint) option \<times> bytes, storage_error) result" where
  "read_inclusion r =
     rbind (take_flag r) (\<lambda>(f, r).
       if f then rbind (take_bytes 32 r) (\<lambda>(h, r). rbind (take_bytes 32 r) (\<lambda>(c, r). rbind (take_bytes 32 r) (\<lambda>(n, r).
         Ok (Some (Hash32 h, \<lparr>cp_hash = Hash32 c, cp_height = word_of_nat (be_nat n)\<rparr>), r))))
       else Ok (None, r))"

definition read_payload :: "bytes \<Rightarrow> (bytes option \<times> bytes, storage_error) result" where
  "read_payload r = rbind (take_blob r) (\<lambda>(p, r). Ok (if p = [] then None else Some p, r))"

definition read_edge :: "bytes \<Rightarrow> (quai_replacement \<times> bytes, storage_error) result" where
  "read_edge r = rbind (take_bytes 32 r) (\<lambda>(h, r). rbind (take_blob r) (\<lambda>(p, r). Ok (\<lparr>rp_parent = Hash32 h, rp_payload = p\<rparr>, r)))"

primrec read_many :: "nat \<Rightarrow> (bytes \<Rightarrow> ('a \<times> bytes, 'e) result) \<Rightarrow> bytes \<Rightarrow> ('a list \<times> bytes, 'e) result" where
  "read_many 0 dec r = Ok ([], r)"
| "read_many (Suc n) dec r = rbind (dec r) (\<lambda>(x, r). rbind (read_many n dec r) (\<lambda>(xs, r). Ok (x # xs, r)))"

definition read_replacements :: "bytes \<Rightarrow> (quai_replacement list \<times> bytes, storage_error) result" where
  "read_replacements r =
     rbind (take_byte r) (\<lambda>(c, r). if 32 < c then Err StInvalid else read_many (unat c) read_edge r)"

definition read_operation :: "bytes option \<Rightarrow> bytes \<Rightarrow> (account_operation \<times> bytes, storage_error) result" where
  "read_operation previous r =
     rbind (take_bytes 16 r) (\<lambda>(i, r).
       if (case previous of None \<Rightarrow> False | Some old \<Rightarrow> i \<le> old) then Err StInvalid
       else rbind (take_bytes 8 r) (\<lambda>(n, r). rbind (read_state r) (\<lambda>(state, r).
         rbind (read_transaction r) (\<lambda>(t, r). rbind (read_inclusion r) (\<lambda>(inclusion, r).
           rbind (read_payload r) (\<lambda>(payload, r). rbind (read_replacements r) (\<lambda>(replacements, r).
             Ok (\<lparr>ao_id = i, ao_nonce = word_of_nat (be_nat n), ao_state = state, ao_transaction = t, ao_payload = payload,
               ao_replacements = replacements, ao_inclusion = inclusion\<rparr>, r))))))))"

primrec read_operations ::
  "nat \<Rightarrow> bytes option \<Rightarrow> (bytes \<times> account_operation) list \<Rightarrow> bytes \<Rightarrow>
     ((bytes \<times> account_operation) list \<times> bytes, storage_error) result" where
  "read_operations 0 previous ops r = Ok (ops, r)"
| "read_operations (Suc n) previous ops r =
     rbind (read_operation previous r) (\<lambda>(op, r). read_operations n (Some (ao_id op)) (bt_insert (ao_id op) op ops) r)"

definition from_state ::
  "('pt, 'ec, 'sc, 'sk) k256 \<Rightarrow> prost \<Rightarrow> bytes \<Rightarrow> network_scope \<Rightarrow> 'pt \<Rightarrow> ('pt account_book, storage_error) result" where
  "from_state k pr bs scope owner =
     (if MAX_ACCOUNT_CUSTODY_BYTES < length bs then Err StInvalid
      else rbind (take_bytes 8 bs) (\<lambda>(m, r). if m \<noteq> MAGIC then Err StInvalid
        else rbind (take_bytes 65 r) (\<lambda>(s, r). if s \<noteq> scope_key scope then Err StInvalid
          else rbind (take_bytes 33 r) (\<lambda>(p, r). if p \<noteq> to_compressed k owner then Err StInvalid
            else rbind (take_bytes 8 r) (\<lambda>(n, r). rbind (book_new k scope owner (word_of_nat (be_nat n))) (\<lambda>b.
              rbind (take_bytes 2 r) (\<lambda>(c, r). if MAX_ACCOUNT_OPERATIONS < be_nat c then Err StInvalid
                else rbind (read_operations (be_nat c) None (ab_operations b) r) (\<lambda>(ops, r).
                  if r \<noteq> [] then Err StInvalid
                  else let b = b\<lparr>ab_operations := ops\<rparr> in rbind (validate k pr b) (\<lambda>_. Ok b)))))))))"

section \<open>Backups\<close>

text \<open>The records of one scope of an authenticated backup that the journal reads.\<close>

record backup_operation =
  bo_reservation :: reservation
  bo_qi_claims :: "(outpoint \<times> address) list"
  bo_nonce :: "(quai_address \<times> u64) option"
  bo_signed_payload :: "bytes option"
  bo_replacements :: "quai_replacement list"

record backup_scope =
  bs_scope :: network_scope
  bs_public_keys :: "bytes list"
  bs_nonce_cursors :: "(quai_address \<times> u64) list"
  bs_operations :: "backup_operation list"

definition scope_state :: "backup_scope list \<Rightarrow> network_scope \<Rightarrow> backup_scope option" where
  "scope_state backup scope = find (\<lambda>s. bs_scope s = scope) backup"

definition backup_step ::
  "quai_address \<Rightarrow> (bytes \<times> account_operation) list \<Rightarrow> backup_operation \<Rightarrow>
     ((bytes \<times> account_operation) list, storage_error) result" where
  "backup_step address ops source =
     (case bo_nonce source of
        None \<Rightarrow> Ok ops
      | Some (a, nonce) \<Rightarrow>
          if a \<noteq> address then Ok ops
          else
            let r = bo_reservation source;
                op = \<lparr>ao_id = rv_id r, ao_nonce = nonce,
                  ao_state = if rv_state r = Confirmed then Submitted else rv_state r,
                  ao_transaction = rv_transaction r, ao_payload = bo_signed_payload source,
                  ao_replacements = bo_replacements source, ao_inclusion = None\<rparr>
            in if map_of ops (ao_id op) \<noteq> None then Err StConflict else Ok (bt_insert (ao_id op) op ops))"

definition from_backup ::
  "('pt, 'ec, 'sc, 'sk) k256 \<Rightarrow> prost \<Rightarrow> backup_scope list \<Rightarrow> network_scope \<Rightarrow> 'pt \<Rightarrow> ('pt account_book, storage_error) result" where
  "from_backup k pr backup scope owner =
     rbind (ok_or (scope_state backup scope) StInvalid) (\<lambda>state.
       if to_compressed k owner \<notin> set (bs_public_keys state) then Err StInvalid
       else rbind (book_new k scope owner 0) (\<lambda>b.
         rbind (try_fold (backup_step (ab_address b)) [] (bs_operations state)) (\<lambda>ops.
           let b = b\<lparr>ab_next_nonce := (case find (\<lambda>(a, _). a = ab_address b) (bs_nonce_cursors state) of
                 None \<Rightarrow> 0 | Some (_, n) \<Rightarrow> n),
               ab_operations := ops\<rparr>
           in rbind (validate k pr b) (\<lambda>_. rbind (export_state k b) (\<lambda>_. Ok b)))))"

record merge_report =
  mr_operations_added :: nat
  mr_candidates_added :: nat
  mr_invalidated_inclusions :: nat
  mr_next_nonce :: u64

definition merge_edges :: "quai_replacement list \<Rightarrow> quai_replacement list \<Rightarrow> quai_replacement list" where
  "merge_edges live source = foldl (\<lambda>es e. if e \<in> set es then es else es @ [e]) live source"

definition merge_conflict :: "account_operation \<Rightarrow> account_operation \<Rightarrow> bool" where
  "merge_conflict live source \<longleftrightarrow> ao_nonce live \<noteq> ao_nonce source \<or>
     (case (ao_transaction live, ao_transaction source) of (Some a, Some b) \<Rightarrow> a \<noteq> b | _ \<Rightarrow> False) \<or>
     (case (ao_payload live, ao_payload source) of (Some a, Some b) \<Rightarrow> a \<noteq> b | _ \<Rightarrow> False)"

definition merge_operation :: "account_operation \<Rightarrow> account_operation \<Rightarrow> account_operation" where
  "merge_operation live source =
     (let t = (if ao_transaction live = None then ao_transaction source else ao_transaction live)
      in live\<lparr>ao_transaction := t,
        ao_payload := if ao_payload live = None then ao_payload source else ao_payload live,
        ao_replacements := merge_edges (ao_replacements live) (ao_replacements source),
        ao_state := if t = None then ao_state live
          else if ao_state live \<in> {Submitted, Confirmed} \<or> ao_state source = Submitted then Submitted else Signed\<rparr>)"

definition merge_step ::
  "(bytes \<times> account_operation) list \<times> merge_report \<Rightarrow> account_operation \<Rightarrow>
     ((bytes \<times> account_operation) list \<times> merge_report, storage_error) result" where
  "merge_step st source =
     (case st of (ops, report) \<Rightarrow>
        case map_of ops (ao_id source) of
          None \<Rightarrow> Ok (bt_insert (ao_id source) source ops,
            report\<lparr>mr_operations_added := mr_operations_added report + 1,
              mr_candidates_added := mr_candidates_added report + length (ao_replacements source)\<rparr>)
        | Some live \<Rightarrow>
            if merge_conflict live source then Err StConflict
            else Ok (bt_insert (ao_id source) (merge_operation live source) ops,
              report\<lparr>mr_candidates_added := mr_candidates_added report +
                (length (merge_edges (ao_replacements live) (ao_replacements source)) - length (ao_replacements live))\<rparr>))"

definition drop_inclusion :: "account_operation \<Rightarrow> account_operation" where
  "drop_inclusion op = op\<lparr>ao_inclusion := None, ao_state := if ao_state op = Confirmed then Submitted else ao_state op\<rparr>"

definition merged_book :: "'pt account_book \<Rightarrow> u64 \<Rightarrow> (bytes \<times> account_operation) list \<Rightarrow> 'pt account_book" where
  "merged_book b next ops = b\<lparr>ab_next_nonce := next, ab_operations := map (\<lambda>(i, op). (i, drop_inclusion op)) ops\<rparr>"

definition merge_backup ::
  "('pt, 'ec, 'sc, 'sk) k256 \<Rightarrow> prost \<Rightarrow> 'pt account_book \<Rightarrow> backup_scope list \<Rightarrow>
     ('pt account_book \<times> merge_report, storage_error) result" where
  "merge_backup k pr b backup =
     rbind (from_backup k pr backup (ab_scope b) (ab_owner b)) (\<lambda>incoming.
       let next = max (ab_next_nonce b) (ab_next_nonce incoming)
       in rbind (try_fold merge_step (ab_operations b, \<lparr>mr_operations_added = 0, mr_candidates_added = 0,
            mr_invalidated_inclusions = 0, mr_next_nonce = next\<rparr>) (map snd (ab_operations incoming))) (\<lambda>(ops, report).
         rbind (validate k pr (merged_book b next ops)) (\<lambda>_. rbind (export_state k (merged_book b next ops)) (\<lambda>_.
           Ok (merged_book b next ops,
             report\<lparr>mr_invalidated_inclusions := length (filter (\<lambda>(_, op). ao_inclusion op \<noteq> None) ops)\<rparr>)))))"

section \<open>What validation establishes\<close>

definition payload_ok :: "('pt, 'ec, 'sc, 'sk) k256 \<Rightarrow> prost \<Rightarrow> 'pt account_book \<Rightarrow> account_operation \<Rightarrow> bool" where
  "payload_ok k pr b op \<longleftrightarrow>
     (case ao_payload op of
        None \<Rightarrow> ao_replacements op = []
      | Some p \<Rightarrow> (\<exists>hash. checked_payload k pr b (ao_nonce op) p = Ok hash \<and> ao_transaction op = Some hash) \<and>
          validate_family k pr p (ao_replacements op) = Ok ())"

definition operation_ok :: "('pt, 'ec, 'sc, 'sk) k256 \<Rightarrow> prost \<Rightarrow> 'pt account_book \<Rightarrow> account_operation \<Rightarrow> bool" where
  "operation_ok k pr b op \<longleftrightarrow> ao_nonce op < ab_next_nonce b \<and>
     (signed_state (ao_state op) \<longleftrightarrow> ao_transaction op \<noteq> None) \<and> (ao_state op = Confirmed \<longleftrightarrow> ao_inclusion op \<noteq> None) \<and>
     (ao_payload op \<noteq> None \<longrightarrow> signed_state (ao_state op)) \<and> payload_ok k pr b op \<and>
     (\<forall>hash block. ao_inclusion op = Some (hash, block) \<longrightarrow>
        hash_bytes (cp_hash block) \<noteq> replicate 32 0 \<and> contains_candidate k pr op hash)"

lemma validate_operation_Ok:
  "validate_operation k pr b nonces op = Ok nonces' \<longleftrightarrow>
     ao_nonce op \<notin> nonces \<and> operation_ok k pr b op \<and> nonces' = insert (ao_nonce op) nonces"
  by (cases "ao_payload op"; cases "ao_inclusion op")
    (auto simp: validate_operation_def operation_ok_def payload_ok_def result_simps not_le split: if_splits)

lemma validate_fold:
  "try_fold (validate_operation k pr b) nonces ops = Ok nonces' \<longleftrightarrow>
     distinct (map ao_nonce ops) \<and> nonces \<inter> ao_nonce ` set ops = {} \<and> list_all (operation_ok k pr b) ops \<and>
     nonces' = nonces \<union> ao_nonce ` set ops"
  by (induction ops arbitrary: nonces) (auto simp: result_simps validate_operation_Ok)

lemma validate_Ok:
  "validate k pr b = Ok () \<longleftrightarrow> length (ab_operations b) \<le> MAX_ACCOUNT_OPERATIONS \<and>
     distinct (map (ao_nonce \<circ> snd) (ab_operations b)) \<and> list_all (operation_ok k pr b) (map snd (ab_operations b))"
  by (auto simp: validate_def validate_fold result_simps not_less)

text \<open>An operation stays valid when only the nonce floor rises.\<close>

lemma operation_ok_mono:
  assumes "operation_ok k pr b op" and "ab_scope b' = ab_scope b" and "ab_address b' = ab_address b"
    and "ab_next_nonce b \<le> ab_next_nonce b'"
  shows "operation_ok k pr b' op"
proof -
  have "checked_payload k pr b' n p = checked_payload k pr b n p" for n p
    using assms(2,3) by (simp add: checked_payload_def)
  then show ?thesis using assms(1,4) by (auto simp: operation_ok_def payload_ok_def split: option.splits)
qed

lemma operation_ok_operations [simp]: "operation_ok k pr (b\<lparr>ab_operations := ops\<rparr>) = operation_ok k pr b"
proof -
  have c: "checked_payload k pr (b\<lparr>ab_operations := ops\<rparr>) = checked_payload k pr b"
    by (intro ext) (simp add: checked_payload_def)
  show ?thesis unfolding operation_ok_def [abs_def] payload_ok_def c by simp
qed

section \<open>The exported bytes\<close>

text \<open>A writer appends a fixed segment while the total stays within the bound.\<close>

definition writes :: "(bytes \<Rightarrow> (bytes, storage_error) result) \<Rightarrow> bytes \<Rightarrow> bool \<Rightarrow> bool" where
  "writes f seg c \<longleftrightarrow> (\<forall>w w'. length w \<le> MAX_CUSTODY_BYTES \<longrightarrow>
     (f w = Ok w' \<longleftrightarrow> c \<and> w' = w @ seg \<and> length w' \<le> MAX_CUSTODY_BYTES))"

named_theorems write_intros \<open>what each writer appends\<close>

lemma writes_put [write_intros]: "writes (put bs) bs True"
  by (auto simp: writes_def put_def)

lemma writes_Ok [write_intros]: "writes Ok [] True"
  by (auto simp: writes_def)

lemma writes_seq [write_intros]:
  assumes "writes f s c" and "writes g t d"
  shows "writes (\<lambda>w. rbind (f w) g) (s @ t) (c \<and> d)"
  unfolding writes_def rbind_eq_Ok
proof (intro allI impI)
  fix w w' :: bytes
  assume w: "length w \<le> MAX_CUSTODY_BYTES"
  have "f w = Ok v \<longleftrightarrow> c \<and> v = w @ s \<and> length v \<le> MAX_CUSTODY_BYTES" for v
    using assms(1) w by (simp add: writes_def)
  moreover have "length v \<le> MAX_CUSTODY_BYTES \<Longrightarrow> g v = Ok w' \<longleftrightarrow> d \<and> w' = v @ t \<and> length w' \<le> MAX_CUSTODY_BYTES" for v
    using assms(2) by (simp add: writes_def)
  ultimately show "(\<exists>v. f w = Ok v \<and> g v = Ok w') \<longleftrightarrow> (c \<and> d) \<and> w' = w @ s @ t \<and> length w' \<le> MAX_CUSTODY_BYTES"
    by auto
qed

lemma writes_blob [write_intros]:
  "writes (put_blob bs) (to_be 4 (length bs) @ bs) (length bs \<le> MAX_TRANSACTION_BYTES)"
proof -
  have "writes (\<lambda>w. rbind (put (to_be 4 (length bs)) w) (put bs)) (to_be 4 (length bs) @ bs) (True \<and> True)"
    by (intro write_intros)
  then show ?thesis by (auto simp: writes_def put_blob_def)
qed

lemma writes_all:
  assumes "\<And>x. x \<in> set xs \<Longrightarrow> writes (f x) (e x) (c x)"
  shows "writes (put_all f xs) (concat (map e xs)) (list_all c xs)"
  using assms
proof (induction xs)
  case Nil
  then show ?case by (auto simp: writes_def put_all_def)
next
  case (Cons x xs)
  have "writes (\<lambda>w. rbind (f x w) (put_all f xs)) (e x @ concat (map e xs)) (c x \<and> list_all c xs)"
    using Cons by (intro writes_seq) simp_all
  then show ?case by (simp add: put_all_def [abs_def])
qed

fun transaction_bytes :: "hash32 option \<Rightarrow> bytes" where
  "transaction_bytes None = [0]"
| "transaction_bytes (Some h) = 1 # hash_bytes h"

fun inclusion_bytes :: "(hash32 \<times> checkpoint) option \<Rightarrow> bytes" where
  "inclusion_bytes None = [0]"
| "inclusion_bytes (Some (h, block)) = 1 # hash_bytes h @ hash_bytes (cp_hash block) @ to_be 32 (unat (cp_height block))"

definition blob_bytes :: "bytes \<Rightarrow> bytes" where
  "blob_bytes bs = to_be 4 (length bs) @ bs"

definition edge_bytes :: "quai_replacement \<Rightarrow> bytes" where
  "edge_bytes e = hash_bytes (rp_parent e) @ blob_bytes (rp_payload e)"

abbreviation payload_bytes :: "bytes option \<Rightarrow> bytes" where
  "payload_bytes p \<equiv> (case p of None \<Rightarrow> [] | Some bs \<Rightarrow> bs)"

definition operation_bytes :: "account_operation \<Rightarrow> bytes" where
  "operation_bytes op = ao_id op @ to_be 8 (unat (ao_nonce op)) @ [state_byte (ao_state op)] @
     transaction_bytes (ao_transaction op) @ inclusion_bytes (ao_inclusion op) @ blob_bytes (payload_bytes (ao_payload op)) @
     [word_of_nat (length (ao_replacements op))] @ concat (map edge_bytes (ao_replacements op))"

definition blobs_ok :: "account_operation \<Rightarrow> bool" where
  "blobs_ok op \<longleftrightarrow> length (payload_bytes (ao_payload op)) \<le> MAX_TRANSACTION_BYTES \<and>
     list_all (\<lambda>e. length (rp_payload e) \<le> MAX_TRANSACTION_BYTES) (ao_replacements op)"

definition book_bytes :: "('pt, 'ec, 'sc, 'sk) k256 \<Rightarrow> 'pt account_book \<Rightarrow> bytes" where
  "book_bytes k b = MAGIC @ scope_key (ab_scope b) @ to_compressed k (ab_owner b) @ to_be 8 (unat (ab_next_nonce b)) @
     to_be 2 (unat (word_of_nat (length (ab_operations b)) :: u16)) @ concat (map (operation_bytes \<circ> snd) (ab_operations b))"

lemma writes_transaction [write_intros]: "writes (put_transaction t) (transaction_bytes t) True"
proof (cases t)
  case None
  have "writes (\<lambda>w. rbind (put [0] w) Ok) ([0] @ []) (True \<and> True)" by (intro write_intros)
  then show ?thesis by (simp add: None put_transaction_def [abs_def])
next
  case (Some h)
  have "writes (\<lambda>w. rbind (put [1] w) (put (hash_bytes h))) ([1] @ hash_bytes h) (True \<and> True)" by (intro write_intros)
  then show ?thesis by (simp add: Some put_transaction_def [abs_def])
qed

lemma writes_inclusion [write_intros]: "writes (put_inclusion i) (inclusion_bytes i) True"
proof (cases i)
  case None
  have "writes (\<lambda>w. rbind (put [0] w) Ok) ([0] @ []) (True \<and> True)" by (intro write_intros)
  then show ?thesis by (simp add: None put_inclusion_def [abs_def])
next
  case (Some p)
  obtain h block where p: "p = (h, block)" by (cases p)
  have "writes (\<lambda>w. rbind (put [1] w) (\<lambda>w. rbind (put (hash_bytes h) w) (\<lambda>w. rbind (put (hash_bytes (cp_hash block)) w)
      (put (to_be 32 (unat (cp_height block)))))))
      ([1] @ hash_bytes h @ hash_bytes (cp_hash block) @ to_be 32 (unat (cp_height block))) (True \<and> True \<and> True \<and> True)"
    by (intro write_intros)
  then show ?thesis by (simp add: Some p put_inclusion_def [abs_def])
qed

lemma writes_edge [write_intros]:
  "writes (put_edge e) (edge_bytes e) (length (rp_payload e) \<le> MAX_TRANSACTION_BYTES)"
proof -
  have "writes (put_edge e) (hash_bytes (rp_parent e) @ to_be 4 (length (rp_payload e)) @ rp_payload e)
      (True \<and> length (rp_payload e) \<le> MAX_TRANSACTION_BYTES)"
    unfolding put_edge_def [abs_def] by (intro write_intros)
  then show ?thesis by (simp add: edge_bytes_def blob_bytes_def)
qed

lemma writes_operation: "writes (put_operation op) (operation_bytes op) (blobs_ok op)"
proof -
  have "writes (put_operation op)
      (ao_id op @ to_be 8 (unat (ao_nonce op)) @ [state_byte (ao_state op)] @ transaction_bytes (ao_transaction op) @
       inclusion_bytes (ao_inclusion op) @ (to_be 4 (length (payload_bytes (ao_payload op))) @ payload_bytes (ao_payload op)) @
       [word_of_nat (length (ao_replacements op))] @ concat (map edge_bytes (ao_replacements op)))
      (True \<and> True \<and> True \<and> True \<and> True \<and> length (payload_bytes (ao_payload op)) \<le> MAX_TRANSACTION_BYTES \<and> True \<and>
       list_all (\<lambda>e. length (rp_payload e) \<le> MAX_TRANSACTION_BYTES) (ao_replacements op))"
    unfolding put_operation_def [abs_def] by (intro write_intros writes_all)
  then show ?thesis by (simp add: operation_bytes_def blob_bytes_def blobs_ok_def)
qed

lemma export_state_Ok:
  "export_state k b = Ok bs \<longleftrightarrow> list_all blobs_ok (map snd (ab_operations b)) \<and> bs = book_bytes k b \<and>
     length bs \<le> MAX_CUSTODY_BYTES"
proof -
  have "writes (\<lambda>w. rbind (put MAGIC w) (\<lambda>w. rbind (put (scope_key (ab_scope b)) w) (\<lambda>w.
       rbind (put (to_compressed k (ab_owner b)) w) (\<lambda>w.
         rbind (put (to_be 8 (unat (ab_next_nonce b))) w) (\<lambda>w.
           rbind (put (to_be 2 (unat (word_of_nat (length (ab_operations b)) :: u16))) w)
             (put_all put_operation (map snd (ab_operations b))))))))
      (MAGIC @ scope_key (ab_scope b) @ to_compressed k (ab_owner b) @ to_be 8 (unat (ab_next_nonce b)) @
       to_be 2 (unat (word_of_nat (length (ab_operations b)) :: u16)) @
       concat (map operation_bytes (map snd (ab_operations b))))
      (True \<and> True \<and> True \<and> True \<and> True \<and> list_all blobs_ok (map snd (ab_operations b)))"
    by (intro write_intros writes_all writes_operation)
  then show ?thesis by (auto simp: writes_def export_state_def book_bytes_def comp_def)
qed

section \<open>The invariant of a live book\<close>

text \<open>
  Types of the fields, and the account the book is for; then a book is sound when it also passes
  its own validation and can be exported.
\<close>

definition wf_operation :: "account_operation \<Rightarrow> bool" where
  "wf_operation op \<longleftrightarrow> length (ao_id op) = 16 \<and> pred_option wf_hash (ao_transaction op) \<and>
     pred_option (\<lambda>(h, block). wf_hash h \<and> wf_hash (cp_hash block)) (ao_inclusion op) \<and>
     list_all (\<lambda>e. wf_hash (rp_parent e)) (ao_replacements op)"

definition wf_operations :: "(bytes \<times> account_operation) list \<Rightarrow> bool" where
  "wf_operations ops \<longleftrightarrow> bt_sorted ops \<and> (\<forall>(i, op) \<in> set ops. ao_id op = i \<and> wf_operation op)"

definition account_ok :: "('pt, 'ec, 'sc, 'sk) k256 \<Rightarrow> network_scope \<Rightarrow> 'pt \<Rightarrow> quai_address \<Rightarrow> bool" where
  "account_ok k scope owner address \<longleftrightarrow> quai_address_try_from (public_key_address k owner) = Ok address \<and>
     ns_chain_id scope \<noteq> 0 \<and> hash_bytes (ns_genesis scope) \<noteq> replicate 32 0 \<and> la_zone address = ns_zone scope"

definition wf_book :: "('pt, 'ec, 'sc, 'sk) k256 \<Rightarrow> 'pt account_book \<Rightarrow> bool" where
  "wf_book k b \<longleftrightarrow> account_ok k (ab_scope b) (ab_owner b) (ab_address b) \<and> wf_operations (ab_operations b)"

definition book_ok :: "('pt, 'ec, 'sc, 'sk) k256 \<Rightarrow> prost \<Rightarrow> 'pt account_book \<Rightarrow> bool" where
  "book_ok k pr b \<longleftrightarrow> wf_book k b \<and> validate k pr b = Ok () \<and> export_state k b = Ok (book_bytes k b)"

lemma export_is_bytes: "export_state k b = Ok bs \<Longrightarrow> export_state k b = Ok (book_bytes k b)"
  by (auto simp: export_state_Ok)

lemma book_new_Ok:
  "book_new k scope owner n = Ok b \<longleftrightarrow> account_ok k scope owner (ab_address b) \<and>
     b = \<lparr>ab_scope = scope, ab_owner = owner, ab_address = ab_address b, ab_next_nonce = n, ab_operations = []\<rparr>"
  by (cases b) (auto simp: book_new_def account_ok_def result_simps split: if_splits)

lemma wf_operations_insert:
  assumes "wf_operations ops" and "wf_operation op" and "ao_id op = i"
  shows "wf_operations (bt_insert i op ops)"
  using assms bt_insert_subset [of i op ops] by (auto simp: wf_operations_def bt_sorted_insert)

section \<open>Every mutation keeps the invariant\<close>

lemma book_ok_member:
  assumes "book_ok k pr b" and "operation b i = Some op"
  shows "ao_id op = i" and "wf_operation op" and "operation_ok k pr b op" and "blobs_ok op"
proof -
  have "(i, op) \<in> set (ab_operations b)" using assms(2) by (simp add: operation_def map_of_SomeD)
  then show "ao_id op = i" "wf_operation op" "operation_ok k pr b op" "blobs_ok op"
    using assms(1) by (auto simp: book_ok_def wf_book_def wf_operations_def validate_Ok export_state_Ok list_all_iff)
qed

lemma replace_valid:
  assumes b: "book_ok k pr b" and op: "operation b i = Some op"
    and new: "ao_id op' = i" "ao_nonce op' = ao_nonce op" "wf_operation op'" "operation_ok k pr b op'"
  shows "wf_book k (update_operation b i op')" and "validate k pr (update_operation b i op') = Ok ()"
proof -
  have s: "bt_sorted (ab_operations b)" using b by (simp add: book_ok_def wf_book_def wf_operations_def)
  show "wf_book k (update_operation b i op')"
    using b new wf_operations_insert by (simp add: book_ok_def wf_book_def update_operation_def)
  obtain xs ys where o: "ab_operations b = xs @ (i, op) # ys" "bt_insert i op' (ab_operations b) = xs @ (i, op') # ys"
    using bt_insert_present [OF s] op by (fastforce simp: operation_def)
  show "validate k pr (update_operation b i op') = Ok ()"
    using b new o unfolding book_ok_def validate_Ok by (simp add: update_operation_def)
qed

lemma update_ok:
  assumes b: "book_ok k pr b" and op: "operation b i = Some op"
    and new: "ao_id op' = i" "ao_nonce op' = ao_nonce op" "wf_operation op'" "operation_ok k pr b op'" "blobs_ok op'"
    and small: "length (operation_bytes op') \<le> length (operation_bytes op)"
  shows "book_ok k pr (update_operation b i op')"
proof -
  have s: "bt_sorted (ab_operations b)" using b by (simp add: book_ok_def wf_book_def wf_operations_def)
  obtain xs ys where o: "ab_operations b = xs @ (i, op) # ys" "bt_insert i op' (ab_operations b) = xs @ (i, op') # ys"
    using bt_insert_present [OF s] op by (fastforce simp: operation_def)
  have "length (book_bytes k (update_operation b i op')) \<le> length (book_bytes k b)"
    using small o by (simp add: book_bytes_def update_operation_def)
  then have "export_state k (update_operation b i op') = Ok (book_bytes k (update_operation b i op'))"
    using b new(5) o by (auto simp: export_state_Ok book_ok_def update_operation_def)
  then show ?thesis using replace_valid [OF b op new(1-4)] by (simp add: book_ok_def)
qed

lemma install_Ok:
  "install k b op n = Ok b' \<longleftrightarrow>
     b' = b\<lparr>ab_operations := bt_insert (ao_id op) op (ab_operations b), ab_next_nonce := n\<rparr> \<and>
     export_state k b' = Ok (book_bytes k b')"
proof -
  define c where "c = b\<lparr>ab_operations := bt_insert (ao_id op) op (ab_operations b), ab_next_nonce := n\<rparr>"
  have "install k b op n = Ok b' \<longleftrightarrow> (\<exists>bs. export_state k c = Ok bs) \<and> b' = c"
    by (auto simp: install_def c_def [symmetric] result_simps)
  also have "(\<exists>bs. export_state k c = Ok bs) \<longleftrightarrow> export_state k c = Ok (book_bytes k c)"
    using export_is_bytes [of k c] by auto
  finally show ?thesis unfolding c_def [symmetric] by auto
qed

lemma install_ok:
  assumes b: "book_ok k pr b" and op: "operation b i = Some op"
    and new: "ao_id op' = i" "ao_nonce op' = ao_nonce op" "wf_operation op'" "operation_ok k pr b op'"
    and inst: "install k b op' (ab_next_nonce b) = Ok b'"
  shows "book_ok k pr b'" and "b' = update_operation b i op'"
proof -
  show u: "b' = update_operation b i op'"
    using inst new(1) by (simp add: install_Ok update_operation_def)
  show "book_ok k pr b'"
    using replace_valid [OF b op new] inst unfolding book_ok_def install_Ok u by blast
qed

lemma reserve_nonce_Ok:
  "reserve_nonce k b i p = Ok (b', n) \<longleftrightarrow> operation b i = None \<and> length (ab_operations b) < MAX_ACCOUNT_OPERATIONS \<and>
     n = max (ab_next_nonce b) p \<and> unat n < 2 ^ 64 - 1 \<and>
     b' = b\<lparr>ab_operations := bt_insert i \<lparr>ao_id = i, ao_nonce = n, ao_state = Reserved, ao_transaction = None, ao_payload = None,
       ao_replacements = [], ao_inclusion = None\<rparr> (ab_operations b), ab_next_nonce := n + 1\<rparr> \<and>
     export_state k b' = Ok (book_bytes k b')"
proof -
  have "checked_add m 1 = Some v \<longleftrightarrow> unat m < 2 ^ 64 - 1 \<and> v = m + 1" for m v :: u64
    by (auto simp: checked_add_def)
  then show ?thesis
    by (auto simp: reserve_nonce_def Let_def result_simps install_Ok not_le split: if_splits)
qed

lemma reserve_ok:
  assumes b: "book_ok k pr b" and r: "reserve_nonce k b i p = Ok (b', n)" and i: "length i = 16"
  shows "book_ok k pr b'" and "ab_next_nonce b \<le> n" and "n < ab_next_nonce b'"
proof -
  define op where "op = \<lparr>ao_id = i, ao_nonce = n, ao_state = Reserved, ao_transaction = None, ao_payload = None,
    ao_replacements = [], ao_inclusion = None\<rparr>"
  have r': "operation b i = None" "length (ab_operations b) < MAX_ACCOUNT_OPERATIONS" "n = max (ab_next_nonce b) p"
    "unat n < 2 ^ 64 - 1" "b' = b\<lparr>ab_operations := bt_insert i op (ab_operations b), ab_next_nonce := n + 1\<rparr>"
    "export_state k b' = Ok (book_bytes k b')"
    using r unfolding reserve_nonce_Ok op_def by blast+
  show le: "ab_next_nonce b \<le> n" using r'(3) by simp
  have "unat (n + 1) = unat n + unat (1 :: u64)" by (rule unat_add_exact) (use r'(4) in simp)
  then have n: "n < n + 1" by (simp add: word_less_nat_alt)
  then show lt: "n < ab_next_nonce b'" by (simp add: r'(5))
  have old: "operation_ok k pr b' x \<and> ao_nonce x < n" if "(j, x) \<in> set (ab_operations b)" for j x
  proof -
    have x: "operation_ok k pr b x" using b that by (force simp: book_ok_def validate_Ok list_all_iff)
    then have "ao_nonce x < ab_next_nonce b" by (simp add: operation_ok_def)
    then have "ao_nonce x < n" using le by (rule less_le_trans)
    moreover have "operation_ok k pr b' x" using le lt by (intro operation_ok_mono [OF x]) (simp_all add: r'(5))
    ultimately show ?thesis by simp
  qed
  have new: "wf_operation op" "operation_ok k pr b' op"
    using i lt by (simp_all add: op_def wf_operation_def operation_ok_def payload_ok_def signed_state_def)
  have "map_of (ab_operations b) i = None" using r'(1) by (simp add: operation_def)
  from bt_insert_absent [OF this, of op] obtain xs ys where o: "ab_operations b = xs @ ys"
    and "bt_insert i op (ab_operations b) = xs @ (i, op) # ys" by blast
  then have o': "ab_operations b' = xs @ (i, op) # ys" by (simp add: r'(5))
  have "n \<notin> (ao_nonce \<circ> snd) ` set (ab_operations b)" using old by force
  moreover have "list_all (operation_ok k pr b') (map snd (ab_operations b'))"
    using old new(2) unfolding o o' by (fastforce simp: list_all_iff)
  ultimately have "validate k pr b' = Ok ()"
    using b r'(2) unfolding book_ok_def validate_Ok o o' by (auto simp: op_def)
  moreover have "wf_book k b'"
    using b new(1) wf_operations_insert [of "ab_operations b" op i] by (simp add: book_ok_def wf_book_def r'(5) op_def)
  ultimately show "book_ok k pr b'" using r'(6) by (simp add: book_ok_def)
qed

end
