(* ===== verification/Account_Journal.thy ===== *)
theory Account_Journal
  imports Account_Custody
begin

text \<open>
  The account journal as a state machine: the steps a live book can take, and what every step and
  every history preserves.
\<close>

section \<open>What history preserves\<close>

text \<open>
  A retained operation keeps its identifier and nonce, its transaction and root bytes once known,
  every replacement edge in order, and never leaves the signed states.
\<close>

definition operation_le :: "account_operation \<Rightarrow> account_operation \<Rightarrow> bool" where
  "operation_le old new \<longleftrightarrow> ao_id new = ao_id old \<and> ao_nonce new = ao_nonce old \<and>
     (ao_transaction old \<noteq> None \<longrightarrow> ao_transaction new = ao_transaction old) \<and>
     (ao_payload old \<noteq> None \<longrightarrow> ao_payload new = ao_payload old) \<and>
     prefix (ao_replacements old) (ao_replacements new) \<and>
     (signed_state (ao_state old) \<longrightarrow> signed_state (ao_state new))"

definition book_le :: "'pt account_book \<Rightarrow> 'pt account_book \<Rightarrow> bool" where
  "book_le b b' \<longleftrightarrow> ab_scope b' = ab_scope b \<and> ab_owner b' = ab_owner b \<and> ab_address b' = ab_address b \<and>
     ab_next_nonce b \<le> ab_next_nonce b' \<and>
     (\<forall>i op. operation b i = Some op \<longrightarrow> (\<exists>op'. operation b' i = Some op' \<and> operation_le op op'))"

lemma operation_le_refl: "operation_le op op"
  by (simp add: operation_le_def)

lemma operation_le_trans: "operation_le a b \<Longrightarrow> operation_le b c \<Longrightarrow> operation_le a c"
  by (auto simp: operation_le_def)

lemma book_le_refl: "book_le b b"
  by (simp add: book_le_def operation_le_refl)

lemma book_le_trans: "book_le a b \<Longrightarrow> book_le b c \<Longrightarrow> book_le a c"
proof -
  assume ab: "book_le a b" and bc: "book_le b c"
  have "\<exists>z. operation c i = Some z \<and> operation_le x z" if x: "operation a i = Some x" for i x
  proof -
    obtain y where y: "operation b i = Some y" "operation_le x y" using ab x by (auto simp: book_le_def)
    then obtain z where "operation c i = Some z" "operation_le y z" using bc by (auto simp: book_le_def)
    then show ?thesis using y(2) operation_le_trans by blast
  qed
  then show ?thesis using ab bc by (auto simp: book_le_def)
qed

lemma operation_update: "operation (update_operation b i op) j = (if j = i then Some op else operation b j)"
  by (simp add: operation_def update_operation_def bt_get_insert)

lemma book_le_update:
  assumes "operation b i = Some op" and "operation_le op op'"
  shows "book_le b (update_operation b i op')"
proof -
  have "\<exists>x'. operation (update_operation b i op') j = Some x' \<and> operation_le x x'" if "operation b j = Some x" for j x
    using assms that by (auto simp: operation_update operation_le_refl)
  then show ?thesis by (simp add: book_le_def update_operation_def)
qed

text \<open>One mutation: an admissible successor of a retained operation, in place or installed.\<close>

definition admissible :: "('pt, 'ec, 'sc, 'sk) k256 \<Rightarrow> prost \<Rightarrow> 'pt account_book \<Rightarrow> account_operation \<Rightarrow> account_operation \<Rightarrow> bool" where
  "admissible k pr b op op' \<longleftrightarrow> operation_le op op' \<and> wf_operation op' \<and> operation_ok k pr b op'"

lemma install_step:
  assumes "book_ok k pr b" and "operation b i = Some op" and "admissible k pr b op op'"
    and "install k b op' (ab_next_nonce b) = Ok b'"
  shows "book_ok k pr b' \<and> book_le b b'"
proof -
  have "ao_id op' = i" "ao_nonce op' = ao_nonce op"
    using assms book_ok_member(1) [OF assms(1,2)] by (simp_all add: admissible_def operation_le_def)
  then have "book_ok k pr b'" "b' = update_operation b i op'"
    using assms by (auto simp: admissible_def intro: install_ok)
  then show ?thesis using assms book_le_update by (auto simp: admissible_def)
qed

lemma update_step:
  assumes "book_ok k pr b" and "operation b i = Some op" and "admissible k pr b op op'"
    and "blobs_ok op'" and "length (operation_bytes op') \<le> length (operation_bytes op)"
  shows "book_ok k pr (update_operation b i op') \<and> book_le b (update_operation b i op')"
proof -
  have "ao_id op' = i" "ao_nonce op' = ao_nonce op"
    using assms book_ok_member(1) [OF assms(1,2)] by (simp_all add: admissible_def operation_le_def)
  then show ?thesis using assms by (auto simp: admissible_def intro: update_ok book_le_update)
qed

lemma blobs_ok_state [simp]:
  "blobs_ok (op\<lparr>ao_state := s\<rparr>) = blobs_ok op" "blobs_ok (op\<lparr>ao_state := s, ao_inclusion := i\<rparr>) = blobs_ok op"
  by (simp_all add: blobs_ok_def)

lemma operation_bytes_state [simp]: "length (operation_bytes (op\<lparr>ao_state := s\<rparr>)) = length (operation_bytes op)"
  by (simp add: operation_bytes_def)

lemma payload_ok_fields [simp]:
  "payload_ok k pr b (op\<lparr>ao_state := s\<rparr>) = payload_ok k pr b op"
  "payload_ok k pr b (op\<lparr>ao_state := s, ao_inclusion := i\<rparr>) = payload_ok k pr b op"
  "contains_candidate k pr (op\<lparr>ao_state := s\<rparr>) = contains_candidate k pr op"
  "contains_candidate k pr (op\<lparr>ao_state := s, ao_inclusion := i\<rparr>) = contains_candidate k pr op"
  by (simp_all add: payload_ok_def contains_candidate_def fun_eq_iff split: option.split)

lemma admissible_state:
  assumes "operation_ok k pr b op" and "wf_operation op"
    and "signed_state s \<longleftrightarrow> signed_state (ao_state op)" and "s \<noteq> Confirmed" and "ao_state op \<noteq> Confirmed"
  shows "admissible k pr b op (op\<lparr>ao_state := s\<rparr>)"
  using assms unfolding admissible_def operation_le_def wf_operation_def operation_ok_def by auto

lemma release_step:
  assumes "book_ok k pr b" and "release_unsigned b i = Ok b'"
  shows "book_ok k pr b' \<and> book_le b b'"
proof -
  obtain op where op: "operation b i = Some op" "ao_state op = Reserved" "b' = update_operation b i (op\<lparr>ao_state := Released\<rparr>)"
    using assms(2) by (auto simp: release_unsigned_def result_simps split: if_splits)
  note m = book_ok_member [OF assms(1) op(1)]
  show ?thesis unfolding op(3)
    by (rule update_step [OF assms(1) op(1)]) (use m op(2) in \<open>simp_all add: admissible_state signed_state_def\<close>)
qed

lemma reopen_step:
  assumes "book_ok k pr b" and "reopen_unsigned b i = Ok b'"
  shows "book_ok k pr b' \<and> book_le b b'"
proof -
  obtain op where op: "operation b i = Some op" "ao_state op = Released" "b' = update_operation b i (op\<lparr>ao_state := Reserved\<rparr>)"
    using assms(2) by (auto simp: reopen_unsigned_def result_simps split: if_splits)
  note m = book_ok_member [OF assms(1) op(1)]
  show ?thesis unfolding op(3)
    by (rule update_step [OF assms(1) op(1)]) (use m op(2) in \<open>simp_all add: admissible_state signed_state_def\<close>)
qed

lemma submit_step:
  assumes "book_ok k pr b" and "mark_submitted b i = Ok b'"
  shows "book_ok k pr b' \<and> book_le b b'"
proof -
  obtain op where op: "operation b i = Some op"
    and c: "b' = b \<or> ao_state op = Signed \<and> b' = update_operation b i (op\<lparr>ao_state := Submitted\<rparr>)"
    using assms(2) by (auto simp: mark_submitted_def result_simps split: if_splits)
  note m = book_ok_member [OF assms(1) op]
  show ?thesis using c
  proof
    assume "ao_state op = Signed \<and> b' = update_operation b i (op\<lparr>ao_state := Submitted\<rparr>)"
    then show ?thesis
      using m update_step [OF assms(1) op, of "op\<lparr>ao_state := Submitted\<rparr>"] by (simp add: admissible_state signed_state_def)
  qed (use assms(1) book_le_refl in simp)
qed

lemma invalidate_step:
  assumes "book_ok k pr b" and "invalidate_inclusion b i e = Ok b'"
  shows "book_ok k pr b' \<and> book_le b b'"
proof -
  obtain op where op: "operation b i = Some op" "ao_state op = Confirmed" "ao_inclusion op = Some e"
    "b' = update_operation b i (op\<lparr>ao_state := Submitted, ao_inclusion := None\<rparr>)"
    using assms(2) by (auto simp: invalidate_inclusion_def result_simps split: if_splits)
  note m = book_ok_member [OF assms(1) op(1)]
  have "admissible k pr b op (op\<lparr>ao_state := Submitted, ao_inclusion := None\<rparr>)"
    using m op(2) unfolding admissible_def operation_le_def wf_operation_def operation_ok_def
    by (auto simp: signed_state_def)
  moreover have "length (operation_bytes (op\<lparr>ao_state := Submitted, ao_inclusion := None\<rparr>)) \<le> length (operation_bytes op)"
    using op(3) by (cases e) (simp add: operation_bytes_def)
  ultimately show ?thesis using m(4) update_step [OF assms(1) op(1)] by (simp add: op(4))
qed

lemma quai_hash_wf: "digest_ok (k_keccak k) \<Longrightarrow> quai_hash k pr s = Ok h \<Longrightarrow> wf_hash h"
  by (auto simp: quai_hash_def result_simps digest_ok_def wf_hash_def Let_def)

lemma checked_payload_Ok:
  "checked_payload k pr b n p = Ok h \<longleftrightarrow> (\<exists>s. quai_signed_decode k pr p = Ok s \<and> sq_from s = ab_address b \<and>
     qt_nonce (sq_transaction s) = n \<and> qt_chain_id (sq_transaction s) = ns_chain_id (ab_scope b) \<and> quai_hash k pr s = Ok h)"
  by (auto simp: checked_payload_def result_simps split: if_splits)

text \<open>Account bytes are never operation bytes, so a fresh family of an account root is valid.\<close>

lemma quai_not_operation:
  assumes "quai_signed_decode k pr bs = Ok s"
  shows "\<exists>e. operation_decode k pr bs = Inl e"
proof -
  obtain p where p: "decode pr bs = Ok p" "pt_type p = Some 0"
    using assms by (auto simp: quai_signed_decode_def quai_from_proto_def result_simps if_eq_Ok)
  then have "from_proto_for k p mode = Err TxWrongType" for mode by (simp add: from_proto_for_def)
  then have "operation_decode k pr bs \<noteq> Inr op" for op
    using p by (auto simp: operation_decode_def qi_signed_decode_def conversion_decode_def wrapping_decode_def Let_def
        split: if_splits)
  then show ?thesis by (cases "operation_decode k pr bs") auto
qed

lemma fresh_family:
  assumes "checked_payload k pr b n p = Ok h"
  shows "validate_family k pr p [] = Ok ()"
proof -
  obtain s where s: "quai_signed_decode k pr p = Ok s" "quai_hash k pr s = Ok h"
    using assms by (auto simp: checked_payload_Ok)
  obtain e where "operation_decode k pr p = Inl e" using quai_not_operation [OF s(1)] by blast
  then show ?thesis using s by (simp add: validate_family_def)
qed

lemma commit_signed_cases:
  assumes "commit_signed k pr b i s = Ok b'"
  obtains op p h where "operation b i = Some op" "quai_signed_bytes k pr s = Ok p"
    "checked_payload k pr b (ao_nonce op) p = Ok h" "ao_state op \<noteq> Released" "ao_transaction op \<in> {None, Some h}"
    "b' = b \<and> ao_payload op = Some p \<or> ao_payload op = None \<and> install k b (with_root op p h) (ab_next_nonce b) = Ok b'"
proof -
  obtain op p h where o: "operation b i = Some op" "quai_signed_bytes k pr s = Ok p"
      "checked_payload k pr b (ao_nonce op) p = Ok h"
    and r: "(if ao_state op = Released \<or> (case ao_transaction op of None \<Rightarrow> False | Some old \<Rightarrow> old \<noteq> h) then Err StTransition
      else case ao_payload op of Some old \<Rightarrow> if old = p then Ok b else Err StConflict
        | None \<Rightarrow> install k b (with_root op p h) (ab_next_nonce b)) = Ok b'"
    using assms unfolding commit_signed_def rbind_eq_Ok ok_or_eq map_err_eq by blast
  from r have "ao_state op \<noteq> Released" "ao_transaction op \<in> {None, Some h}"
    "b' = b \<and> ao_payload op = Some p \<or> ao_payload op = None \<and> install k b (with_root op p h) (ab_next_nonce b) = Ok b'"
    by (cases "ao_payload op"; cases "ao_transaction op"; auto split: if_splits)+
  then show thesis using that o by blast
qed

lemma commit_signed_step:
  assumes "digest_ok (k_keccak k)" and b: "book_ok k pr b" and "commit_signed k pr b i s = Ok b'"
  shows "book_ok k pr b' \<and> book_le b b'"
  using assms(3)
proof (cases rule: commit_signed_cases)
  case (1 op p h)
  note m = book_ok_member [OF b 1(1)]
  have s: "signed_state (ao_state (with_root op p h))"
    using 1(4) by (cases "ao_state op") (simp_all add: signed_state_def with_root_def)
  show ?thesis using 1(6)
  proof
    assume n: "ao_payload op = None \<and> install k b (with_root op p h) (ab_next_nonce b) = Ok b'"
    have r: "ao_replacements op = []" using m(3) n by (simp add: operation_ok_def payload_ok_def)
    have "payload_ok k pr b (with_root op p h)" using 1(3) fresh_family [OF 1(3)] r by (simp add: payload_ok_def with_root_def)
    moreover have "contains_candidate k pr op x \<Longrightarrow> contains_candidate k pr (with_root op p h) x" for x
      using 1(5) r by (auto simp: contains_candidate_def with_root_def)
    ultimately have "operation_ok k pr b (with_root op p h)"
      using m(3) s 1(5) unfolding operation_ok_def by (auto simp: with_root_def signed_state_def)
    moreover have "wf_hash h" using 1(3) quai_hash_wf [OF assms(1)] by (auto simp: checked_payload_Ok)
    then have "wf_operation (with_root op p h)" using m(2) by (simp add: wf_operation_def with_root_def)
    moreover have "operation_le op (with_root op p h)" using 1(5) n s by (auto simp: operation_le_def with_root_def)
    ultimately show ?thesis using install_step [OF b 1(1)] n by (simp add: admissible_def)
  qed (use b book_le_refl in simp)
qed

lemma commit_replacement_step:
  assumes b: "book_ok k pr b" and "commit_replacement k pr b i parent s = Ok b'" and "wf_hash parent"
  shows "book_ok k pr b' \<and> book_le b b'"
proof -
  obtain op root p where op: "operation b i = Some op" and st: "ao_state op = Signed \<or> ao_state op = Submitted"
    and root: "ao_payload op = Some root"
    and c: "b' = b \<or> validate_family k pr root (ao_replacements op @ [\<lparr>rp_parent = parent, rp_payload = p\<rparr>]) = Ok () \<and>
      install k b (op\<lparr>ao_replacements := ao_replacements op @ [\<lparr>rp_parent = parent, rp_payload = p\<rparr>]\<rparr>) (ab_next_nonce b) = Ok b'"
    using assms(2) by (auto simp: commit_replacement_def result_simps Let_def split: if_splits)
  note m = book_ok_member [OF b op]
  show ?thesis using c
  proof
    assume n: "validate_family k pr root (ao_replacements op @ [\<lparr>rp_parent = parent, rp_payload = p\<rparr>]) = Ok () \<and>
      install k b (op\<lparr>ao_replacements := ao_replacements op @ [\<lparr>rp_parent = parent, rp_payload = p\<rparr>]\<rparr>) (ab_next_nonce b) = Ok b'"
    let ?op = "op\<lparr>ao_replacements := ao_replacements op @ [\<lparr>rp_parent = parent, rp_payload = p\<rparr>]\<rparr>"
    have "ao_inclusion op = None" using m(3) st unfolding operation_ok_def by fastforce
    then have "operation_ok k pr b ?op" using m(3) n root by (auto simp: operation_ok_def payload_ok_def)
    moreover have "wf_operation ?op" using m(2) assms(3) by (simp add: wf_operation_def)
    moreover have "operation_le op ?op" by (simp add: operation_le_def)
    ultimately show ?thesis using install_step [OF b op] n by (simp add: admissible_def)
  qed (use b book_le_refl in simp)
qed

lemma observe_step:
  assumes b: "book_ok k pr b" and "observe_inclusion k pr b i hash cp = Ok b'" and "wf_hash hash" "wf_hash (cp_hash cp)"
  shows "book_ok k pr b' \<and> book_le b b'"
proof -
  obtain op where op: "operation b i = Some op"
    and c: "b' = b \<or> (ao_state op = Signed \<or> ao_state op = Submitted) \<and> contains_candidate k pr op hash \<and>
      hash_bytes (cp_hash cp) \<noteq> replicate 32 0 \<and>
      install k b (op\<lparr>ao_state := Confirmed, ao_inclusion := Some (hash, cp)\<rparr>) (ab_next_nonce b) = Ok b'"
    using assms(2) by (auto simp: observe_inclusion_def result_simps split: if_splits)
  note m = book_ok_member [OF b op]
  show ?thesis using c
  proof
    assume n: "(ao_state op = Signed \<or> ao_state op = Submitted) \<and> contains_candidate k pr op hash \<and>
      hash_bytes (cp_hash cp) \<noteq> replicate 32 0 \<and>
      install k b (op\<lparr>ao_state := Confirmed, ao_inclusion := Some (hash, cp)\<rparr>) (ab_next_nonce b) = Ok b'"
    let ?op = "op\<lparr>ao_state := Confirmed, ao_inclusion := Some (hash, cp)\<rparr>"
    have "operation_ok k pr b ?op" using m(3) n unfolding operation_ok_def by (auto simp: signed_state_def)
    moreover have "wf_operation ?op" using m(2) assms(3,4) by (simp add: wf_operation_def)
    moreover have "operation_le op ?op" by (simp add: operation_le_def signed_state_def)
    ultimately show ?thesis using install_step [OF b op] n by (simp add: admissible_def)
  qed (use b book_le_refl in simp)
qed

lemma reserve_step:
  assumes "book_ok k pr b" and "reserve_nonce k b i p = Ok (b', n)" and "length i = 16"
  shows "book_ok k pr b' \<and> book_le b b'"
proof -
  note r = reserve_ok [OF assms]
  have "operation b i = None" and b': "b' = b\<lparr>ab_operations := bt_insert i \<lparr>ao_id = i, ao_nonce = n, ao_state = Reserved,
      ao_transaction = None, ao_payload = None, ao_replacements = [], ao_inclusion = None\<rparr> (ab_operations b), ab_next_nonce := n + 1\<rparr>"
    using assms(2) unfolding reserve_nonce_Ok by blast+
  then have "operation b j = Some x \<Longrightarrow> operation b' j = Some x" for j x
    by (auto simp: operation_def b' bt_get_insert)
  moreover have "ab_next_nonce b \<le> ab_next_nonce b'" using r(2,3) by simp
  ultimately have "book_le b b'" using operation_le_refl by (auto simp: book_le_def b')
  then show ?thesis using r(1) by simp
qed

section \<open>Backups\<close>

definition wf_backup :: "backup_scope list \<Rightarrow> bool" where
  "wf_backup backup \<longleftrightarrow> (\<forall>state \<in> set backup. \<forall>source \<in> set (bs_operations state).
     length (rv_id (bo_reservation source)) = 16 \<and> pred_option wf_hash (rv_transaction (bo_reservation source)) \<and>
     list_all (\<lambda>e. wf_hash (rp_parent e)) (bo_replacements source))"

definition operations_le :: "(bytes \<times> account_operation) list \<Rightarrow> (bytes \<times> account_operation) list \<Rightarrow> bool" where
  "operations_le ops ops' \<longleftrightarrow>
     (\<forall>i op. map_of ops i = Some op \<longrightarrow> (\<exists>op'. map_of ops' i = Some op' \<and> operation_le op op'))"

lemma operations_le_trans: "operations_le a b \<Longrightarrow> operations_le b c \<Longrightarrow> operations_le a c"
  unfolding operations_le_def using operation_le_trans by blast

lemma operations_le_insert:
  assumes "case map_of ops i of None \<Rightarrow> True | Some op \<Rightarrow> operation_le op new"
  shows "operations_le ops (bt_insert i new ops)"
  using assms operation_le_refl by (auto simp: operations_le_def bt_get_insert)

lemma backup_step_wf:
  assumes "backup_step address ops source = Ok ops'" and "wf_operations ops"
    and "length (rv_id (bo_reservation source)) = 16" and "pred_option wf_hash (rv_transaction (bo_reservation source))"
    and "list_all (\<lambda>e. wf_hash (rp_parent e)) (bo_replacements source)"
  shows "wf_operations ops'"
  using assms by (auto simp: backup_step_def Let_def wf_operation_def intro!: wf_operations_insert
      split: option.splits if_splits)

lemma from_backup_wf:
  assumes "from_backup k pr backup scope owner = Ok b" and "wf_backup backup"
  shows "wf_operations (ab_operations b)"
proof -
  obtain state address where s: "scope_state backup scope = Some state"
    and f: "try_fold (backup_step address) [] (bs_operations state) = Ok (ab_operations b)"
    using assms(1) by (auto simp: from_backup_def result_simps Let_def split: if_splits)
  have m: "state \<in> set backup" using s by (auto simp: scope_state_def find_Some_iff)
  show ?thesis
    using f
  proof (rule try_fold_invariant)
    show "wf_operations []" by (simp add: wf_operations_def)
  next
    fix ops source ops'
    assume "source \<in> set (bs_operations state)" "wf_operations ops" "backup_step address ops source = Ok ops'"
    then show "wf_operations ops'" using assms(2) m backup_step_wf by (fastforce simp: wf_backup_def)
  qed
qed

lemma merge_edges_prefix: "prefix live (merge_edges live source)"
  unfolding merge_edges_def
proof (induction source arbitrary: live)
  case (Cons e source)
  have "prefix live (if e \<in> set live then live else live @ [e])" by simp
  from prefix_order.trans [OF this Cons.IH] show ?case by simp
qed simp

lemma merge_edges_set: "set (merge_edges live source) = set live \<union> set source"
  unfolding merge_edges_def by (induction source arbitrary: live) auto

lemma merge_operation_le: "operation_le live (merge_operation live source)"
  by (auto simp: operation_le_def merge_operation_def Let_def merge_edges_prefix signed_state_def)

lemma merge_operation_wf:
  "wf_operation live \<Longrightarrow> wf_operation source \<Longrightarrow> wf_operation (merge_operation live source)"
  by (auto simp: wf_operation_def merge_operation_def Let_def list_all_iff merge_edges_set)

lemma merge_step_Ok:
  assumes "merge_step (ops, r) source = Ok (ops', r')" and "wf_operations ops" and "wf_operation source"
  shows "wf_operations ops' \<and> operations_le ops ops'"
proof (cases "map_of ops (ao_id source)")
  case None
  then show ?thesis
    using assms operations_le_insert [where ops = ops and i = "ao_id source" and new = source] wf_operations_insert [of ops source "ao_id source"]
    by (simp add: merge_step_def)
next
  case (Some live)
  then have "(ao_id source, live) \<in> set ops" by (rule map_of_SomeD)
  then have l: "ao_id live = ao_id source" "wf_operation live" using assms(2) by (auto simp: wf_operations_def)
  have o: "ops' = bt_insert (ao_id source) (merge_operation live source) ops"
    using assms(1) Some by (auto simp: merge_step_def split: if_splits)
  have "ao_id (merge_operation live source) = ao_id source" using l(1) by (simp add: merge_operation_def Let_def)
  then show ?thesis unfolding o
    using wf_operations_insert [OF assms(2) merge_operation_wf [OF l(2) assms(3)]] Some merge_operation_le
    by (simp add: operations_le_insert)
qed

lemma merge_fold:
  assumes "try_fold merge_step (ops, r) sources = Ok (ops', r')" and "wf_operations ops"
    and "\<And>x. x \<in> set sources \<Longrightarrow> wf_operation x"
  shows "wf_operations ops' \<and> operations_le ops ops'"
proof -
  have "(\<lambda>(o', _). wf_operations o' \<and> operations_le ops o') (ops', r')"
    using assms(1)
  proof (rule try_fold_invariant)
    show "(\<lambda>(o', _). wf_operations o' \<and> operations_le ops o') (ops, r)"
      using assms(2) operation_le_refl by (auto simp: operations_le_def)
  next
    fix st source st'
    assume "source \<in> set sources" "(\<lambda>(o', _). wf_operations o' \<and> operations_le ops o') st" "merge_step st source = Ok st'"
    then show "(\<lambda>(o', _). wf_operations o' \<and> operations_le ops o') st'"
      using merge_step_Ok assms(3) operations_le_trans by (cases st; cases st') blast
  qed
  then show ?thesis by simp
qed

lemma drop_inclusion_map:
  "wf_operations ops \<Longrightarrow> wf_operations (map (\<lambda>(i, op). (i, drop_inclusion op)) ops)"
  "operations_le ops (map (\<lambda>(i, op). (i, drop_inclusion op)) ops)"
proof -
  have m: "map_of (map (\<lambda>(i, op). (i, drop_inclusion op)) ops) = (\<lambda>i. map_option drop_inclusion (map_of ops i))"
    by (induction ops) auto
  have "operation_le op (drop_inclusion op)" for op by (simp add: operation_le_def drop_inclusion_def signed_state_def)
  then show "operations_le ops (map (\<lambda>(i, op). (i, drop_inclusion op)) ops)" by (auto simp: operations_le_def m)
  have f: "map fst (map (\<lambda>(i, op). (i, drop_inclusion op)) ops) = map fst ops" by (induction ops) auto
  have d: "ao_id (drop_inclusion op) = ao_id op" "wf_operation op \<Longrightarrow> wf_operation (drop_inclusion op)" for op
    by (simp_all add: drop_inclusion_def wf_operation_def)
  show "wf_operations (map (\<lambda>(i, op). (i, drop_inclusion op)) ops)" if "wf_operations ops"
    using that unfolding wf_operations_def f by (auto simp: d)
qed

lemma merge_backup_step:
  assumes "book_ok k pr b" and "merge_backup k pr b backup = Ok (b', r)" and "wf_backup backup"
  shows "book_ok k pr b' \<and> book_le b b'"
proof -
  obtain incoming ops r0 r1 where i: "from_backup k pr backup (ab_scope b) (ab_owner b) = Ok incoming"
    and f: "try_fold merge_step (ab_operations b, r0) (map snd (ab_operations incoming)) = Ok (ops, r1)"
    and m': "b' = merged_book b (max (ab_next_nonce b) (ab_next_nonce incoming)) ops"
    and v: "validate k pr b' = Ok ()" and e: "\<exists>bs. export_state k b' = Ok bs"
    using assms(2) by (auto simp: merge_backup_def Let_def result_simps)
  note b' = m' [unfolded merged_book_def]
  have w: "wf_operations (ab_operations b)" using assms(1) by (simp add: book_ok_def wf_book_def)
  have "\<And>x. x \<in> set (map snd (ab_operations incoming)) \<Longrightarrow> wf_operation x"
    using from_backup_wf [OF i assms(3)] by (auto simp: wf_operations_def)
  note m = merge_fold [OF f w this]
  have o: "operations_le (ab_operations b) (ab_operations b')"
    using m drop_inclusion_map(2) operations_le_trans by (auto simp: b')
  have "wf_operations (ab_operations b')" using m drop_inclusion_map(1) by (simp add: b')
  then have "book_ok k pr b'"
    using assms(1) v e export_is_bytes by (auto simp: book_ok_def wf_book_def b')
  moreover have "book_le b b'" using o by (simp add: book_le_def b' operations_le_def operation_def)
  ultimately show ?thesis by simp
qed

section \<open>The state machine\<close>

text \<open>
  The steps of a live book, with arguments of their declared types: a fixed-size identifier, hashes
  of 32 bytes, an authenticated backup. A failing call is no step, since it leaves the book alone.
\<close>

inductive custody_step :: "('pt, 'ec, 'sc, 'sk) k256 \<Rightarrow> prost \<Rightarrow> 'pt account_book \<Rightarrow> 'pt account_book \<Rightarrow> bool" for k pr where
  reserve: "reserve_nonce k b i p = Ok (b', n) \<Longrightarrow> length i = 16 \<Longrightarrow> custody_step k pr b b'"
| release: "release_unsigned b i = Ok b' \<Longrightarrow> custody_step k pr b b'"
| reopen: "reopen_unsigned b i = Ok b' \<Longrightarrow> custody_step k pr b b'"
| commit: "commit_signed k pr b i s = Ok b' \<Longrightarrow> custody_step k pr b b'"
| replace: "commit_replacement k pr b i parent s = Ok b' \<Longrightarrow> wf_hash parent \<Longrightarrow> custody_step k pr b b'"
| submit: "mark_submitted b i = Ok b' \<Longrightarrow> custody_step k pr b b'"
| observe: "observe_inclusion k pr b i h cp = Ok b' \<Longrightarrow> wf_hash h \<Longrightarrow> wf_hash (cp_hash cp) \<Longrightarrow> custody_step k pr b b'"
| invalidate: "invalidate_inclusion b i e = Ok b' \<Longrightarrow> custody_step k pr b b'"
| merge: "merge_backup k pr b backup = Ok (b', r) \<Longrightarrow> wf_backup backup \<Longrightarrow> custody_step k pr b b'"

lemma custody_step_ok:
  assumes "custody_step k pr b b'" and "digest_ok (k_keccak k)" and "book_ok k pr b"
  shows "book_ok k pr b' \<and> book_le b b'"
  using assms(1)
proof cases
  case reserve
  then show ?thesis by (rule reserve_step [OF assms(3)])
next
  case release
  then show ?thesis by (rule release_step [OF assms(3)])
next
  case reopen
  then show ?thesis by (rule reopen_step [OF assms(3)])
next
  case commit
  then show ?thesis by (rule commit_signed_step [OF assms(2,3)])
next
  case replace
  then show ?thesis by (rule commit_replacement_step [OF assms(3)])
next
  case submit
  then show ?thesis by (rule submit_step [OF assms(3)])
next
  case observe
  then show ?thesis by (rule observe_step [OF assms(3)])
next
  case invalidate
  then show ?thesis by (rule invalidate_step [OF assms(3)])
next
  case merge
  then show ?thesis by (rule merge_backup_step [OF assms(3)])
qed

interpretation account: journal "custody_step k pr" "\<lambda>b. digest_ok (k_keccak k) \<and> book_ok k pr b" book_le for k pr
proof
  fix b b'
  assume "digest_ok (k_keccak k) \<and> book_ok k pr b" "custody_step k pr b b'"
  then show "digest_ok (k_keccak k) \<and> book_ok k pr b'" "book_le b b'" using custody_step_ok by blast+
qed (fact book_le_refl book_le_trans)+

lemma book_new_ok:
  assumes "book_new k scope owner n = Ok b" and "wf_hash (ns_genesis scope)" and "length (to_compressed k owner) = 33"
  shows "book_ok k pr b"
proof -
  note b = assms(1) [unfolded book_new_Ok]
  have o: "ab_operations b = []" "ab_scope b = scope" "ab_owner b = owner"
    using b by (metis account_book.select_convs)+
  have "length (book_bytes k b) \<le> MAX_CUSTODY_BYTES"
    using assms(2,3) o by (simp add: book_bytes_def MAGIC_def scope_key_def wf_hash_def MAX_CUSTODY_BYTES_def)
  then have "export_state k b = Ok (book_bytes k b)" using o by (simp add: export_state_Ok)
  moreover have "validate k pr b = Ok ()" using o by (simp add: validate_Ok)
  moreover have "wf_book k b" using b o by (simp add: wf_book_def wf_operations_def)
  ultimately show ?thesis by (simp add: book_ok_def)
qed

lemma nonce_owner:
  assumes "book_ok k pr b" and "operation b i = Some x" and "operation b j = Some y" and "ao_nonce x = ao_nonce y"
  shows "i = j"
proof -
  have "(i, x) \<in> set (ab_operations b)" "(j, y) \<in> set (ab_operations b)"
    using assms(2,3) by (simp_all add: operation_def map_of_SomeD)
  moreover have "inj_on (ao_nonce \<circ> snd) (set (ab_operations b))"
    using assms(1) by (simp add: book_ok_def validate_Ok distinct_map)
  ultimately have "(i, x) = (j, y)" using assms(4) by (intro inj_onD [of "ao_nonce \<circ> snd"]) simp_all
  then show ?thesis by simp
qed

lemma reachable_sound:
  assumes "digest_ok (k_keccak k)" and "wf_hash (ns_genesis scope)" and "length (to_compressed k owner) = 33"
    and "book_new k scope owner n = Ok b0" and "(custody_step k pr)\<^sup>*\<^sup>* b0 b"
  shows "book_ok k pr b"
  using account.run_sound [OF assms(5)] book_new_ok [OF assms(4,2,3)] assms(1) by simp

lemma history_kept:
  assumes "digest_ok (k_keccak k)" and "book_ok k pr b" and "(custody_step k pr)\<^sup>*\<^sup>* b b'" and "operation b i = Some op"
  shows "\<exists>op'. operation b' i = Some op' \<and> operation_le op op' \<and>
    (\<forall>j x. operation b' j = Some x \<and> ao_nonce x = ao_nonce op \<longrightarrow> j = i)"
proof -
  have "book_le b b'" and ok: "book_ok k pr b'"
    using account.run_history [OF assms(3)] account.run_sound [OF assms(3)] assms(1,2) by simp_all
  then obtain op' where op': "operation b' i = Some op'" "operation_le op op'"
    using assms(4) by (auto simp: book_le_def)
  then have n: "ao_nonce op' = ao_nonce op" by (simp add: operation_le_def)
  have "j = i" if "operation b' j = Some x \<and> ao_nonce x = ao_nonce op" for j x
    using that n by (intro nonce_owner [OF ok conjunct1 [OF that] op'(1)]) simp
  then show ?thesis using op' by blast
qed

end
