(* ===== verification/Account_State.thy ===== *)
theory Account_State
  imports Account_Journal
begin

text \<open>
  Export and strict import of the account journal are inverse: each reader of the import is exact
  for the segment its writer appends, and the import accepts exactly the exports of sound books.
  The theory also shows that a reserved nonce can be driven to its inclusion.
\<close>

section \<open>Exact readers\<close>

text \<open>
  A reader takes a value off the front of the remaining bytes; it is exact when it accepts precisely
  the encodings of valid values.
\<close>

locale reader =
  fixes valid :: "'a \<Rightarrow> bool"
    and enc :: "'a \<Rightarrow> bytes"
    and dec :: "bytes \<Rightarrow> ('a \<times> bytes, 'e) result"
  assumes read_enc: "valid x \<Longrightarrow> dec (enc x @ r) = Inr (x, r)"
    and read_canonical: "dec bs = Inr (x, r) \<Longrightarrow> valid x \<and> bs = enc x @ r"
begin

lemma read_iff: "dec bs = Inr (x, r) \<longleftrightarrow> valid x \<and> bs = enc x @ r"
  using read_enc read_canonical by blast

lemma read_many_iff:
  "read_many n dec bs = Inr (xs, r) \<longleftrightarrow> length xs = n \<and> list_all valid xs \<and> bs = concat (map enc xs) @ r"
proof (induction n arbitrary: bs xs)
  case (Suc n)
  have "read_many (Suc n) dec bs = Inr (xs, r) \<longleftrightarrow>
      (\<exists>x r'. dec bs = Inr (x, r') \<and> (\<exists>ys. read_many n dec r' = Inr (ys, r) \<and> xs = x # ys))"
    by (auto simp: rbind_eq_Ok)
  also have "\<dots> \<longleftrightarrow> length xs = Suc n \<and> list_all valid xs \<and> bs = concat (map enc xs) @ r"
    unfolding read_iff Suc.IH by (cases xs) auto
  finally show ?case .
qed auto

end

lemma take_bytes_Ok: "take_bytes n bs = Ok (x, r) \<longleftrightarrow> length x = n \<and> bs = x @ r"
  by (auto simp: take_bytes_def)

interpretation array: reader "\<lambda>x. length x = n" "\<lambda>x. x" "take_bytes n" for n
  by unfold_locales (simp_all add: take_bytes_Ok)

interpretation byte: reader "\<lambda>_. True" "\<lambda>c. [c]" take_byte
  by unfold_locales (auto simp: take_byte_def take_bytes_Ok result_simps length_Suc_conv split: prod.splits)

interpretation flag: reader "\<lambda>_. True" "\<lambda>f. [of_bool f]" take_flag
  by unfold_locales (auto simp: take_flag_def result_simps byte.read_iff split: if_splits)

interpretation state: reader "\<lambda>_. True" "\<lambda>s. [state_byte s]" read_state
proof
  fix s r
  show "read_state ([state_byte s] @ r) = Ok (s, r)"
    using byte.read_enc by (cases s) (simp_all add: read_state_def)
next
  fix bs s r
  assume "read_state bs = Ok (s, r)"
  then show "True \<and> bs = [state_byte s] @ r"
    by (auto simp: read_state_def result_simps byte.read_iff split: if_splits)
qed

lemma blob_length: "n \<le> MAX_TRANSACTION_BYTES \<Longrightarrow> be_nat (to_be 4 n) = n"
  by (rule be_nat_to_be_id) (simp add: MAX_TRANSACTION_BYTES_def)

interpretation blob: reader "\<lambda>x. length x \<le> MAX_TRANSACTION_BYTES" blob_bytes take_blob
proof
  fix x r :: bytes
  assume n: "length x \<le> MAX_TRANSACTION_BYTES"
  have "take_bytes 4 (blob_bytes x @ r) = Ok (to_be 4 (length x), x @ r)"
    by (simp add: take_bytes_Ok blob_bytes_def)
  moreover have "take_bytes (length x) (x @ r) = Ok (x, r)" by (simp add: take_bytes_Ok)
  ultimately show "take_blob (blob_bytes x @ r) = Ok (x, r)" using n by (simp add: take_blob_def blob_length not_less)
next
  fix bs x r
  assume "take_blob bs = Ok (x, r)"
  then obtain h where h: "length h = 4" "be_nat h \<le> MAX_TRANSACTION_BYTES" "bs = h @ x @ r" "length x = be_nat h"
    by (auto simp: take_blob_def result_simps take_bytes_Ok split: if_splits)
  then have "to_be 4 (length x) = h" using to_be_be_nat [of h] by simp
  then show "length x \<le> MAX_TRANSACTION_BYTES \<and> bs = blob_bytes x @ r" using h by (simp add: blob_bytes_def)
qed

lemma hash_reader:
  "wf_hash h \<Longrightarrow> take_bytes 32 (hash_bytes h @ r) = Ok (hash_bytes h, r)" "length x = 32 \<Longrightarrow> wf_hash (Hash32 x)"
  by (simp_all add: take_bytes_Ok wf_hash_def)

interpretation tx_hash: reader "pred_option wf_hash" transaction_bytes read_transaction
proof
  fix t r
  assume "pred_option wf_hash t"
  then show "read_transaction (transaction_bytes t @ r) = Ok (t, r)"
    using flag.read_enc [of True] flag.read_enc [of False] by (cases t) (simp_all add: read_transaction_def hash_reader)
next
  fix bs t r
  assume "read_transaction bs = Ok (t, r)"
  then show "pred_option wf_hash t \<and> bs = transaction_bytes t @ r"
    by (auto simp: read_transaction_def result_simps flag.read_iff take_bytes_Ok hash_reader split: if_splits)
qed

definition inclusion_typed :: "(hash32 \<times> checkpoint) option \<Rightarrow> bool" where
  "inclusion_typed = pred_option (\<lambda>(h, block). wf_hash h \<and> wf_hash (cp_hash block))"

lemma u256_read: "word_of_nat (be_nat (to_be 32 (unat (n :: u256)))) = n" "length x = 32 \<Longrightarrow> to_be 32 (unat (word_of_nat (be_nat x) :: u256)) = x"
  by (simp_all add: be_nat_to_be_id [OF u256_be] scalar_bytes)

interpretation included: reader inclusion_typed inclusion_bytes read_inclusion
proof
  fix i r
  assume t: "inclusion_typed i"
  show "read_inclusion (inclusion_bytes i @ r) = Ok (i, r)"
  proof (cases i)
    case None
    then show ?thesis using flag.read_enc [of False] by (simp add: read_inclusion_def)
  next
    case (Some p)
    obtain h block where p: "p = (h, block)" by (cases p)
    have "take_bytes 32 (to_be 32 (unat (cp_height block)) @ r) = Ok (to_be 32 (unat (cp_height block)), r)"
      by (simp add: take_bytes_Ok)
    then show ?thesis using t flag.read_enc [of True]
      by (cases block) (simp add: Some p inclusion_typed_def read_inclusion_def hash_reader u256_read)
  qed
next
  fix bs i r
  assume "read_inclusion bs = Ok (i, r)"
  then show "inclusion_typed i \<and> bs = inclusion_bytes i @ r"
    by (auto simp: read_inclusion_def inclusion_typed_def result_simps flag.read_iff take_bytes_Ok hash_reader u256_read
        split: if_splits)
qed

interpretation payload: reader "\<lambda>p. p \<noteq> Some [] \<and> length (payload_bytes p) \<le> MAX_TRANSACTION_BYTES"
    "\<lambda>p. blob_bytes (payload_bytes p)" read_payload
  by unfold_locales (auto simp: read_payload_def result_simps blob.read_iff split: if_splits option.splits)

definition edge_typed :: "quai_replacement \<Rightarrow> bool" where
  "edge_typed e \<longleftrightarrow> wf_hash (rp_parent e) \<and> length (rp_payload e) \<le> MAX_TRANSACTION_BYTES"

interpretation edge: reader edge_typed edge_bytes read_edge
proof
  fix e r
  assume "edge_typed e"
  then show "read_edge (edge_bytes e @ r) = Ok (e, r)"
    by (cases e) (simp add: read_edge_def edge_bytes_def edge_typed_def hash_reader blob.read_enc)
next
  fix bs e r
  assume "read_edge bs = Ok (e, r)"
  then show "edge_typed e \<and> bs = edge_bytes e @ r"
    by (auto simp: read_edge_def edge_bytes_def edge_typed_def result_simps blob.read_iff take_bytes_Ok hash_reader)
qed

interpretation edges: reader "\<lambda>es. length es \<le> 32 \<and> list_all edge_typed es"
    "\<lambda>es. word_of_nat (length es) # concat (map edge_bytes es)" read_replacements
proof
  fix es r
  assume e: "length es \<le> 32 \<and> list_all edge_typed es"
  then have u: "unat (word_of_nat (length es) :: u8) = length es" by (intro unat_of_nat_small) simp
  then have "\<not> (32 :: u8) < word_of_nat (length es)" using e by (simp add: word_less_nat_alt)
  moreover have "read_many (length es) read_edge (concat (map edge_bytes es) @ r) = Ok (es, r)"
    using e by (simp add: edge.read_many_iff)
  ultimately show "read_replacements ((word_of_nat (length es) # concat (map edge_bytes es)) @ r) = Ok (es, r)"
    using byte.read_enc u by (simp add: read_replacements_def)
next
  fix bs es r
  assume "read_replacements bs = Ok (es, r)"
  then show "(length es \<le> 32 \<and> list_all edge_typed es) \<and> bs = (word_of_nat (length es) # concat (map edge_bytes es)) @ r"
    by (auto simp: read_replacements_def result_simps byte.read_iff edge.read_many_iff word_less_nat_alt not_less
        split: if_splits)
qed

section \<open>Operations\<close>

definition operation_typed :: "account_operation \<Rightarrow> bool" where
  "operation_typed op \<longleftrightarrow> wf_operation op \<and> blobs_ok op \<and> ao_payload op \<noteq> Some [] \<and> length (ao_replacements op) \<le> 32"

definition above :: "bytes option \<Rightarrow> bytes \<Rightarrow> bool" where
  "above previous i = (case previous of None \<Rightarrow> True | Some old \<Rightarrow> old < i)"

lemma operation_typed_parts:
  "operation_typed op \<longleftrightarrow> length (ao_id op) = 16 \<and> pred_option wf_hash (ao_transaction op) \<and>
     inclusion_typed (ao_inclusion op) \<and>
     (ao_payload op \<noteq> Some [] \<and> length (payload_bytes (ao_payload op)) \<le> MAX_TRANSACTION_BYTES) \<and>
     length (ao_replacements op) \<le> 32 \<and> list_all edge_typed (ao_replacements op)"
  by (auto simp: operation_typed_def wf_operation_def blobs_ok_def inclusion_typed_def edge_typed_def [abs_def] list_all_iff)

lemma u64_read: "word_of_nat (be_nat (to_be 8 (unat (n :: u64)))) = n"
  "length x = 8 \<Longrightarrow> to_be 8 (unat (word_of_nat (be_nat x) :: u64)) = x"
proof -
  have "unat n < 256 ^ 8" using unsigned_less [of n, where ?'a = nat] by (simp del: unsigned_less)
  then show "word_of_nat (be_nat (to_be 8 (unat n))) = n" by (simp add: be_nat_to_be_id)
next
  assume x: "length x = 8"
  then have "be_nat x < 256 ^ 8" using be_nat_lt [of x] by simp
  then have "unat (word_of_nat (be_nat x) :: u64) = be_nat x" by (intro unat_of_nat_small) simp
  then show "to_be 8 (unat (word_of_nat (be_nat x) :: u64)) = x" using to_be_be_nat [of x] x by simp
qed

lemma rbind_pairE:
  assumes "rbind x (\<lambda>(a, b). f a b) = Ok y"
  obtains a b where "x = Ok (a, b)" "f a b = Ok y"
  using assms by (auto simp: rbind_eq_Ok)

lemma read_operation_Ok:
  "read_operation previous bs = Ok (op, r) \<longleftrightarrow> operation_typed op \<and> above previous (ao_id op) \<and> bs = operation_bytes op @ r"
proof
  assume "read_operation previous bs = Ok (op, r)"
  then obtain i r1 where i: "take_bytes 16 bs = Ok (i, r1)" "above previous i" and
    tail: "rbind (take_bytes 8 r1) (\<lambda>(n, r). rbind (read_state r) (\<lambda>(state, r).
         rbind (read_transaction r) (\<lambda>(t, r). rbind (read_inclusion r) (\<lambda>(inclusion, r).
           rbind (read_payload r) (\<lambda>(payload, r). rbind (read_replacements r) (\<lambda>(replacements, r).
             Ok (\<lparr>ao_id = i, ao_nonce = word_of_nat (be_nat n), ao_state = state, ao_transaction = t, ao_payload = payload,
               ao_replacements = replacements, ao_inclusion = inclusion\<rparr>, r))))))) = Ok (op, r)"
    by (auto simp: read_operation_def rbind_eq_Ok [of "take_bytes 16 bs"] above_def split: if_splits option.splits)
  from tail obtain n r2 state r3 t r4 inclusion r5 payload r6 reps where
    parts: "take_bytes 8 r1 = Ok (n, r2)" "read_state r2 = Ok (state, r3)" "read_transaction r3 = Ok (t, r4)"
      "read_inclusion r4 = Ok (inclusion, r5)" "read_payload r5 = Ok (payload, r6)" "read_replacements r6 = Ok (reps, r)" and
    op: "op = \<lparr>ao_id = i, ao_nonce = word_of_nat (be_nat n), ao_state = state, ao_transaction = t, ao_payload = payload,
       ao_replacements = reps, ao_inclusion = inclusion\<rparr>"
    by (elim rbind_pairE) simp
  then show "operation_typed op \<and> above previous (ao_id op) \<and> bs = operation_bytes op @ r"
    using i unfolding take_bytes_Ok state.read_iff tx_hash.read_iff included.read_iff payload.read_iff edges.read_iff
    by (simp add: operation_typed_parts operation_bytes_def u64_read)
next
  assume op: "operation_typed op \<and> above previous (ao_id op) \<and> bs = operation_bytes op @ r"
  then have reads: "take_bytes 16 bs = Ok (ao_id op, drop 16 bs)"
    "\<not> (case previous of None \<Rightarrow> False | Some old \<Rightarrow> ao_id op \<le> old)"
    by (auto simp: take_bytes_Ok operation_bytes_def operation_typed_parts above_def split: option.splits)
  have rest: "drop 16 bs = to_be 8 (unat (ao_nonce op)) @ [state_byte (ao_state op)] @ transaction_bytes (ao_transaction op) @
      inclusion_bytes (ao_inclusion op) @ blob_bytes (payload_bytes (ao_payload op)) @
      (word_of_nat (length (ao_replacements op)) # concat (map edge_bytes (ao_replacements op))) @ r"
    using op by (simp add: operation_bytes_def operation_typed_parts)
  have n: "take_bytes 8 (to_be 8 (unat (ao_nonce op)) @ x) = Ok (to_be 8 (unat (ao_nonce op)), x)" for x
    by (simp add: take_bytes_Ok)
  have parts: "pred_option wf_hash (ao_transaction op)" "inclusion_typed (ao_inclusion op)"
    "ao_payload op \<noteq> Some [] \<and> length (payload_bytes (ao_payload op)) \<le> MAX_TRANSACTION_BYTES"
    "length (ao_replacements op) \<le> 32 \<and> list_all edge_typed (ao_replacements op)"
    using op by (simp_all add: operation_typed_parts)
  show "read_operation previous bs = Ok (op, r)"
    unfolding read_operation_def reads(1) rest
    by (simp only: rbind_Inr prod.case reads(2) if_False n state.read_enc tx_hash.read_enc [OF parts(1)]
        included.read_enc [OF parts(2)] payload.read_enc [OF parts(3)] edges.read_enc [OF parts(4)] u64_read) simp
qed

lemma bt_insert_last:
  fixes i :: "'k :: linorder"
  shows "\<forall>k \<in> fst ` set m. k < i \<Longrightarrow> bt_insert i v m = m @ [(i, v)]"
  by (induction i v m rule: bt_insert.induct) auto

lemma read_operations_Ok:
  assumes "\<forall>i \<in> fst ` set ops. \<exists>old. previous = Some old \<and> i \<le> old"
  shows "read_operations n previous ops bs = Ok (ops', r) \<longleftrightarrow>
    (\<exists>l. length l = n \<and> list_all operation_typed l \<and> sorted_wrt (<) (map ao_id l) \<and>
       list_all (\<lambda>op. above previous (ao_id op)) l \<and> bs = concat (map operation_bytes l) @ r \<and>
       ops' = ops @ map (\<lambda>op. (ao_id op, op)) l)"
  using assms
proof (induction n arbitrary: previous ops bs)
  case 0
  then show ?case by auto
next
  case (Suc n)
  have step: "read_operations n (Some (ao_id op)) (bt_insert (ao_id op) op ops) r' = Ok (ops', r) \<longleftrightarrow>
      (\<exists>l. length l = n \<and> list_all operation_typed l \<and> sorted_wrt (<) (map ao_id l) \<and>
         list_all (\<lambda>x. ao_id op < ao_id x) l \<and> r' = concat (map operation_bytes l) @ r \<and>
         ops' = (ops @ [(ao_id op, op)]) @ map (\<lambda>op. (ao_id op, op)) l)"
    if "above previous (ao_id op)" for op r'
  proof -
    have less: "\<forall>i \<in> fst ` set ops. i < ao_id op" using Suc.prems that by (fastforce simp: above_def)
    then have "\<forall>i \<in> fst ` set (ops @ [(ao_id op, op)]). \<exists>old. Some (ao_id op) = Some old \<and> i \<le> old" by auto
    from Suc.IH [OF this, of r'] show ?thesis by (simp add: bt_insert_last [OF less] above_def)
  qed
  have "read_operations (Suc n) previous ops bs = Ok (ops', r) \<longleftrightarrow>
      (\<exists>op r'. operation_typed op \<and> above previous (ao_id op) \<and> bs = operation_bytes op @ r' \<and>
         read_operations n (Some (ao_id op)) (bt_insert (ao_id op) op ops) r' = Ok (ops', r))"
    by (auto simp: rbind_eq_Ok read_operation_Ok)
  also have "\<dots> \<longleftrightarrow> (\<exists>op l. operation_typed op \<and> above previous (ao_id op) \<and> length l = n \<and> list_all operation_typed l \<and>
      sorted_wrt (<) (map ao_id l) \<and> list_all (\<lambda>x. ao_id op < ao_id x) l \<and>
      bs = operation_bytes op @ concat (map operation_bytes l) @ r \<and>
      ops' = ops @ (ao_id op, op) # map (\<lambda>op. (ao_id op, op)) l)"
    by (simp add: step cong: conj_cong) blast
  also have "\<dots> \<longleftrightarrow> (\<exists>l. length l = Suc n \<and> list_all operation_typed l \<and> sorted_wrt (<) (map ao_id l) \<and>
      list_all (\<lambda>op. above previous (ao_id op)) l \<and> bs = concat (map operation_bytes l) @ r \<and>
      ops' = ops @ map (\<lambda>op. (ao_id op, op)) l)" (is "?L \<longleftrightarrow> ?R")
  proof
    assume ?L
    then obtain op l where l: "operation_typed op" "above previous (ao_id op)" "length l = n" "list_all operation_typed l"
      "sorted_wrt (<) (map ao_id l)" "list_all (\<lambda>x. ao_id op < ao_id x) l"
      "bs = operation_bytes op @ concat (map operation_bytes l) @ r" "ops' = ops @ (ao_id op, op) # map (\<lambda>op. (ao_id op, op)) l"
      by blast
    moreover have "list_all (\<lambda>x. above previous (ao_id x)) l"
      using l(2,6) by (auto simp: above_def list_all_iff split: option.splits)
    ultimately show ?R by (intro exI [of _ "op # l"]) (simp add: list_all_iff)
  next
    assume ?R
    then obtain op l where "length l = n" "list_all operation_typed (op # l)" "sorted_wrt (<) (map ao_id (op # l))"
      "list_all (\<lambda>op. above previous (ao_id op)) (op # l)" "bs = concat (map operation_bytes (op # l)) @ r"
      "ops' = ops @ map (\<lambda>op. (ao_id op, op)) (op # l)" by (auto simp: length_Suc_conv)
    then show ?L by (intro exI [of _ op] exI [of _ l]) (simp add: list_all_iff)
  qed
  finally show ?case .
qed

section \<open>The whole state\<close>

text \<open>A codec hypothesis: prost decodes the empty input to the default message.\<close>

definition prost_empty :: "prost \<Rightarrow> bool" where
  "prost_empty pr \<longleftrightarrow> prost_decode pr [] = Some proto_default"

lemma empty_payload:
  assumes "prost_empty pr"
  shows "checked_payload k pr b n [] \<noteq> Ok h"
proof -
  have "quai_signed_decode k pr [] \<noteq> Ok s" for s
    using assms by (auto simp: prost_empty_def quai_signed_decode_def decode_def result_simps quai_from_proto_def proto_default_def
        split: if_splits)
  then show ?thesis by (auto simp: checked_payload_Ok)
qed

lemma family_bound:
  assumes "payload_ok k pr b op"
  shows "length (ao_replacements op) \<le> 32"
proof (cases "ao_payload op")
  case None
  then show ?thesis using assms by (simp add: payload_ok_def)
next
  case (Some p)
  then obtain s where "quai_signed_decode k pr p = Ok s" and v: "validate_family k pr p (ao_replacements op) = Ok ()"
    using assms by (auto simp: payload_ok_def checked_payload_Ok)
  then obtain e where "operation_decode k pr p = Inl e" using quai_not_operation by blast
  then show ?thesis using v by (simp add: validate_family_def split: if_splits)
qed

lemma validated_typed:
  assumes "prost_empty pr" and "operation_ok k pr b op"
  shows "operation_typed op \<longleftrightarrow> wf_operation op \<and> blobs_ok op"
  using assms family_bound [of k pr b op] empty_payload [OF assms(1), of k b]
  by (auto simp: operation_typed_def operation_ok_def payload_ok_def)

lemma operations_list:
  "wf_operations ops \<longleftrightarrow> (\<exists>l. ops = map (\<lambda>op. (ao_id op, op)) l \<and> sorted_wrt (<) (map ao_id l) \<and> list_all wf_operation l)"
proof
  assume w: "wf_operations ops"
  then have key: "fst x = ao_id (snd x)" if "x \<in> set ops" for x using that by (auto simp: wf_operations_def)
  have "map (\<lambda>op. (ao_id op, op)) (map snd ops) = map (\<lambda>x. x) ops"
    unfolding map_map by (intro map_cong) (simp_all add: key [symmetric])
  moreover have "sorted_wrt (<) (map ao_id (map snd ops))"
  proof -
    have "map ao_id (map snd ops) = map fst ops" using key by simp
    then show ?thesis using w by (simp only: wf_operations_def)
  qed
  ultimately show "\<exists>l. ops = map (\<lambda>op. (ao_id op, op)) l \<and> sorted_wrt (<) (map ao_id l) \<and> list_all wf_operation l"
    using w by (intro exI [of _ "map snd ops"]) (auto simp: wf_operations_def list_all_iff)
qed (auto simp: wf_operations_def list_all_iff comp_def)

lemma from_state_Ok:
  assumes "prost_empty pr" and "wf_hash (ns_genesis scope)" and "length (to_compressed k owner) = 33"
  shows "from_state k pr bs scope owner = Ok b \<longleftrightarrow>
    ab_scope b = scope \<and> ab_owner b = owner \<and> book_ok k pr b \<and> bs = book_bytes k b"
proof
  have key: "length (scope_key scope) = 65" using assms(2) by (simp add: scope_key_def wf_hash_def)
  {
    assume "from_state k pr bs scope owner = Ok b"
    then obtain n c r4 r6 ops b0 where
      bs: "bs = MAGIC @ scope_key scope @ to_compressed k owner @ n @ r4" "length n = 8" "length bs \<le> MAX_ACCOUNT_CUSTODY_BYTES"
      and new: "book_new k scope owner (word_of_nat (be_nat n)) = Ok b0"
      and c: "r4 = c @ r6" "length c = 2" "be_nat c \<le> MAX_ACCOUNT_OPERATIONS"
      and ops: "read_operations (be_nat c) None (ab_operations b0) r6 = Ok (ops, [])"
      and b: "b = b0\<lparr>ab_operations := ops\<rparr>" and v: "validate k pr b = Ok ()"
      by (auto simp: from_state_def take_bytes_Ok Let_def rbind_eq_Ok not_less split: if_splits)
    have b0: "ab_operations b0 = []" "ab_scope b0 = scope" "ab_owner b0 = owner" "ab_next_nonce b0 = word_of_nat (be_nat n)"
      "account_ok k scope owner (ab_address b0)"
      using new [unfolded book_new_Ok] by (metis account_book.select_convs)+
    obtain l where l: "length l = be_nat c" "list_all operation_typed l" "sorted_wrt (<) (map ao_id l)"
        "r6 = concat (map operation_bytes l)" "ops = map (\<lambda>op. (ao_id op, op)) l"
      using ops unfolding b0(1) by (subst (asm) read_operations_Ok) auto
    have w: "wf_operations ops" "list_all blobs_ok (map snd ops)"
      using l by (auto simp: operations_list operation_typed_def list_all_iff)
    have len: "unat (word_of_nat (length l) :: u16) = length l" and c': "to_be 2 (length l) = c"
      using l(1) c(2,3) to_be_be_nat [of c] by (auto intro!: unat_of_nat_small simp: MAX_ACCOUNT_OPERATIONS_def)
    have "bs = book_bytes k b"
      using bs c c' l len b0 by (simp add: book_bytes_def b u64_read comp_def)
    then show "ab_scope b = scope \<and> ab_owner b = owner \<and> book_ok k pr b \<and> bs = book_bytes k b"
      using b0 b w v bs(3) by (simp add: book_ok_def wf_book_def export_state_Ok MAX_ACCOUNT_CUSTODY_BYTES_def MAX_CUSTODY_BYTES_def)
  next
    assume r: "ab_scope b = scope \<and> ab_owner b = owner \<and> book_ok k pr b \<and> bs = book_bytes k b"
    then have v: "validate k pr b = Ok ()" and w: "wf_operations (ab_operations b)" and x: "export_state k b = Ok (book_bytes k b)"
      and a: "account_ok k scope owner (ab_address b)"
      by (auto simp: book_ok_def wf_book_def)
    obtain l where l: "ab_operations b = map (\<lambda>op. (ao_id op, op)) l" "sorted_wrt (<) (map ao_id l)" "list_all wf_operation l"
      using w by (auto simp: operations_list)
    have n: "length l \<le> 256" and ok: "list_all (operation_ok k pr b) l"
      using v l(1) by (auto simp: validate_Ok MAX_ACCOUNT_OPERATIONS_def comp_def)
    have "list_all operation_typed l"
      using ok l x validated_typed [OF assms(1), of k b] by (auto simp: list_all_iff export_state_Ok)
    then have reads: "read_operations (length l) None [] (concat (map operation_bytes l)) = Ok (ab_operations b, [])"
      using l by (subst read_operations_Ok) (auto simp: above_def list_all_iff intro!: exI [of _ l])
    have len: "unat (word_of_nat (length l) :: u16) = length l" "be_nat (to_be 2 (length l)) = length l"
      using n by (auto intro!: unat_of_nat_small be_nat_to_be_id)
    define b0 where "b0 = b\<lparr>ab_operations := []\<rparr>"
    have new: "book_new k scope owner (ab_next_nonce b) = Ok b0"
      using a r by (cases b) (simp add: book_new_Ok b0_def)
    have b0: "ab_operations b0 = []" "b0\<lparr>ab_operations := ab_operations b\<rparr> = b" by (simp_all add: b0_def)
    have bs: "bs = MAGIC @ scope_key scope @ to_compressed k owner @ to_be 8 (unat (ab_next_nonce b)) @ to_be 2 (length l) @
        concat (map operation_bytes l)"
      using r len l(1) by (simp add: book_bytes_def comp_def)
    have "length bs \<le> MAX_ACCOUNT_CUSTODY_BYTES"
      using x r by (simp add: export_state_Ok MAX_ACCOUNT_CUSTODY_BYTES_def MAX_CUSTODY_BYTES_def)
    moreover have takes: "take_bytes 8 bs = Ok (MAGIC, drop 8 bs)" "take_bytes 65 (drop 8 bs) = Ok (scope_key scope, drop 73 bs)"
        "take_bytes 33 (drop 73 bs) = Ok (to_compressed k owner, drop 106 bs)"
        "take_bytes 8 (drop 106 bs) = Ok (to_be 8 (unat (ab_next_nonce b)), drop 114 bs)"
        "take_bytes 2 (drop 114 bs) = Ok (to_be 2 (length l), drop 116 bs)" "drop 116 bs = concat (map operation_bytes l)"
      unfolding bs by (simp_all add: take_bytes_Ok MAGIC_def as_bytes_def key assms(3))
    ultimately show "from_state k pr bs scope owner = Ok b"
      using n by (simp add: from_state_def u64_read new len b0 reads v MAX_ACCOUNT_OPERATIONS_def Let_def)
  }
qed

section \<open>Progress\<close>

text \<open>An installed successor only has to fit: the rest of the book is already exportable.\<close>

lemma update_length:
  assumes "book_ok k pr b" and "operation b i = Some op"
  shows "length (book_bytes k (update_operation b i op')) + length (operation_bytes op) =
    length (book_bytes k b) + length (operation_bytes op')"
proof -
  have s: "bt_sorted (ab_operations b)" using assms(1) by (simp add: book_ok_def wf_book_def wf_operations_def)
  obtain xs ys where o: "ab_operations b = xs @ (i, op) # ys" "bt_insert i op' (ab_operations b) = xs @ (i, op') # ys"
    using bt_insert_present [OF s] assms(2) by (fastforce simp: operation_def)
  then show ?thesis by (simp add: book_bytes_def update_operation_def)
qed

lemma install_fits:
  assumes "book_ok k pr b" and "operation b i = Some op" and "ao_id op' = i" and "blobs_ok op'"
    and "length (book_bytes k b) + length (operation_bytes op') \<le> MAX_CUSTODY_BYTES + length (operation_bytes op)"
  shows "install k b op' (ab_next_nonce b) = Ok (update_operation b i op')"
proof -
  have "list_all blobs_ok (map snd (ab_operations (update_operation b i op')))"
    using assms bt_insert_subset [of i op' "ab_operations b"]
    by (auto simp: book_ok_def export_state_Ok list_all_iff update_operation_def)
  moreover have "length (book_bytes k (update_operation b i op')) \<le> MAX_CUSTODY_BYTES"
    using update_length [OF assms(1,2), of op'] assms(5) by simp
  ultimately show ?thesis using assms(3) by (simp add: install_Ok export_state_Ok update_operation_def)
qed

definition reserved_operation :: "bytes \<Rightarrow> u64 \<Rightarrow> account_operation" where
  "reserved_operation i n = \<lparr>ao_id = i, ao_nonce = n, ao_state = Reserved, ao_transaction = None, ao_payload = None,
     ao_replacements = [], ao_inclusion = None\<rparr>"

definition lifecycle_operation :: "bytes \<Rightarrow> u64 \<Rightarrow> bytes \<Rightarrow> hash32 \<Rightarrow> reservation_state \<Rightarrow> checkpoint option \<Rightarrow> account_operation" where
  "lifecycle_operation i n p h s block = \<lparr>ao_id = i, ao_nonce = n, ao_state = s, ao_transaction = Some h, ao_payload = Some p,
     ao_replacements = [], ao_inclusion = map_option (Pair h) block\<rparr>"

lemma lifecycle_id [simp]: "ao_id (lifecycle_operation i n p h s block) = i"
  by (simp add: lifecycle_operation_def)

lemma reserve_fits:
  assumes b: "book_ok k pr b" and "length i = 16" and "operation b i = None"
    and "length (ab_operations b) < MAX_ACCOUNT_OPERATIONS" and "n = max (ab_next_nonce b) pending" and "unat n < 2 ^ 64 - 1"
    and fits: "length (book_bytes k b) + 32 \<le> MAX_CUSTODY_BYTES"
  shows "\<exists>b'. reserve_nonce k b i pending = Ok (b', n) \<and> ab_scope b' = ab_scope b \<and> ab_address b' = ab_address b \<and>
    (\<forall>j. operation b' j = (if j = i then Some (reserved_operation i n) else operation b j)) \<and>
    length (book_bytes k b') = length (book_bytes k b) + 32"
proof -
  define b' where "b' = b\<lparr>ab_operations := bt_insert i (reserved_operation i n) (ab_operations b), ab_next_nonce := n + 1\<rparr>"
  have "map_of (ab_operations b) i = None" using assms(3) by (simp add: operation_def)
  from bt_insert_absent [OF this, of "reserved_operation i n"] obtain xs ys where o: "ab_operations b = xs @ ys"
    "ab_operations b' = xs @ (i, reserved_operation i n) # ys" by (auto simp: b'_def)
  have len: "length (book_bytes k b') = length (book_bytes k b) + 32"
    using o assms(2) by (simp add: book_bytes_def operation_bytes_def reserved_operation_def blob_bytes_def b'_def)
  have "list_all blobs_ok (map snd (ab_operations b'))"
    using b o by (auto simp: book_ok_def export_state_Ok) (simp add: blobs_ok_def reserved_operation_def)
  then have "export_state k b' = Ok (book_bytes k b')" using len fits by (simp add: export_state_Ok)
  then have "reserve_nonce k b i pending = Ok (b', n)"
    using assms(3-6) unfolding reserve_nonce_Ok by (simp add: b'_def reserved_operation_def)
  moreover have "operation b' j = (if j = i then Some (reserved_operation i n) else operation b j)" for j
    by (simp add: operation_def b'_def bt_get_insert)
  ultimately show ?thesis using len by (intro exI [of _ b']) (simp add: b'_def)
qed

lemma lifecycle_runs:
  assumes d: "digest_ok (k_keccak k)" and b: "book_ok k pr b" and i: "length i = 16" and "operation b i = None"
    and "length (ab_operations b) < MAX_ACCOUNT_OPERATIONS" and "n = max (ab_next_nonce b) pending" and "unat n < 2 ^ 64 - 1"
    and s: "quai_signed_bytes k pr s = Ok p" and p: "checked_payload k pr b n p = Ok h"
    and block: "wf_hash (cp_hash block)" "hash_bytes (cp_hash block) \<noteq> replicate 32 0"
    and fits: "length (book_bytes k b) + length p + 160 \<le> MAX_CUSTODY_BYTES"
  shows "\<exists>b1 b2 b3 b4. reserve_nonce k b i pending = Ok (b1, n) \<and> commit_signed k pr b1 i s = Ok b2 \<and>
    mark_submitted b2 i = Ok b3 \<and> observe_inclusion k pr b3 i h block = Ok b4 \<and> (custody_step k pr)\<^sup>*\<^sup>* b b4 \<and>
    (\<forall>j. operation b4 j = (if j = i then Some (lifecycle_operation i n p h Confirmed (Some block)) else operation b j))"
proof -
  obtain b1 where b1: "reserve_nonce k b i pending = Ok (b1, n)" "ab_scope b1 = ab_scope b" "ab_address b1 = ab_address b"
      "\<And>j. operation b1 j = (if j = i then Some (reserved_operation i n) else operation b j)"
      "length (book_bytes k b1) = length (book_bytes k b) + 32"
    using reserve_fits [OF assms(2-7)] fits by auto
  note ok1 = reserve_ok(1) [OF b b1(1) i]
  have h: "wf_hash h" using p quai_hash_wf [OF d] by (auto simp: checked_payload_Ok)
  have short: "length p \<le> MAX_TRANSACTION_BYTES" using s by (auto simp: quai_signed_bytes_def encode_def split: if_splits)
  let ?op = "lifecycle_operation i n p h"
  have sizes: "length (operation_bytes (reserved_operation i n)) = 32" "length (operation_bytes (?op st None)) = 64 + length p"
      "length (operation_bytes (?op st (Some block))) = 160 + length p" "blobs_ok (?op st bl)" for st bl
    using i h block(1) short by (simp_all add: reserved_operation_def lifecycle_operation_def operation_bytes_def blob_bytes_def
      blobs_ok_def wf_hash_def)
  define b2 where "b2 = update_operation b1 i (?op Signed None)"
  have "checked_payload k pr b1 n p = Ok h" using p b1(2,3) by (simp add: checked_payload_def)
  moreover have "install k b1 (?op Signed None) (ab_next_nonce b1) = Ok b2"
    unfolding b2_def by (rule install_fits [OF ok1, of i "reserved_operation i n"])
      (use b1 sizes fits in simp_all)
  ultimately have c2: "commit_signed k pr b1 i s = Ok b2"
    using b1(4) s by (simp add: commit_signed_def reserved_operation_def with_root_def lifecycle_operation_def)
  have ok2: "book_ok k pr b2" using commit_signed_step [OF d ok1 c2] by simp
  have o2: "operation b2 i = Some (?op Signed None)" by (simp add: b2_def operation_update)
  have l2: "length (book_bytes k b2) = length (book_bytes k b) + 64 + length p"
    using update_length [OF ok1, of i "reserved_operation i n" "?op Signed None"] b1 sizes by (simp add: b2_def)
  define b3 where "b3 = update_operation b2 i (?op Submitted None)"
  have c3: "mark_submitted b2 i = Ok b3" using o2 by (simp add: mark_submitted_def b3_def lifecycle_operation_def)
  have ok3: "book_ok k pr b3" using submit_step [OF ok2 c3] by simp
  have o3: "operation b3 i = Some (?op Submitted None)" by (simp add: b3_def operation_update)
  have l3: "length (book_bytes k b3) = length (book_bytes k b) + 64 + length p"
    using update_length [OF ok2 o2, of "?op Submitted None"] l2 sizes by (simp add: b3_def)
  define b4 where "b4 = update_operation b3 i (?op Confirmed (Some block))"
  have "install k b3 (?op Confirmed (Some block)) (ab_next_nonce b3) = Ok b4"
    unfolding b4_def by (rule install_fits [OF ok3 o3]) (use l3 sizes fits in simp_all)
  then have c4: "observe_inclusion k pr b3 i h block = Ok b4"
    using o3 block(2) by (simp add: observe_inclusion_def lifecycle_operation_def contains_candidate_def)
  have "(custody_step k pr)\<^sup>*\<^sup>* b b4"
    using custody_step.reserve [OF b1(1) i] custody_step.commit [OF c2] custody_step.submit [OF c3] custody_step.observe [OF c4 h block(1)]
    by (meson converse_rtranclp_into_rtranclp rtranclp.rtrancl_refl)
  moreover have "operation b4 j = (if j = i then Some (?op Confirmed (Some block)) else operation b j)" for j
    by (simp add: b4_def b3_def b2_def operation_update b1(4))
  ultimately show ?thesis using b1(1) c2 c3 c4 by blast
qed

section \<open>Typestates\<close>

text \<open>What an operation stores in each of its states, and what its stored bytes are.\<close>

definition typestate :: "('pt, 'ec, 'sc, 'sk) k256 \<Rightarrow> prost \<Rightarrow> 'pt account_book \<Rightarrow> account_operation \<Rightarrow> bool" where
  "typestate k pr b op \<longleftrightarrow>
     (case ao_transaction op of
        None \<Rightarrow> (ao_state op = Reserved \<or> ao_state op = Released) \<and> ao_payload op = None \<and> ao_replacements op = [] \<and>
          ao_inclusion op = None
      | Some t \<Rightarrow> wf_hash t \<and>
          (case ao_inclusion op of
             None \<Rightarrow> ao_state op = Signed \<or> ao_state op = Submitted
           | Some (h, block) \<Rightarrow> ao_state op = Confirmed \<and> contains_candidate k pr op h \<and> wf_hash (cp_hash block) \<and>
               hash_bytes (cp_hash block) \<noteq> replicate 32 0)) \<and>
     (\<forall>p. ao_payload op = Some p \<longrightarrow> (\<exists>s. quai_signed_decode k pr p = Ok s \<and> sq_from s = ab_address b \<and>
        qt_nonce (sq_transaction s) = ao_nonce op \<and> qt_chain_id (sq_transaction s) = ns_chain_id (ab_scope b) \<and>
        quai_hash k pr s = Ok (the (ao_transaction op))))"

lemma sound_typestate:
  assumes "book_ok k pr b" and "operation b i = Some op"
  shows "length i = 16 \<and> ao_id op = i \<and> ao_nonce op < ab_next_nonce b \<and> typestate k pr b op"
proof -
  note m = book_ok_member [OF assms]
  have st: "signed_state (ao_state op) \<longleftrightarrow> ao_transaction op \<noteq> None" "ao_state op = Confirmed \<longleftrightarrow> ao_inclusion op \<noteq> None"
    "ao_payload op \<noteq> None \<longrightarrow> signed_state (ao_state op)" "payload_ok k pr b op" "ao_nonce op < ab_next_nonce b"
    "\<And>h block. ao_inclusion op = Some (h, block) \<Longrightarrow> hash_bytes (cp_hash block) \<noteq> replicate 32 0 \<and> contains_candidate k pr op h"
    using m(3) unfolding operation_ok_def by blast+
  have wf: "length (ao_id op) = 16" "pred_option wf_hash (ao_transaction op)"
    "pred_option (\<lambda>(h, block). wf_hash h \<and> wf_hash (cp_hash block)) (ao_inclusion op)"
    using m(2) by (simp_all add: wf_operation_def)
  have "\<exists>s. quai_signed_decode k pr p = Ok s \<and> sq_from s = ab_address b \<and> qt_nonce (sq_transaction s) = ao_nonce op \<and>
      qt_chain_id (sq_transaction s) = ns_chain_id (ab_scope b) \<and> quai_hash k pr s = Ok (the (ao_transaction op))"
    if "ao_payload op = Some p" for p
    using st(4) that by (auto simp: payload_ok_def checked_payload_Ok)
  moreover have "case ao_transaction op of
        None \<Rightarrow> (ao_state op = Reserved \<or> ao_state op = Released) \<and> ao_payload op = None \<and> ao_replacements op = [] \<and>
          ao_inclusion op = None
      | Some t \<Rightarrow> wf_hash t \<and>
          (case ao_inclusion op of
             None \<Rightarrow> ao_state op = Signed \<or> ao_state op = Submitted
           | Some (h, block) \<Rightarrow> ao_state op = Confirmed \<and> contains_candidate k pr op h \<and> wf_hash (cp_hash block) \<and>
               hash_bytes (cp_hash block) \<noteq> replicate 32 0)"
  proof (cases "ao_transaction op")
    case None
    then have "\<not> signed_state (ao_state op)" "ao_payload op = None" using st(1,3) by auto
    then show ?thesis using None st(2,4)
      by (cases "ao_state op"; cases "ao_inclusion op") (auto simp: signed_state_def payload_ok_def)
  next
    case (Some t)
    then have "signed_state (ao_state op)" using st(1) by simp
    then show ?thesis using Some st(2,6) wf(2,3)
      by (cases "ao_state op"; cases "ao_inclusion op") (auto simp: signed_state_def)
  qed
  ultimately show ?thesis using m(1) wf(1) st(5) by (simp add: typestate_def)
qed

section \<open>Properties of the account journal\<close>

text \<open>
  C7: strict state import is exact. For a scope with a 32-byte genesis hash and an owner key that
  compresses to 33 bytes, importing bytes under the expected scope and owner returns a book exactly
  when the book is for that scope and owner, is well formed, passes the semantic validation, and the
  bytes are its export: every export restores the same book and nothing else is accepted.
\<close>

theorem custody_state_exact:
  assumes "prost_empty pr" and "wf_hash (ns_genesis scope)" and "length (to_compressed k owner) = 33"
  shows "from_state k pr bs scope owner = Ok b \<longleftrightarrow>
    ab_scope b = scope \<and> ab_owner b = owner \<and> wf_book k b \<and> validate k pr b = Ok () \<and> export_state k b = Ok bs"
  unfolding from_state_Ok [OF assms] book_ok_def using export_is_bytes [of k b bs] by (auto simp: export_state_Ok)

text \<open>
  C2: every book reachable from a fresh one by any sequence of reservations, releases, reopenings,
  signatures, replacements, submissions, observed and invalidated inclusions and backup merges
  validates, exports within the size bound, and its export restores it unchanged.
\<close>

theorem custody_reachable_restores:
  assumes "digest_ok (k_keccak k)" and "prost_empty pr" and "wf_hash (ns_genesis scope)"
    and "length (to_compressed k owner) = 33" and "book_new k scope owner n = Ok b0" and "(custody_step k pr)\<^sup>*\<^sup>* b0 b"
  shows "validate k pr b = Ok () \<and> (\<exists>bs. export_state k b = Ok bs \<and> length bs \<le> MAX_CUSTODY_BYTES \<and>
    from_state k pr bs scope owner = Ok b)"
proof -
  have ok: "book_ok k pr b" by (rule reachable_sound [OF assms(1,3,4,5,6)])
  have "book_ok k pr b0" by (rule book_new_ok [OF assms(5,3,4)])
  then have "book_le b0 b" using account.run_history [OF assms(6)] assms(1) by simp
  moreover have "ab_scope b0 = scope" "ab_owner b0 = owner"
    using assms(5) [unfolded book_new_Ok] by (metis account_book.select_convs)+
  ultimately have "from_state k pr (book_bytes k b) scope owner = Ok b"
    using ok by (simp add: from_state_Ok [OF assms(2-4)] book_le_def)
  then show ?thesis using ok by (auto simp: book_ok_def export_state_Ok)
qed

text \<open>
  C1: no history loses a claim or reuses a nonce. Along any run from a sound book, an operation keeps
  its identifier and nonce, keeps its transaction, root bytes and replacement edges once they are
  recorded, never returns from a signed to an unsigned state, and no other operation ever holds its
  nonce.
\<close>

theorem custody_history_kept:
  assumes "digest_ok (k_keccak k)" and "book_ok k pr b" and "(custody_step k pr)\<^sup>*\<^sup>* b b'" and "operation b i = Some op"
  shows "\<exists>op'. operation b' i = Some op' \<and> operation_le op op' \<and>
    (\<forall>j x. operation b' j = Some x \<and> ao_nonce x = ao_nonce op \<longrightarrow> j = i)"
  by (rule history_kept [OF assms])

text \<open>
  C8: the lifecycle of an operation completes. On a sound book with a free identifier, a free slot, a
  nonce left and room for the payload and 160 bytes, reserving the nonce, committing a transaction
  signed for it, marking it submitted and observing its inclusion all succeed, and leave the
  operation confirmed in that block with every other operation untouched.
\<close>

theorem custody_lifecycle_completes:
  assumes "digest_ok (k_keccak k)" and "book_ok k pr b" and "length i = 16" and "operation b i = None"
    and "length (ab_operations b) < MAX_ACCOUNT_OPERATIONS" and "n = max (ab_next_nonce b) pending" and "unat n < 2 ^ 64 - 1"
    and "quai_signed_bytes k pr s = Ok p" and "checked_payload k pr b n p = Ok h"
    and "wf_hash (cp_hash block)" and "hash_bytes (cp_hash block) \<noteq> replicate 32 0"
    and "length (book_bytes k b) + length p + 160 \<le> MAX_CUSTODY_BYTES"
  shows "\<exists>b1 b2 b3 b4. reserve_nonce k b i pending = Ok (b1, n) \<and> commit_signed k pr b1 i s = Ok b2 \<and>
    mark_submitted b2 i = Ok b3 \<and> observe_inclusion k pr b3 i h block = Ok b4 \<and> (custody_step k pr)\<^sup>*\<^sup>* b b4 \<and>
    (\<forall>j. operation b4 j = (if j = i then Some (lifecycle_operation i n p h Confirmed (Some block)) else operation b j))"
  by (rule lifecycle_runs [OF assms])

text \<open>
  C40: in every reachable book an operation is stored under its own 16-byte identifier with a nonce
  below the next one, and its fields fit its state: unsigned operations carry no transaction data,
  signed and submitted ones a 32-byte transaction hash and no inclusion, confirmed ones an inclusion
  of a recorded candidate in a nonzero block. A stored root payload decodes to a transaction of the
  book's own address, chain and that nonce, and hashes to the recorded transaction.
\<close>

theorem custody_typestate:
  assumes "digest_ok (k_keccak k)" and "wf_hash (ns_genesis scope)" and "length (to_compressed k owner) = 33"
    and "book_new k scope owner n = Ok b0" and "(custody_step k pr)\<^sup>*\<^sup>* b0 b" and "operation b i = Some op"
  shows "length i = 16 \<and> ao_id op = i \<and> ao_nonce op < ab_next_nonce b \<and> typestate k pr b op"
  by (rule sound_typestate [OF reachable_sound [OF assms(1-5)] assms(6)])

text \<open>A fresh book on chain 9, and the signed transfer of nonce zero.\<close>

definition sample_scope :: network_scope where
  "sample_scope = \<lparr>ns_chain_id = 9, ns_genesis = Hash32 (replicate 32 1), ns_zone = Cyprus1\<rparr>"

definition sample_book :: "bytes account_book" where
  "sample_book = \<lparr>ab_scope = sample_scope, ab_owner = replicate 20 0,
     ab_address = \<lparr>la_address = address_zero, la_zone = Cyprus1\<rparr>, ab_next_nonce = 0, ab_operations = []\<rparr>"

definition sample_block :: checkpoint where
  "sample_block = \<lparr>cp_hash = Hash32 (replicate 32 2), cp_height = 5\<rparr>"

abbreviation sample_confirmed :: account_operation where
  "sample_confirmed \<equiv> lifecycle_operation (replicate 16 7) 0 [8, 0] (Hash32 (replicate 32 0)) Confirmed (Some sample_block)"

lemma sample_facts:
  "digest_ok (k_keccak sample_k256)" "prost_empty quai_prost" "wf_hash (ns_genesis sample_scope)"
  "length (to_compressed sample_k256 (replicate 20 0)) = 33"
  by (auto simp: digest_ok_def prost_empty_def quai_prost_def sample_k256_def sample_scope_def wf_hash_def to_compressed_def
      min_def)

lemma sample_new: "book_new sample_k256 sample_scope (replicate 20 0) 0 = Ok sample_book"
proof -
  have "quai_address_try_from (public_key_address sample_k256 (replicate 20 0)) = Ok \<lparr>la_address = address_zero, la_zone = Cyprus1\<rparr>"
    by (simp add: public_key_address_def to_uncompressed_def sample_k256_def quai_address_try_from_def
        ledger_address_try_from_def address_zone_def address_ledger_def address_zero_def zone_from_byte_def)
  then show ?thesis by (simp add: book_new_def sample_book_def sample_scope_def)
qed

lemma sample_book_ok: "book_ok sample_k256 quai_prost sample_book"
  using book_new_ok [OF sample_new] sample_facts by blast

lemma sample_payload:
  "quai_signed_bytes sample_k256 quai_prost sample_signed = Ok [8, 0]"
  "checked_payload sample_k256 quai_prost sample_book 0 [8, 0] = Ok (Hash32 (replicate 32 0))"
proof -
  show b: "quai_signed_bytes sample_k256 quai_prost sample_signed = Ok [8, 0]"
    by (simp add: quai_signed_bytes_def encode_def quai_prost_def MAX_TRANSACTION_BYTES_def)
  have "ecdsa_ok sample_k256 (rs_signature (sq_signature sample_signed))"
    using sample_signature_wf by (simp add: wf_signature_def sample_signed_def)
  then have "quai_signed_decode sample_k256 quai_prost [8, 0] = Ok sample_signed"
    using sample_attach sample_signature_wf b
    by (subst signed_decode_iff [OF _ quai_prost_ok])
      (simp_all add: sample_signed_def sample_quai_def wf_quai_def wf_address_def address_zero_def)
  moreover have "quai_hash sample_k256 quai_prost sample_signed = Ok (Hash32 (replicate 32 0))"
    using b by (simp add: quai_hash_def sample_k256_def sample_signed_def numeral_eq_Suc Let_def)
  ultimately show "checked_payload sample_k256 quai_prost sample_book 0 [8, 0] = Ok (Hash32 (replicate 32 0))"
    by (simp add: checked_payload_def sample_signed_def sample_quai_def sample_book_def sample_scope_def)
qed

lemma sample_length: "length (book_bytes sample_k256 sample_book) = 116"
  by (simp add: sample_book_def book_bytes_def MAGIC_def as_bytes_def sample_scope_def scope_key_def sample_k256_def
      to_compressed_def)

lemma sample_room:
  "operation sample_book i = None" "length (ab_operations sample_book) < MAX_ACCOUNT_OPERATIONS"
  "(0 :: u64) = max (ab_next_nonce sample_book) 0" "wf_hash (cp_hash sample_block)"
  "hash_bytes (cp_hash sample_block) \<noteq> replicate 32 0"
  "length (book_bytes sample_k256 sample_book) + length [8, 0 :: u8] + 160 \<le> MAX_CUSTODY_BYTES"
  by (simp_all add: operation_def sample_book_def MAX_ACCOUNT_OPERATIONS_def sample_block_def wf_hash_def
      sample_length [unfolded sample_book_def] MAX_CUSTODY_BYTES_def)

lemma sample_lifecycle:
  "\<exists>b. (custody_step sample_k256 quai_prost)\<^sup>*\<^sup>* sample_book b \<and> operation b (replicate 16 7) = Some sample_confirmed"
  using lifecycle_runs [OF sample_facts(1) sample_book_ok _ sample_room(1,2,3) _ sample_payload sample_room(4-6), of "replicate 16 7"]
  by fastforce

theorem custody_lifecycle_completes_witness:
  "\<exists>b1 b2 b3 b4. reserve_nonce sample_k256 sample_book (replicate 16 7) 0 = Ok (b1, 0) \<and>
    commit_signed sample_k256 quai_prost b1 (replicate 16 7) sample_signed = Ok b2 \<and>
    mark_submitted b2 (replicate 16 7) = Ok b3 \<and>
    observe_inclusion sample_k256 quai_prost b3 (replicate 16 7) (Hash32 (replicate 32 0)) sample_block = Ok b4 \<and>
    operation b4 (replicate 16 7) = Some sample_confirmed"
  using custody_lifecycle_completes
    [OF sample_facts(1) sample_book_ok _ sample_room(1,2,3) _ sample_payload sample_room(4-6), of "replicate 16 7"]
  by fastforce

theorem custody_reachable_restores_witness:
  "\<exists>b bs. operation b (replicate 16 7) = Some sample_confirmed \<and> validate sample_k256 quai_prost b = Ok () \<and>
    export_state sample_k256 b = Ok bs \<and> from_state sample_k256 quai_prost bs sample_scope (replicate 20 0) = Ok b"
  using custody_reachable_restores [OF sample_facts sample_new] sample_lifecycle by blast

theorem custody_state_exact_witness:
  "from_state sample_k256 quai_prost (book_bytes sample_k256 sample_book) sample_scope (replicate 20 0) = Ok sample_book"
proof -
  have "ab_scope sample_book = sample_scope" "ab_owner sample_book = replicate 20 0" by (simp_all add: sample_book_def)
  then show ?thesis
    using sample_book_ok by (simp add: custody_state_exact [OF sample_facts(2-4)] book_ok_def)
qed

theorem custody_typestate_witness:
  "\<exists>b. operation b (replicate 16 7) = Some sample_confirmed \<and> typestate sample_k256 quai_prost b sample_confirmed"
  using custody_typestate [OF sample_facts(1,3,4) sample_new] sample_lifecycle by blast

theorem custody_history_kept_witness:
  "\<exists>(b :: bytes account_book) b' op. operation b (replicate 16 7) = Some sample_confirmed \<and>
    invalidate_inclusion b (replicate 16 7) (Hash32 (replicate 32 0), sample_block) = Ok b' \<and>
    operation b' (replicate 16 7) = Some op \<and> operation_le sample_confirmed op"
proof -
  obtain b where b: "(custody_step sample_k256 quai_prost)\<^sup>*\<^sup>* sample_book b" "operation b (replicate 16 7) = Some sample_confirmed"
    using sample_lifecycle by blast
  have ok: "book_ok sample_k256 quai_prost b"
    by (rule reachable_sound [OF sample_facts(1,3,4) sample_new b(1)])
  obtain b' where b': "invalidate_inclusion b (replicate 16 7) (Hash32 (replicate 32 0), sample_block) = Ok b'"
    using b(2) by (simp add: invalidate_inclusion_def lifecycle_operation_def)
  then have "custody_step sample_k256 quai_prost b b'" by (rule custody_step.invalidate)
  then obtain op where "operation b' (replicate 16 7) = Some op" "operation_le sample_confirmed op"
    using custody_history_kept [OF sample_facts(1) ok _ b(2)] by blast
  then show ?thesis using b(2) b' by blast
qed

end
