(* ===== verification/Hd_Derive.thy ===== *)
theory Hd_Derive
  imports Crypto
begin

text \<open>
  Public child derivation of \<open>quai-wallet/src/hd.rs\<close> with the point tweaks of
  \<open>quai-crypto/src/keys.rs\<close>: coin types, the scan branch, single and batched child keys, and the
  classification of a derived address. Shown here: a batch derives exactly the keys that the single
  calls derive.
\<close>

section \<open>The third-party operations\<close>

text \<open>
  Projective and affine points and secret scalars of the curve crate, the HMAC of the hash crate,
  child numbers and extended public keys of the \<open>bip32\<close> crate.
\<close>

record ('pt, 'pj, 'af, 'sk, 'xp) hd_crates =
  c_secret_key :: "bytes \<Rightarrow> 'sk option"
  c_projective :: "'pt \<Rightarrow> 'pj"
  c_mul_by_generator :: "'sk \<Rightarrow> 'pj"
  c_add :: "'pj \<Rightarrow> 'pj \<Rightarrow> 'pj"
  c_generator :: 'pj
  c_is_identity :: "'pj \<Rightarrow> bool"
  c_to_affine :: "'pj \<Rightarrow> 'af"
  c_batch_normalize :: "'pj list \<Rightarrow> 'af list"
  c_from_affine :: "'af \<Rightarrow> 'pt option"
  c_hmac_sha512 :: "bytes \<Rightarrow> bytes \<Rightarrow> bytes"
  c_child_number :: "u32 \<Rightarrow> bool \<Rightarrow> u32 option"
  c_xpub_derive :: "'xp \<Rightarrow> u32 \<Rightarrow> 'xp option"
  c_xpub_bytes :: "'xp \<Rightarrow> bytes"
  c_xpub_chain_code :: "'xp \<Rightarrow> bytes"

text \<open>
  What is relied on: batch normalisation converts each point of a nonempty batch without the identity, the
  identity is no public key and the generator is not the identity, and child numbers are below
  \<open>2 ^ 31\<close> before hardening.
\<close>

definition curve_ok :: "('pt, 'pj, 'af, 'sk, 'xp) hd_crates \<Rightarrow> bool" where
  "curve_ok c \<longleftrightarrow> \<not> c_is_identity c (c_generator c) \<and>
     (\<forall>ps. ps \<noteq> [] \<and> (\<forall>p \<in> set ps. \<not> c_is_identity c p) \<longrightarrow> c_batch_normalize c ps = map (c_to_affine c) ps) \<and>
     (\<forall>p. c_is_identity c p \<longrightarrow> c_from_affine c (c_to_affine c p) = None)"

definition child_numbers_ok :: "('pt, 'pj, 'af, 'sk, 'xp) hd_crates \<Rightarrow> bool" where
  "child_numbers_ok c \<longleftrightarrow> (\<forall>i h. c_child_number c i h = None \<longleftrightarrow> 2 ^ 31 \<le> unat i)"

section \<open>Keys\<close>

definition secret_key_from_bytes ::
  "('pt, 'pj, 'af, 'sk, 'xp) hd_crates \<Rightarrow> bytes \<Rightarrow> ('sk, crypto_error) result" where
  "secret_key_from_bytes c bs = ok_or (c_secret_key c bs) CrInvalidSecretKey"

definition add_tweak ::
  "('pt, 'pj, 'af, 'sk, 'xp) hd_crates \<Rightarrow> 'pt \<Rightarrow> 'sk \<Rightarrow> ('pt, crypto_error) result" where
  "add_tweak c public_key tweak =
     (let point = c_add c (c_projective c public_key) (c_mul_by_generator c tweak)
      in ok_or (c_from_affine c (c_to_affine c point)) CrInvalidPublicKey)"

definition add_tweaks ::
  "('pt, 'pj, 'af, 'sk, 'xp) hd_crates \<Rightarrow> 'pt \<Rightarrow> 'sk list \<Rightarrow> ('pt, crypto_error) result list" where
  "add_tweaks c public_key tweaks =
     (if tweaks = [] then []
      else
        let base = c_projective c public_key;
            points = map (\<lambda>tweak. c_add c base (c_mul_by_generator c tweak)) tweaks;
            identity = map (c_is_identity c) points;
            safe = map (\<lambda>(point, identity). if identity then c_generator c else point) (zip points identity)
        in map (\<lambda>(point, identity).
             if identity then Err CrInvalidPublicKey else ok_or (c_from_affine c point) CrInvalidPublicKey)
           (zip (c_batch_normalize c safe) identity))"

section \<open>Errors, coins and branches\<close>

datatype wallet_error =
    WaInvalidMnemonic
  | WaInvalidEntropy
  | WaRandomnessUnavailable
  | WaInvalidSeed
  | WaInvalidExtendedKey
  | WaInvalidIndex
  | WaHardenedPublicChild
  | WaInvalidPath
  | WaDerivation
  | WaInvalidAccountOrigin
  | WaInvalidDerivedAddress
  | WaInvalidSearchLimit
  | WaCancelled u32 u32
  | WaSearchExhausted u32 "u32 option"

definition HARDENED :: u32 where
  "HARDENED = push_bit 31 1"

datatype coin_type = CoinQuai | CoinQi

fun coin_number :: "coin_type \<Rightarrow> u32" where
  "coin_number CoinQuai = 994"
| "coin_number CoinQi = 969"

fun coin_ledger :: "coin_type \<Rightarrow> ledger" where
  "coin_ledger CoinQuai = Quai"
| "coin_ledger CoinQi = Qi"

definition child_number ::
  "('pt, 'pj, 'af, 'sk, 'xp) hd_crates \<Rightarrow> u32 \<Rightarrow> bool \<Rightarrow> (u32, wallet_error) result" where
  "child_number c index hardened = ok_or (c_child_number c index hardened) WaInvalidIndex"

definition xpub_public_key ::
  "('pt, 'ec, 'sc, 'sk) k256 \<Rightarrow> ('pt, 'pj, 'af, 'sk, 'xp) hd_crates \<Rightarrow> 'xp \<Rightarrow> ('pt, wallet_error) result" where
  "xpub_public_key k c node = map_err (\<lambda>_. WaDerivation) (public_key_from_sec1 k (c_xpub_bytes c node))"

definition xpub_derive_child ::
  "('pt, 'pj, 'af, 'sk, 'xp) hd_crates \<Rightarrow> 'xp \<Rightarrow> u32 \<Rightarrow> bool \<Rightarrow> ('xp, wallet_error) result" where
  "xpub_derive_child c node index hardened =
     (if hardened then Err WaHardenedPublicChild
      else rbind (child_number c index False) (\<lambda>n. ok_or (c_xpub_derive c node n) WaDerivation))"

record 'pt scan_branch =
  sb_public_key :: 'pt
  sb_chain_code :: bytes
  sb_compressed :: bytes

definition scan_branch_new ::
  "('pt, 'ec, 'sc, 'sk) k256 \<Rightarrow> ('pt, 'pj, 'af, 'sk, 'xp) hd_crates \<Rightarrow> 'xp \<Rightarrow> ('pt scan_branch, wallet_error) result" where
  "scan_branch_new k c node =
     rbind (xpub_public_key k c node) (\<lambda>public_key.
       Ok \<lparr>sb_public_key = public_key, sb_chain_code = c_xpub_chain_code c node, sb_compressed = to_compressed k public_key\<rparr>)"

definition branch_tweak ::
  "('pt, 'pj, 'af, 'sk, 'xp) hd_crates \<Rightarrow> 'pt scan_branch \<Rightarrow> u32 \<Rightarrow> ('sk, wallet_error) result" where
  "branch_tweak c b index =
     (let hash = c_hmac_sha512 c (sb_chain_code b) (sb_compressed b @ to_be 4 (unat index))
      in map_err (\<lambda>_. WaDerivation) (secret_key_from_bytes c (take 32 hash)))"

definition child_public_key ::
  "('pt, 'pj, 'af, 'sk, 'xp) hd_crates \<Rightarrow> 'pt scan_branch \<Rightarrow> u32 \<Rightarrow> ('pt, wallet_error) result" where
  "child_public_key c b index =
     (if HARDENED \<le> index then Err WaHardenedPublicChild
      else rbind (branch_tweak c b index) (\<lambda>t. map_err (\<lambda>_. WaDerivation) (add_tweak c (sb_public_key b) t)))"

text \<open>The closure that fills the slots of a batch: it pushes each tweak and returns its position.\<close>

definition batch_slot ::
  "('pt, 'pj, 'af, 'sk, 'xp) hd_crates \<Rightarrow> 'pt scan_branch \<Rightarrow> u32 \<Rightarrow> 'sk list \<times> (nat, wallet_error) result list \<Rightarrow> nat \<Rightarrow>
     'sk list \<times> (nat, wallet_error) result list" where
  "batch_slot c b start st offset =
     (case st of (tweaks, slots) \<Rightarrow>
        case rbind (ok_or (Option.bind (checked_add start (word_of_nat offset)) (\<lambda>i. if i < HARDENED then Some i else None))
            WaHardenedPublicChild) (branch_tweak c b) of
          Inl e \<Rightarrow> (tweaks, slots @ [Err e])
        | Inr t \<Rightarrow> (tweaks @ [t], slots @ [Ok (length tweaks)]))"

definition child_public_keys ::
  "('pt, 'pj, 'af, 'sk, 'xp) hd_crates \<Rightarrow> 'pt scan_branch \<Rightarrow> u32 \<Rightarrow> u32 \<Rightarrow> ('pt, wallet_error) result list" where
  "child_public_keys c b start n =
     (let (tweaks, slots) = foldl (batch_slot c b start) ([], []) [0..<unat n];
          points = add_tweaks c (sb_public_key b) tweaks
      in map (\<lambda>slot. rbind slot (\<lambda>i. map_err (\<lambda>_. WaDerivation) (points ! i))) slots)"

section \<open>Accounts and derived addresses\<close>

record 'xp account_public =
  ap_key :: 'xp
  ap_coin :: coin_type
  ap_account :: u32

record derived_address =
  da_address :: address
  da_public_key :: bytes
  da_coin :: coin_type
  da_account :: u32
  da_change :: bool
  da_index :: u32
  da_zone :: zone

definition address_from_key ::
  "('pt, 'ec, 'sc, 'sk) k256 \<Rightarrow> 'xp account_public \<Rightarrow> 'pt \<Rightarrow> bool \<Rightarrow> u32 \<Rightarrow> (derived_address, wallet_error) result" where
  "address_from_key k a public change index =
     (let address = public_key_address k public
      in rbind (map_err (\<lambda>_. WaInvalidDerivedAddress) (address_zone address)) (\<lambda>zone.
        if address_ledger address \<noteq> coin_ledger (ap_coin a) then Err WaInvalidDerivedAddress
        else Ok \<lparr>da_address = address, da_public_key = to_compressed k public, da_coin = ap_coin a,
          da_account = ap_account a, da_change = change, da_index = index, da_zone = zone\<rparr>))"

text \<open>\<open>u32::from\<close> of the branch flag, and the branch node every scan starts from.\<close>

definition account_branch ::
  "('pt, 'ec, 'sc, 'sk) k256 \<Rightarrow> ('pt, 'pj, 'af, 'sk, 'xp) hd_crates \<Rightarrow> 'xp account_public \<Rightarrow> bool \<Rightarrow>
     ('pt scan_branch, wallet_error) result" where
  "account_branch k c a change = rbind (xpub_derive_child c (ap_key a) (of_bool change) False) (scan_branch_new k c)"

definition derive_address ::
  "('pt, 'ec, 'sc, 'sk) k256 \<Rightarrow> ('pt, 'pj, 'af, 'sk, 'xp) hd_crates \<Rightarrow> 'xp account_public \<Rightarrow> bool \<Rightarrow> u32 \<Rightarrow>
     (derived_address, wallet_error) result" where
  "derive_address k c a change index =
     rbind (account_branch k c a change) (\<lambda>b.
       rbind (child_public_key c b index) (\<lambda>public. address_from_key k a public change index))"

text \<open>One candidate of a scan: its address, no match, or the error that ends the scan.\<close>

definition classify ::
  "('pt, 'ec, 'sc, 'sk) k256 \<Rightarrow> 'xp account_public \<Rightarrow> bool \<Rightarrow> zone \<Rightarrow> u32 \<Rightarrow> ('pt, wallet_error) result \<Rightarrow>
     (derived_address option, wallet_error) result" where
  "classify k a change zone index point =
     (case rbind point (\<lambda>public. address_from_key k a public change index) of
        Inr address \<Rightarrow> if da_zone address = zone then Ok (Some address) else Ok None
      | Inl e \<Rightarrow> if e = WaInvalidDerivedAddress then Ok None else Err e)"

definition classify_run ::
  "('pt, 'ec, 'sc, 'sk) k256 \<Rightarrow> ('pt, 'pj, 'af, 'sk, 'xp) hd_crates \<Rightarrow> 'xp account_public \<Rightarrow> 'pt scan_branch \<Rightarrow> u32 \<Rightarrow> u32 \<Rightarrow>
     bool \<Rightarrow> zone \<Rightarrow> (derived_address option, wallet_error) result list" where
  "classify_run k c a b base width change zone =
     map (\<lambda>(offset, point). classify k a change zone (base + word_of_nat offset) point)
       (enumerate 0 (child_public_keys c b base width))"

section \<open>Batches\<close>

lemma add_tweaks_map:
  assumes "curve_ok c"
  shows "add_tweaks c p ts = map (add_tweak c p) ts"
proof (cases "ts = []")
  case False
  let ?ps = "map (\<lambda>t. c_add c (c_projective c p) (c_mul_by_generator c t)) ts"
  let ?safe = "map (\<lambda>(q, i). if i then c_generator c else q) (zip ?ps (map (c_is_identity c) ?ps))"
  have safe: "?safe = map (\<lambda>q. if c_is_identity c q then c_generator c else q) ?ps"
    by (rule nth_equalityI) simp_all
  have "\<forall>q \<in> set ?safe. \<not> c_is_identity c q" unfolding safe using assms by (auto simp: curve_ok_def)
  then have "c_batch_normalize c ?safe = map (c_to_affine c) ?safe"
    using assms False by (simp add: curve_ok_def)
  then have "add_tweaks c p ts = map (\<lambda>(point, identity).
      if identity then Err CrInvalidPublicKey else ok_or (c_from_affine c point) CrInvalidPublicKey)
      (zip (map (c_to_affine c) ?safe) (map (c_is_identity c) ?ps))"
    using False by (simp add: add_tweaks_def Let_def)
  also have "\<dots> = map (\<lambda>q. ok_or (c_from_affine c (c_to_affine c q)) CrInvalidPublicKey) ?ps"
    unfolding safe using assms by (intro nth_equalityI) (simp_all add: curve_ok_def)
  also have "\<dots> = map (add_tweak c p) ts" by (simp add: add_tweak_def comp_def)
  finally show ?thesis .
qed (simp add: add_tweaks_def)

definition u32_range :: "u32 \<Rightarrow> nat \<Rightarrow> u32 list" where
  "u32_range i n = map (\<lambda>j. i + word_of_nat j) [0..<n]"

lemma length_u32_range [simp]: "length (u32_range i n) = n"
  by (simp add: u32_range_def)

lemma nth_u32_range [simp]: "j < n \<Longrightarrow> u32_range i n ! j = i + word_of_nat j"
  by (simp add: u32_range_def)

lemma u32_range_0 [simp]: "u32_range i 0 = []"
  by (simp add: u32_range_def)

lemma u32_range_Suc: "u32_range i (Suc n) = i # u32_range (i + 1) n"
proof -
  have "[0..<Suc n] = 0 # map Suc [0..<n]" by (simp add: map_Suc_upt upt_conv_Cons)
  then show ?thesis by (simp add: u32_range_def comp_def add.assoc del: upt_Suc)
qed

lemma u32_range_append: "u32_range i m @ u32_range (i + word_of_nat m) n = u32_range i (m + n)"
proof (induction m arbitrary: i)
  case (Suc m)
  have "i + word_of_nat (Suc m) = i + 1 + word_of_nat m" by simp
  then show ?case using Suc.IH [of "i + 1"] by (simp only: u32_range_Suc append_Cons add_Suc)
qed simp

lemma unat_HARDENED [simp]: "unat HARDENED = 2 ^ 31"
  by (simp add: HARDENED_def)

text \<open>A slot is the position of its tweak, or the error that took its place.\<close>

definition slot_ok :: "'sk list \<Rightarrow> ('sk, wallet_error) result \<Rightarrow> (nat, wallet_error) result \<Rightarrow> bool" where
  "slot_ok tweaks x slot = (case x of Inl e \<Rightarrow> slot = Err e | Inr t \<Rightarrow> \<exists>i < length tweaks. slot = Ok i \<and> tweaks ! i = t)"

definition tweak_at :: "('pt, 'pj, 'af, 'sk, 'xp) hd_crates \<Rightarrow> 'pt scan_branch \<Rightarrow> u32 \<Rightarrow> ('sk, wallet_error) result" where
  "tweak_at c b i = (if HARDENED \<le> i then Err WaHardenedPublicChild else branch_tweak c b i)"

lemma slot_ok_append: "slot_ok tweaks x slot \<Longrightarrow> slot_ok (tweaks @ ts) x slot"
  by (auto simp: slot_ok_def nth_append split: sum.splits)

lemma batch_slots:
  assumes "unat start + n \<le> 2 ^ 32"
  shows "\<exists>tweaks slots. foldl (batch_slot c b start) ([], []) [0..<n] = (tweaks, slots) \<and> length slots = n \<and>
    (\<forall>j < n. slot_ok tweaks (tweak_at c b (start + word_of_nat j)) (slots ! j))"
  using assms
proof (induction n)
  case (Suc n)
  obtain tweaks slots where ih: "foldl (batch_slot c b start) ([], []) [0..<n] = (tweaks, slots)" "length slots = n"
      "\<And>j. j < n \<Longrightarrow> slot_ok tweaks (tweak_at c b (start + word_of_nat j)) (slots ! j)"
    using Suc by auto
  have n: "unat (word_of_nat n :: u32) = n" using Suc.prems by (intro unat_of_nat_small) simp
  have "checked_add start (word_of_nat n) = Some (start + word_of_nat n)"
    using Suc.prems n by (simp add: checked_add_def)
  then have r: "rbind (ok_or (Option.bind (checked_add start (word_of_nat n)) (\<lambda>i. if i < HARDENED then Some i else None))
      WaHardenedPublicChild) (branch_tweak c b) = tweak_at c b (start + word_of_nat n)"
    by (auto simp: tweak_at_def not_le)
  obtain ts slot where st: "foldl (batch_slot c b start) ([], []) [0..<Suc n] = (tweaks @ ts, slots @ [slot])"
      and slot: "slot_ok (tweaks @ ts) (tweak_at c b (start + word_of_nat n)) slot"
    using ih(1) by (cases "tweak_at c b (start + word_of_nat n)") (auto simp: batch_slot_def r slot_ok_def intro: that)
  have "slot_ok (tweaks @ ts) (tweak_at c b (start + word_of_nat j)) ((slots @ [slot]) ! j)" if "j < Suc n" for j
    using that slot ih(2) slot_ok_append [OF ih(3)] by (auto simp: nth_append less_Suc_eq)
  then show ?case unfolding st using ih(2) by auto
qed simp

lemma child_public_keys_map:
  assumes "curve_ok c" and "unat start + unat n \<le> 2 ^ 32"
  shows "child_public_keys c b start n = map (child_public_key c b) (u32_range start (unat n))"
proof -
  obtain tweaks slots where s: "foldl (batch_slot c b start) ([], []) [0..<unat n] = (tweaks, slots)" "length slots = unat n"
      "\<And>j. j < unat n \<Longrightarrow> slot_ok tweaks (tweak_at c b (start + word_of_nat j)) (slots ! j)"
    using batch_slots [OF assms(2)] by blast
  have "rbind slot (\<lambda>i. map_err (\<lambda>_. WaDerivation) (map (add_tweak c (sb_public_key b)) tweaks ! i)) = child_public_key c b i"
    if "slot_ok tweaks (tweak_at c b i) slot" for i slot
    using that by (auto simp: child_public_key_def slot_ok_def tweak_at_def split: sum.splits if_splits)
  then show ?thesis
    using s by (intro nth_equalityI) (simp_all add: child_public_keys_def add_tweaks_map [OF assms(1)])
qed

lemma classify_run_map:
  assumes "curve_ok c" and "unat base + unat width \<le> 2 ^ 32"
  shows "classify_run k c a b base width change zone =
    map (\<lambda>i. classify k a change zone i (child_public_key c b i)) (u32_range base (unat width))"
  by (rule nth_equalityI) (simp_all add: classify_run_def child_public_keys_map [OF assms] nth_enumerate_eq)

end
