(* ===== verification/Hd_Search.thy ===== *)
theory Hd_Search
  imports Hd_Derive
begin

text \<open>
  Address search of \<open>quai-wallet/src/hd.rs\<close>: the batched window scan, the single search, the scans
  over a thread pool and the sliced asynchronous scan. Every one of them is shown to be the same
  search as a reference scan that examines one candidate after the other.
\<close>

section \<open>Searches and windows\<close>

definition SCAN_BATCH :: u32 where "SCAN_BATCH = 32"

definition SEQUENTIAL_SLICE :: u32 where "SEQUENTIAL_SLICE = 512"

definition PARALLEL_SLICE_CHUNKS :: u32 where "PARALLEL_SLICE_CHUNKS = 4"

definition CHUNK_PER_THREAD :: nat where "CHUNK_PER_THREAD = 8"

definition WINDOW_CHUNK_PER_THREAD :: nat where "WINDOW_CHUNK_PER_THREAD = 64"

definition MIN_CHUNK :: u32 where "MIN_CHUNK = 32"

definition MAX_CHUNK :: u32 where "MAX_CHUNK = 512"

datatype grinding = Sequential | Parallel

datatype window_stop = Filled | Exhausted | WindowCancelled

record search_request =
  se_zone :: zone
  se_start_index :: u32
  se_max_attempts :: u32

record window =
  sw_addresses :: "derived_address list"
  sw_attempts :: u32
  sw_next_index :: "u32 option"
  sw_stop :: window_stop

record search_result =
  sr_address :: derived_address
  sr_attempts :: u32
  sr_next_index :: "u32 option"

text \<open>\<open>index.checked_add(1).filter(|next| *next < HARDENED)\<close>.\<close>

definition next_after :: "u32 \<Rightarrow> u32 option" where
  "next_after index = Option.bind (checked_add index 1) (\<lambda>i. if i < HARDENED then Some i else None)"

definition window_start :: "search_request \<Rightarrow> window" where
  "window_start s = \<lparr>sw_addresses = [], sw_attempts = 0, sw_next_index = Some (se_start_index s), sw_stop = Exhausted\<rparr>"

section \<open>The sequential window\<close>

text \<open>
  The caller's \<open>FnMut\<close> is a function of its captured state. A window is returned as soon as it is
  \<open>Filled\<close>. The value \<open>None\<close> is the panic of an empty batch, or a loop that never returns.
\<close>

definition window_examine ::
  "('pt, 'ec, 'sc, 'sk) k256 \<Rightarrow> 'xp account_public \<Rightarrow> bool \<Rightarrow> zone \<Rightarrow> nat \<Rightarrow> window \<Rightarrow> u32 \<Rightarrow> ('pt, wallet_error) result \<Rightarrow>
     (window, wallet_error) result" where
  "window_examine k a change zone n w index candidate =
     rbind candidate (\<lambda>public.
       let w = w\<lparr>sw_attempts := sw_attempts w + 1, sw_next_index := next_after index\<rparr>
       in case address_from_key k a public change index of
            Inr address \<Rightarrow>
              if da_zone address = zone
              then let w = w\<lparr>sw_addresses := sw_addresses w @ [address]\<rparr>
                in if length (sw_addresses w) = n then Ok (w\<lparr>sw_stop := Filled\<rparr>) else Ok w
              else Ok w
          | Inl e \<Rightarrow> if e = WaInvalidDerivedAddress then Ok w else Err e)"

partial_function (option) search_window_loop ::
  "('pt, 'ec, 'sc, 'sk) k256 \<Rightarrow> ('pt, 'pj, 'af, 'sk, 'xp) hd_crates \<Rightarrow> 'xp account_public \<Rightarrow> 'pt scan_branch \<Rightarrow> bool \<Rightarrow>
     search_request \<Rightarrow> nat \<Rightarrow> ('s \<Rightarrow> bool \<times> 's) \<Rightarrow> window \<Rightarrow> ('pt, wallet_error) result list \<Rightarrow> 's \<Rightarrow>
     ((window, wallet_error) result \<times> 's) option" where
  "search_window_loop k c a b change s n cancelled w batch st =
     (if \<not> sw_attempts w < se_max_attempts s then Some (Ok w, st)
      else case sw_next_index w of
        None \<Rightarrow> Some (Ok w, st)
      | Some index \<Rightarrow>
          (case cancelled st of (stop, st') \<Rightarrow>
             if stop then Some (Ok (w\<lparr>sw_stop := WindowCancelled\<rparr>), st')
             else
               (case (if batch = []
                   then child_public_keys c b index (min (min SCAN_BATCH (se_max_attempts s - sw_attempts w)) (HARDENED - index))
                   else batch) of
                  [] \<Rightarrow> None
                | candidate # rest \<Rightarrow>
                    (case window_examine k a change (se_zone s) n w index candidate of
                       Inl e \<Rightarrow> Some (Err e, st')
                     | Inr w' \<Rightarrow>
                         if sw_stop w' = Filled then Some (Ok w', st')
                         else search_window_loop k c a b change s n cancelled w' rest st'))))"

definition search_window ::
  "('pt, 'ec, 'sc, 'sk) k256 \<Rightarrow> ('pt, 'pj, 'af, 'sk, 'xp) hd_crates \<Rightarrow> 'xp account_public \<Rightarrow> bool \<Rightarrow> search_request \<Rightarrow> nat \<Rightarrow>
     ('s \<Rightarrow> bool \<times> 's) \<Rightarrow> 's \<Rightarrow> ((window, wallet_error) result \<times> 's) option" where
  "search_window k c a change s n cancelled st =
     (case child_number c (se_start_index s) False of
        Inl e \<Rightarrow> Some (Err e, st)
      | Inr _ \<Rightarrow>
          if n = 0 \<or> se_max_attempts s = 0 \<or> 10000000 < se_max_attempts s then Some (Err WaInvalidSearchLimit, st)
          else case account_branch k c a change of
            Inl e \<Rightarrow> Some (Err e, st)
          | Inr b \<Rightarrow> search_window_loop k c a b change s n cancelled (window_start s) [] st)"

definition window_search_result :: "window \<Rightarrow> (search_result, wallet_error) result" where
  "window_search_result w =
     (case (sw_stop w, if sw_addresses w = [] then None else Some (last (sw_addresses w))) of
        (Filled, Some address) \<Rightarrow>
          Ok \<lparr>sr_address = address, sr_attempts = sw_attempts w, sr_next_index = sw_next_index w\<rparr>
      | (WindowCancelled, _) \<Rightarrow>
          rbind (ok_or (sw_next_index w) WaInvalidSearchLimit) (\<lambda>i. Err (WaCancelled (sw_attempts w) i))
      | _ \<Rightarrow> Err (WaSearchExhausted (sw_attempts w) (sw_next_index w)))"

definition search ::
  "('pt, 'ec, 'sc, 'sk) k256 \<Rightarrow> ('pt, 'pj, 'af, 'sk, 'xp) hd_crates \<Rightarrow> 'xp account_public \<Rightarrow> bool \<Rightarrow> search_request \<Rightarrow>
     ('s \<Rightarrow> bool \<times> 's) \<Rightarrow> 's \<Rightarrow> ((search_result, wallet_error) result \<times> 's) option" where
  "search k c a change s cancelled st =
     Option.bind (search_window k c a change s 1 cancelled st) (\<lambda>(r, st). Some (rbind r window_search_result, st))"

section \<open>The scans over a thread pool\<close>

text \<open>
  The pool is deterministic in what it returns: \<open>flat_map\<close> with \<open>collect\<close> keeps the order of the
  runs and \<open>find_map_first\<close> returns the match of the first run. The number of threads is a
  parameter; \<open>usize\<close> products saturate.
\<close>

definition pool_chunk :: "nat \<Rightarrow> nat \<Rightarrow> u32 \<Rightarrow> u32" where
  "pool_chunk threads per_thread bound =
     (let n = min (threads * per_thread) (2 ^ 64 - 1); w = (if n < 2 ^ 32 then word_of_nat n else 2 ^ 32 - 1)
      in max MIN_CHUNK (min w bound))"

definition window_chunk :: "nat \<Rightarrow> u32" where
  "window_chunk threads = pool_chunk threads WINDOW_CHUNK_PER_THREAD 4096"

definition pool_runs :: "u32 \<Rightarrow> u32 list" where
  "pool_runs width =
     map word_of_nat [0..<unat (width div SCAN_BATCH + (if width mod SCAN_BATCH = 0 then 0 else 1))]"

definition pool_run ::
  "('pt, 'ec, 'sc, 'sk) k256 \<Rightarrow> ('pt, 'pj, 'af, 'sk, 'xp) hd_crates \<Rightarrow> 'xp account_public \<Rightarrow> 'pt scan_branch \<Rightarrow> bool \<Rightarrow> zone \<Rightarrow>
     u32 \<Rightarrow> u32 \<Rightarrow> u32 \<Rightarrow> (derived_address option, wallet_error) result list" where
  "pool_run k c a b change zone base width run =
     (let start = run * SCAN_BATCH
      in classify_run k c a b (base + start) (min SCAN_BATCH (width - start)) change zone)"

primrec consume_run ::
  "nat \<Rightarrow> window \<Rightarrow> (u32 \<times> (derived_address option, wallet_error) result) list \<Rightarrow> (window, wallet_error) result" where
  "consume_run n w [] = Ok w"
| "consume_run n w (x # xs) =
     (case x of (index, r) \<Rightarrow>
        let w = w\<lparr>sw_attempts := sw_attempts w + 1, sw_next_index := next_after index\<rparr>
        in rbind r (\<lambda>m. case m of
             Some address \<Rightarrow>
               let w = w\<lparr>sw_addresses := sw_addresses w @ [address]\<rparr>
               in if length (sw_addresses w) = n then Ok (w\<lparr>sw_stop := Filled\<rparr>) else consume_run n w xs
           | None \<Rightarrow> consume_run n w xs))"

partial_function (option) window_parallel_loop ::
  "nat \<Rightarrow> ('pt, 'ec, 'sc, 'sk) k256 \<Rightarrow> ('pt, 'pj, 'af, 'sk, 'xp) hd_crates \<Rightarrow> 'xp account_public \<Rightarrow> 'pt scan_branch \<Rightarrow> bool \<Rightarrow>
     search_request \<Rightarrow> nat \<Rightarrow> ('s \<Rightarrow> bool \<times> 's) \<Rightarrow> window \<Rightarrow> 's \<Rightarrow> ((window, wallet_error) result \<times> 's) option" where
  "window_parallel_loop threads k c a b change s n cancelled w st =
     (if \<not> sw_attempts w < se_max_attempts s then Some (Ok w, st)
      else case sw_next_index w of
        None \<Rightarrow> Some (Ok w, st)
      | Some base \<Rightarrow>
          (case cancelled st of (stop, st') \<Rightarrow>
             if stop then Some (Ok (w\<lparr>sw_stop := WindowCancelled\<rparr>), st')
             else
               (let width = min (min (window_chunk threads) (se_max_attempts s - sw_attempts w)) (HARDENED - base);
                    derived = concat (map (pool_run k c a b change (se_zone s) base width) (pool_runs width))
                in case consume_run n w (zip (u32_range base (unat width)) derived) of
                     Inl e \<Rightarrow> Some (Err e, st')
                   | Inr w' \<Rightarrow>
                       if sw_stop w' = Filled then Some (Ok w', st')
                       else window_parallel_loop threads k c a b change s n cancelled w' st')))"

definition search_window_parallel ::
  "nat \<Rightarrow> ('pt, 'ec, 'sc, 'sk) k256 \<Rightarrow> ('pt, 'pj, 'af, 'sk, 'xp) hd_crates \<Rightarrow> 'xp account_public \<Rightarrow> bool \<Rightarrow> search_request \<Rightarrow>
     nat \<Rightarrow> ('s \<Rightarrow> bool \<times> 's) \<Rightarrow> 's \<Rightarrow> ((window, wallet_error) result \<times> 's) option" where
  "search_window_parallel threads k c a change s n cancelled st =
     (case child_number c (se_start_index s) False of
        Inl e \<Rightarrow> Some (Err e, st)
      | Inr _ \<Rightarrow>
          if n = 0 \<or> se_max_attempts s = 0 \<or> 10000000 < se_max_attempts s then Some (Err WaInvalidSearchLimit, st)
          else case account_branch k c a change of
            Inl e \<Rightarrow> Some (Err e, st)
          | Inr b \<Rightarrow> window_parallel_loop threads k c a b change s n cancelled (window_start s) st)"

text \<open>The first match or error of a run, with its offset in the chunk.\<close>

fun first_hit ::
  "(u32 \<times> (derived_address option, wallet_error) result) list \<Rightarrow> (u32 \<times> (derived_address, wallet_error) result) option" where
  "first_hit [] = None"
| "first_hit ((offset, Inr (Some address)) # xs) = Some (offset, Ok address)"
| "first_hit ((offset, Inr None) # xs) = first_hit xs"
| "first_hit ((offset, Inl e) # xs) = Some (offset, Err e)"

fun find_map_first :: "('a \<Rightarrow> 'b option) \<Rightarrow> 'a list \<Rightarrow> 'b option" where
  "find_map_first f [] = None"
| "find_map_first f (x # xs) = (case f x of None \<Rightarrow> find_map_first f xs | Some y \<Rightarrow> Some y)"

definition chunk_hit ::
  "('pt, 'ec, 'sc, 'sk) k256 \<Rightarrow> ('pt, 'pj, 'af, 'sk, 'xp) hd_crates \<Rightarrow> 'xp account_public \<Rightarrow> 'pt scan_branch \<Rightarrow> bool \<Rightarrow> zone \<Rightarrow>
     u32 \<Rightarrow> u32 \<Rightarrow> (u32 \<times> (derived_address, wallet_error) result) option" where
  "chunk_hit k c a b change zone base width =
     find_map_first (\<lambda>run. first_hit (map (\<lambda>(offset, r). (run * SCAN_BATCH + word_of_nat offset, r))
       (enumerate 0 (pool_run k c a b change zone base width run)))) (pool_runs width)"

partial_function (option) search_parallel_loop ::
  "u32 \<Rightarrow> ('pt, 'ec, 'sc, 'sk) k256 \<Rightarrow> ('pt, 'pj, 'af, 'sk, 'xp) hd_crates \<Rightarrow> 'xp account_public \<Rightarrow> 'pt scan_branch \<Rightarrow> bool \<Rightarrow>
     search_request \<Rightarrow> ('s \<Rightarrow> bool \<times> 's) \<Rightarrow> u32 \<Rightarrow> 's \<Rightarrow> ((search_result, wallet_error) result \<times> 's) option" where
  "search_parallel_loop chunk k c a b change s cancelled examined st =
     (if \<not> examined < se_max_attempts s
      then Some (Err (WaSearchExhausted examined
        (Option.bind (checked_add (se_start_index s) examined) (\<lambda>i. if i < HARDENED then Some i else None))), st)
      else case cancelled st of (stop, st') \<Rightarrow>
        if stop
        then Some (rbind (ok_or (Option.bind (checked_add (se_start_index s) examined)
            (\<lambda>i. if i < HARDENED then Some i else None)) (WaSearchExhausted examined None))
          (\<lambda>i. Err (WaCancelled examined i)), st')
        else case checked_add (se_start_index s) examined of
          None \<Rightarrow> Some (Err (WaSearchExhausted examined None), st')
        | Some base \<Rightarrow>
            (let width = min (min chunk (se_max_attempts s - examined)) (if base \<le> HARDENED then HARDENED - base else 0)
             in if width = 0 then Some (Err (WaSearchExhausted examined None), st')
                else case chunk_hit k c a b change (se_zone s) base width of
                  Some (offset, Inl e) \<Rightarrow> Some (Err e, st')
                | Some (offset, Inr address) \<Rightarrow>
                    Some (Ok \<lparr>sr_address = address, sr_attempts = examined + offset + 1,
                      sr_next_index = next_after (base + offset)\<rparr>, st')
                | None \<Rightarrow> search_parallel_loop chunk k c a b change s cancelled (examined + width) st'))"

definition search_parallel ::
  "nat \<Rightarrow> ('pt, 'ec, 'sc, 'sk) k256 \<Rightarrow> ('pt, 'pj, 'af, 'sk, 'xp) hd_crates \<Rightarrow> 'xp account_public \<Rightarrow> bool \<Rightarrow> search_request \<Rightarrow>
     ('s \<Rightarrow> bool \<times> 's) \<Rightarrow> 's \<Rightarrow> ((search_result, wallet_error) result \<times> 's) option" where
  "search_parallel threads k c a change s cancelled st =
     (case child_number c (se_start_index s) False of
        Inl e \<Rightarrow> Some (Err e, st)
      | Inr _ \<Rightarrow>
          if se_max_attempts s = 0 \<or> 10000000 < se_max_attempts s then Some (Err WaInvalidSearchLimit, st)
          else case account_branch k c a change of
            Inl e \<Rightarrow> Some (Err e, st)
          | Inr b \<Rightarrow>
              search_parallel_loop (pool_chunk threads CHUNK_PER_THREAD MAX_CHUNK) k c a b change s cancelled 0 st)"

section \<open>The sliced scan\<close>

text \<open>Yielding to the executor between slices does not change the values of the search.\<close>

definition window_slice ::
  "nat \<Rightarrow> ('pt, 'ec, 'sc, 'sk) k256 \<Rightarrow> ('pt, 'pj, 'af, 'sk, 'xp) hd_crates \<Rightarrow> 'xp account_public \<Rightarrow> bool \<Rightarrow> grinding \<Rightarrow>
     search_request \<Rightarrow> nat \<Rightarrow> ('s \<Rightarrow> bool \<times> 's) \<Rightarrow> window \<Rightarrow> u32 \<Rightarrow> 's \<Rightarrow> ((window, wallet_error) result \<times> 's) option" where
  "window_slice threads k c a change grinding s n cancelled w start_index st =
     (let remaining = se_max_attempts s - sw_attempts w; wanted = n - length (sw_addresses w)
      in case grinding of
           Sequential \<Rightarrow> search_window k c a change
             \<lparr>se_zone = se_zone s, se_start_index = start_index, se_max_attempts = min remaining SEQUENTIAL_SLICE\<rparr>
             wanted cancelled st
         | Parallel \<Rightarrow> search_window_parallel threads k c a change
             \<lparr>se_zone = se_zone s, se_start_index = start_index,
              se_max_attempts = min remaining
                (word_of_nat (min (unat (window_chunk threads) * unat PARALLEL_SLICE_CHUNKS) (2 ^ 32 - 1)))\<rparr>
             wanted cancelled st)"

partial_function (option) search_async_loop ::
  "nat \<Rightarrow> ('pt, 'ec, 'sc, 'sk) k256 \<Rightarrow> ('pt, 'pj, 'af, 'sk, 'xp) hd_crates \<Rightarrow> 'xp account_public \<Rightarrow> bool \<Rightarrow> grinding \<Rightarrow>
     search_request \<Rightarrow> nat \<Rightarrow> ('s \<Rightarrow> bool \<times> 's) \<Rightarrow> window \<Rightarrow> 's \<Rightarrow> ((window, wallet_error) result \<times> 's) option" where
  "search_async_loop threads k c a change grinding s n cancelled w st =
     (case sw_next_index w of
        None \<Rightarrow> Some (Ok w, st)
      | Some start_index \<Rightarrow>
          Option.bind (window_slice threads k c a change grinding s n cancelled w start_index st) (\<lambda>(r, st').
            case r of
              Inl e \<Rightarrow> Some (Err e, st')
            | Inr part \<Rightarrow>
                (let w' = w\<lparr>sw_addresses := sw_addresses w @ sw_addresses part,
                     sw_attempts := sw_attempts w + sw_attempts part, sw_next_index := sw_next_index part\<rparr>
                 in if sw_stop part \<noteq> Exhausted \<or> sw_attempts w' = se_max_attempts s
                    then Some (Ok (w'\<lparr>sw_stop := sw_stop part\<rparr>), st')
                    else search_async_loop threads k c a change grinding s n cancelled w' st')))"

definition search_window_async ::
  "nat \<Rightarrow> ('pt, 'ec, 'sc, 'sk) k256 \<Rightarrow> ('pt, 'pj, 'af, 'sk, 'xp) hd_crates \<Rightarrow> 'xp account_public \<Rightarrow> bool \<Rightarrow> grinding \<Rightarrow>
     search_request \<Rightarrow> nat \<Rightarrow> ('s \<Rightarrow> bool \<times> 's) \<Rightarrow> 's \<Rightarrow> ((window, wallet_error) result \<times> 's) option" where
  "search_window_async threads k c a change grinding s n cancelled st =
     (if n = 0 \<or> se_max_attempts s = 0 \<or> 10000000 < se_max_attempts s then Some (Err WaInvalidSearchLimit, st)
      else search_async_loop threads k c a change grinding s n cancelled (window_start s) st)"

section \<open>The reference scan\<close>

text \<open>One candidate after the other, each after its own cancellation check.\<close>

definition take_candidate ::
  "nat \<Rightarrow> window \<Rightarrow> u32 \<Rightarrow> (derived_address option, wallet_error) result \<Rightarrow> (window, wallet_error) result" where
  "take_candidate n w index r =
     rbind r (\<lambda>m.
       let w = w\<lparr>sw_attempts := sw_attempts w + 1, sw_next_index := next_after index\<rparr>
       in case m of
            None \<Rightarrow> Ok w
          | Some address \<Rightarrow>
              let w = w\<lparr>sw_addresses := sw_addresses w @ [address]\<rparr>
              in Ok (if length (sw_addresses w) = n then w\<lparr>sw_stop := Filled\<rparr> else w))"

primrec scan ::
  "(u32 \<Rightarrow> (derived_address option, wallet_error) result) \<Rightarrow> nat \<Rightarrow> ('s \<Rightarrow> bool \<times> 's) \<Rightarrow> u32 list \<Rightarrow> window \<Rightarrow> 's \<Rightarrow>
     (window, wallet_error) result \<times> 's" where
  "scan f n cancelled [] w st = (Ok w, st)"
| "scan f n cancelled (i # is) w st =
     (case cancelled st of (stop, st') \<Rightarrow>
        if stop then (Ok (w\<lparr>sw_stop := WindowCancelled\<rparr>), st')
        else case take_candidate n w i (f i) of
          Inl e \<Rightarrow> (Err e, st')
        | Inr w' \<Rightarrow> if sw_stop w' = Filled then (Ok w', st') else scan f n cancelled is w' st')"

definition candidate ::
  "('pt, 'ec, 'sc, 'sk) k256 \<Rightarrow> ('pt, 'pj, 'af, 'sk, 'xp) hd_crates \<Rightarrow> 'xp account_public \<Rightarrow> 'pt scan_branch \<Rightarrow> bool \<Rightarrow> zone \<Rightarrow>
     u32 \<Rightarrow> (derived_address option, wallet_error) result" where
  "candidate k c a b change zone i = classify k a change zone i (child_public_key c b i)"

text \<open>The candidates a window has left: within its attempts and below the hardened indexes.\<close>

definition pending :: "search_request \<Rightarrow> window \<Rightarrow> u32 list" where
  "pending s w =
     (case sw_next_index w of
        None \<Rightarrow> []
      | Some i \<Rightarrow> u32_range i (min (unat (se_max_attempts s) - unat (sw_attempts w)) (2 ^ 31 - unat i)))"

definition reference_window ::
  "('pt, 'ec, 'sc, 'sk) k256 \<Rightarrow> ('pt, 'pj, 'af, 'sk, 'xp) hd_crates \<Rightarrow> 'xp account_public \<Rightarrow> bool \<Rightarrow> search_request \<Rightarrow> nat \<Rightarrow>
     ('s \<Rightarrow> bool \<times> 's) \<Rightarrow> 's \<Rightarrow> (window, wallet_error) result \<times> 's" where
  "reference_window k c a change s n cancelled st =
     (case child_number c (se_start_index s) False of
        Inl e \<Rightarrow> (Err e, st)
      | Inr _ \<Rightarrow>
          if n = 0 \<or> se_max_attempts s = 0 \<or> 10000000 < se_max_attempts s then (Err WaInvalidSearchLimit, st)
          else case account_branch k c a change of
            Inl e \<Rightarrow> (Err e, st)
          | Inr b \<Rightarrow> scan (candidate k c a b change (se_zone s)) n cancelled (pending s (window_start s)) (window_start s) st)"

definition window_ok :: "window \<Rightarrow> bool" where
  "window_ok w \<longleftrightarrow> (\<forall>i. sw_next_index w = Some i \<longrightarrow> unat i < 2 ^ 31)"

section \<open>Every window scan is the reference scan\<close>

lemma child_public_key_error: "child_public_key c b i \<noteq> Err WaInvalidDerivedAddress"
  by (auto simp: child_public_key_def branch_tweak_def result_simps Let_def)

lemma examine_candidate:
  "window_examine k a change zone n w i (child_public_key c b i) = take_candidate n w i (candidate k c a b change zone i)"
  using child_public_key_error [of c b i]
  by (cases "child_public_key c b i")
    (auto simp: window_examine_def take_candidate_def candidate_def classify_def Let_def split: sum.splits)

lemma unat_u32_Suc: "unat (i :: u32) < 2 ^ 31 \<Longrightarrow> unat (i + 1) = Suc (unat i)"
  using unat_add_exact [of i 1] by simp

lemma next_after_eq: "unat i < 2 ^ 31 \<Longrightarrow> next_after i = (if unat i + 1 = 2 ^ 31 then None else Some (i + 1))"
  using unat_u32_Suc [of i] by (auto simp: next_after_def checked_add_def word_less_nat_alt)

lemma attempts_Suc: "(n :: u32) < m \<Longrightarrow> unat (n + 1) = Suc (unat n)"
proof -
  assume n: "n < m"
  have "unat n + 1 < 2 ^ LENGTH(32)"
    using n unsigned_less [of m, where ?'a = nat] by (simp add: word_less_nat_alt del: unsigned_less)
  then show ?thesis using unat_add_exact [of n 1] by simp
qed

lemma pending_Nil: "window_ok w \<Longrightarrow> pending s w = [] \<longleftrightarrow> \<not> sw_attempts w < se_max_attempts s \<or> sw_next_index w = None"
  by (auto simp: pending_def window_ok_def word_less_nat_alt u32_range_def split: option.splits)

lemma take_candidate_next:
  assumes "take_candidate n w i r = Ok w'"
  shows "sw_attempts w' = sw_attempts w + 1" "sw_next_index w' = next_after i" "sw_stop w' = Filled \<or> sw_stop w' = sw_stop w"
proof -
  obtain m where "r = Ok m" using assms by (cases r) (simp_all add: take_candidate_def)
  then have "sw_attempts w' = sw_attempts w + 1 \<and> sw_next_index w' = next_after i \<and>
      (sw_stop w' = Filled \<or> sw_stop w' = sw_stop w)"
    using assms by (cases m) (auto simp: take_candidate_def Let_def)
  then show "sw_attempts w' = sw_attempts w + 1" "sw_next_index w' = next_after i" "sw_stop w' = Filled \<or> sw_stop w' = sw_stop w"
    by simp_all
qed

lemma pending_step:
  assumes w: "window_ok w" and p: "pending s w = i # is" and r: "take_candidate n w i r = Ok w'"
  shows "pending s w' = is \<and> window_ok w'"
proof -
  obtain j where j: "sw_next_index w = Some j" "unat j < 2 ^ 31" using w p by (auto simp: pending_def window_ok_def split: option.splits)
  have lt: "sw_attempts w < se_max_attempts s" using p pending_Nil [OF w, of s] by auto
  then have "unat (sw_attempts w) < unat (se_max_attempts s)" by (simp add: word_less_nat_alt)
  then obtain m where m: "unat (se_max_attempts s) - unat (sw_attempts w) = Suc m" by (metis Suc_diff_Suc)
  obtain q where q: "2 ^ 31 - unat j = Suc q" using j(2) by (metis Suc_diff_Suc)
  have "pending s w = j # u32_range (j + 1) (min m q)"
    by (simp only: pending_def j(1) option.case m q min_Suc_Suc u32_range_Suc)
  then have ij: "i = j" "is = u32_range (j + 1) (min m q)" using p by simp_all
  note t = take_candidate_next [OF r]
  have a: "unat (se_max_attempts s) - unat (sw_attempts w') = m" using m by (simp add: t(1) attempts_Suc [OF lt])
  show ?thesis
  proof (cases "unat j + 1 = 2 ^ 31")
    case True
    then have "q = 0" using q by simp
    then show ?thesis using True j(2) by (simp add: pending_def window_ok_def t(2) ij next_after_eq)
  next
    case False
    then have n: "next_after j = Some (j + 1)" and le: "unat (j + 1) < 2 ^ 31" "2 ^ 31 - unat (j + 1) = q"
      using j(2) q by (simp_all add: next_after_eq unat_u32_Suc)
    have "pending s w' = is" by (simp only: pending_def t(2) ij n option.case a le)
    then show ?thesis using le by (simp add: window_ok_def t(2) ij n)
  qed
qed

lemma unat_min_word: "unat (min a b) = min (unat a) (unat (b :: 'a::len word))"
  by (simp add: min_def word_le_nat_alt)

lemma take_u32_range: "take m (u32_range i n) = u32_range i (min m n)"
  by (rule nth_equalityI) (simp_all add: min.commute)

lemma pending_Cons:
  assumes w: "window_ok w" and p: "pending s w = i # is"
  shows "sw_attempts w < se_max_attempts s" "sw_next_index w = Some i" "unat i < 2 ^ 31"
proof -
  show "sw_attempts w < se_max_attempts s" using p pending_Nil [OF w, of s] by auto
  obtain j where j: "sw_next_index w = Some j" using p by (auto simp: pending_def split: option.splits)
  then show "sw_next_index w = Some i"
    using p by (cases "min (unat (se_max_attempts s) - unat (sw_attempts w)) (2 ^ 31 - unat j)") (simp_all add: pending_def u32_range_Suc)
  then show "unat i < 2 ^ 31" using w by (simp add: window_ok_def)
qed

text \<open>The width of a batch or chunk, and the candidates it covers.\<close>

lemma chunk_width:
  fixes x :: u32
  assumes w: "window_ok w" and p: "pending s w = i # is"
  defines "width \<equiv> min (min x (se_max_attempts s - sw_attempts w)) (HARDENED - i)"
  shows "u32_range i (unat width) = take (unat x) (pending s w)" and "0 < unat x \<Longrightarrow> 0 < unat width"
    and "unat i + unat width \<le> 2 ^ 31"
proof -
  note c = pending_Cons [OF w p]
  have "unat (se_max_attempts s - sw_attempts w) = unat (se_max_attempts s) - unat (sw_attempts w)"
    using c(1) by (intro unat_sub) simp
  moreover have "unat (HARDENED - i) = 2 ^ 31 - unat i"
    using c(3) unat_sub [of i HARDENED] by (simp add: word_le_nat_alt)
  ultimately have u: "unat width = min (min (unat x) (unat (se_max_attempts s) - unat (sw_attempts w))) (2 ^ 31 - unat i)"
    by (simp only: width_def unat_min_word)
  then show "u32_range i (unat width) = take (unat x) (pending s w)"
    by (simp only: pending_def c(2) option.case take_u32_range min.assoc)
  show "0 < unat width" if "0 < unat x" using that u c(1,3) by (simp add: word_less_nat_alt)
  show "unat i + unat width \<le> 2 ^ 31" using u c(3) by simp
qed

lemma search_window_loop_scan:
  assumes "curve_ok c" and "window_ok w" and "sw_stop w = Exhausted"
    and "batch = map (child_public_key c b) (take (length batch) (pending s w))"
  shows "search_window_loop k c a b change s n cancelled w batch st =
    Some (scan (candidate k c a b change (se_zone s)) n cancelled (pending s w) w st)"
  using assms(2-)
proof (induction "pending s w" arbitrary: w batch st)
  case Nil
  then show ?case using pending_Nil [OF Nil.prems(1), of s]
    by (subst search_window_loop.simps) (auto split: option.split)
next
  case (Cons i "is")
  note p = Cons.hyps(2) [symmetric]
  note h = pending_Cons [OF Cons.prems(1) p]
  define full where "full = (if batch = []
    then child_public_keys c b i (min (min SCAN_BATCH (se_max_attempts s - sw_attempts w)) (HARDENED - i)) else batch)"
  have "\<exists>m. full = map (child_public_key c b) (i # take m is)"
  proof (cases "batch = []")
    case True
    have s: "0 < unat SCAN_BATCH" by (simp add: SCAN_BATCH_def)
    note w = chunk_width [OF Cons.prems(1) p, of SCAN_BATCH]
    have "full = map (child_public_key c b) (take (unat SCAN_BATCH) (pending s w))"
      using True child_public_keys_map [OF assms(1)] w(1,3) by (simp add: full_def)
    then show ?thesis using s unfolding p by (cases "unat SCAN_BATCH") auto
  next
    case False
    then have "full = map (child_public_key c b) (take (length batch) (i # is))"
      using Cons.prems(3) by (simp add: full_def p)
    then show ?thesis using False by (cases "length batch") auto
  qed
  then obtain m where m: "full = child_public_key c b i # map (child_public_key c b) (take m is)" by auto
  obtain stop st' where st: "cancelled st = (stop, st')" by (cases "cancelled st")
  show ?case
  proof (cases "take_candidate n w i (candidate k c a b change (se_zone s) i)")
    case (Inl e)
    show ?thesis
      by (subst search_window_loop.simps) (simp add: h p st full_def [symmetric] m examine_candidate Inl)
  next
    case (Inr w')
    have next_ok: "pending s w' = is" "window_ok w'" using pending_step [OF Cons.prems(1) p Inr] by simp_all
    have stop: "sw_stop w' = Filled \<or> sw_stop w' = Exhausted" using take_candidate_next(3) [OF Inr] Cons.prems(2) by simp
    define rest where "rest = map (child_public_key c b) (take m is)"
    have rest: "rest = map (child_public_key c b) (take (length rest) (pending s w'))" by (simp add: rest_def next_ok min_def)
    have "sw_stop w' \<noteq> Filled \<Longrightarrow> search_window_loop k c a b change s n cancelled w' rest st' =
        Some (scan (candidate k c a b change (se_zone s)) n cancelled is w' st')"
      using Cons.hyps(1) [OF next_ok(1) [symmetric] next_ok(2) _ rest] stop next_ok(1) by simp
    then show ?thesis
      by (subst search_window_loop.simps)
        (simp add: h p st full_def [symmetric] m examine_candidate Inr rest_def [symmetric])
  qed
qed

lemma window_start_ok:
  assumes "child_numbers_ok c" and "child_number c (se_start_index s) False = Ok m"
  shows "window_ok (window_start s)" "sw_stop (window_start s) = Exhausted"
proof -
  have "c_child_number c (se_start_index s) False \<noteq> None" using assms(2) by (auto simp: child_number_def result_simps)
  then have "\<not> 2 ^ 31 \<le> unat (se_start_index s)" using assms(1) by (simp only: child_numbers_ok_def) blast
  then show "window_ok (window_start s)" "sw_stop (window_start s) = Exhausted" by (simp_all add: window_ok_def window_start_def)
qed

lemma search_window_reference:
  assumes "curve_ok c" and "child_numbers_ok c"
  shows "search_window k c a change s n cancelled st = Some (reference_window k c a change s n cancelled st)"
proof (cases "child_number c (se_start_index s) False")
  case (Inr m)
  note w = window_start_ok [OF assms(2) Inr]
  have "search_window_loop k c a b change s n cancelled (window_start s) [] st =
      Some (scan (candidate k c a b change (se_zone s)) n cancelled (pending s (window_start s)) (window_start s) st)" for b
    by (rule search_window_loop_scan [OF assms(1) w]) simp
  then show ?thesis using Inr
    by (cases "account_branch k c a change") (simp_all add: search_window_def reference_window_def)
qed (simp add: search_window_def reference_window_def)

section \<open>Chunks of a thread pool\<close>

lemma upt_chunks: "concat (map (\<lambda>r. [r * b..<min (Suc r * b) w]) [0..<m]) = [0..<min (m * b) w]"
proof (induction m)
  case (Suc m)
  show ?case
  proof (cases "m * b \<le> w")
    case True
    then have "[0..<min (Suc m * b) w] = [0..<m * b] @ [m * b..<min (Suc m * b) w]"
      using upt_add_eq_append [of 0 "m * b" "min (Suc m * b) w - m * b"] by simp
    then show ?thesis using Suc True by simp
  next
    case False
    then show ?thesis using Suc by (simp add: min_def)
  qed
qed simp

lemma u32_range_shift: "u32_range (i + word_of_nat m) n = map (\<lambda>j. i + word_of_nat j) [m..<m + n]"
  by (rule nth_equalityI) (simp_all add: add.assoc)

definition run_count :: "nat \<Rightarrow> nat" where
  "run_count w = w div 32 + (if w mod 32 = 0 then 0 else 1)"

lemma run_count_bounds: "r < run_count w \<Longrightarrow> r * 32 < w" "w \<le> run_count w * 32"
proof -
  define q d where "q = w div 32" and "d = w mod 32"
  have w: "w = q * 32 + d" and d: "d < 32" by (simp_all add: q_def d_def)
  show "w \<le> run_count w * 32" unfolding run_count_def q_def [symmetric] d_def [symmetric] using w d by simp
  show "r < run_count w \<Longrightarrow> r * 32 < w"
    unfolding run_count_def q_def [symmetric] d_def [symmetric] using w by (simp split: if_splits)
qed

lemma pool_runs_count:
  assumes "unat width \<le> 2 ^ 31"
  shows "pool_runs width = map word_of_nat [0..<run_count (unat width)]"
proof -
  have d: "unat (width div SCAN_BATCH) = unat width div 32" "unat (width mod SCAN_BATCH) = unat width mod 32"
    by (simp_all add: SCAN_BATCH_def unat_div unat_mod)
  have "unat (width div SCAN_BATCH + 1) = unat (width div SCAN_BATCH) + 1"
    using d(1) assms by (subst unat_add_exact) simp_all
  then have "unat (width div SCAN_BATCH + (if width mod SCAN_BATCH = 0 then 0 else 1)) = run_count (unat width)"
    using d by (simp add: run_count_def unat_eq_0 [symmetric])
  then show ?thesis by (simp add: pool_runs_def)
qed

lemma run_concat:
  assumes "\<And>r. r < run_count w \<Longrightarrow> g r = map h [r * 32..<min (Suc r * 32) w]"
  shows "concat (map g [0..<run_count w]) = map h [0..<w]"
proof -
  have "concat (map g [0..<run_count w]) = concat (map (\<lambda>r. map h [r * 32..<min (Suc r * 32) w]) [0..<run_count w])"
    using assms by (intro arg_cong [of _ _ concat] map_cong) simp_all
  also have "\<dots> = map h (concat (map (\<lambda>r. [r * 32..<min (Suc r * 32) w]) [0..<run_count w]))"
    by (simp only: map_concat map_map comp_def)
  finally show ?thesis using run_count_bounds(2) [of w] by (simp only: upt_chunks min_absorb2)
qed

lemma pool_run_map:
  assumes "curve_ok c" and base: "unat base + unat width \<le> 2 ^ 31" and r: "r < run_count (unat width)"
  shows "pool_run k c a b change zone base width (word_of_nat r) =
    map (\<lambda>j. candidate k c a b change zone (base + word_of_nat j)) [r * 32..<min (Suc r * 32) (unat width)]"
proof -
  have lt: "r * 32 < unat width" using run_count_bounds(1) [OF r] .
  have start: "word_of_nat r * SCAN_BATCH = (word_of_nat (r * 32) :: u32)" by (simp add: SCAN_BATCH_def)
  have u: "unat (word_of_nat (r * 32) :: u32) = r * 32" using lt base by (intro unat_of_nat_small) simp
  then have "unat (width - word_of_nat (r * 32)) = unat width - r * 32"
    using lt by (subst unat_sub) (simp_all add: word_le_nat_alt)
  then have w: "unat (min SCAN_BATCH (width - word_of_nat (r * 32))) = min 32 (unat width - r * 32)"
    by (simp add: unat_min_word SCAN_BATCH_def)
  have "unat (base + word_of_nat (r * 32)) = unat base + r * 32"
    using u lt base by (subst unat_add_exact) simp_all
  then have "classify_run k c a b (base + word_of_nat (r * 32)) (min SCAN_BATCH (width - word_of_nat (r * 32))) change zone =
      map (candidate k c a b change zone) (u32_range (base + word_of_nat (r * 32)) (min 32 (unat width - r * 32)))"
    using base lt w by (subst classify_run_map [OF assms(1)]) (simp_all add: candidate_def)
  moreover have "r * 32 + min 32 (unat width - r * 32) = min (Suc r * 32) (unat width)" using lt by (auto simp: min_def)
  ultimately show ?thesis by (simp only: pool_run_def Let_def start u32_range_shift map_map comp_def)
qed

lemma pool_derives:
  assumes "curve_ok c" and base: "unat base + unat width \<le> 2 ^ 31"
  shows "concat (map (pool_run k c a b change zone base width) (pool_runs width)) =
    map (candidate k c a b change zone) (u32_range base (unat width))"
proof -
  have "unat width \<le> 2 ^ 31" using base by simp
  then show ?thesis using run_concat [OF pool_run_map [OF assms]]
    by (simp add: pool_runs_count comp_def u32_range_def)
qed

definition quiet :: "('s \<Rightarrow> bool \<times> 's) \<Rightarrow> bool" where
  "quiet cancelled \<longleftrightarrow> (\<forall>st. \<not> fst (cancelled st))"

lemma quietE:
  assumes "quiet cancelled"
  obtains st' where "cancelled st = (False, st')"
proof -
  have "\<not> fst (cancelled st)" using assms by (simp add: quiet_def)
  then show thesis using that [of "snd (cancelled st)"] by (cases "cancelled st") simp
qed

lemma scan_append:
  assumes "sw_stop w = Exhausted"
  shows "scan f n cancelled (xs @ ys) w st =
    (case scan f n cancelled xs w st of
       (Inl e, st') \<Rightarrow> (Err e, st')
     | (Inr w', st') \<Rightarrow> if sw_stop w' = Exhausted then scan f n cancelled ys w' st' else (Ok w', st'))"
  using assms
proof (induction xs arbitrary: w st)
  case (Cons i xs)
  obtain stop st' where st: "cancelled st = (stop, st')" by (cases "cancelled st")
  show ?case
  proof (cases "take_candidate n w i (f i)")
    case (Inr w')
    then have "sw_stop w' = Filled \<or> sw_stop w' = Exhausted" using take_candidate_next(3) [OF Inr] Cons.prems by simp
    then show ?thesis using Cons.IH [of w' st'] by (auto simp: st Inr)
  qed (simp add: st)
qed simp

lemma scan_quiet:
  assumes "quiet cancelled" and "quiet cancelled'"
  shows "fst (scan f n cancelled is w st) = fst (scan f n cancelled' is w st')"
proof (induction "is" arbitrary: w st st')
  case (Cons i "is")
  obtain s1 where "cancelled st = (False, s1)" using assms(1) by (rule quietE)
  moreover obtain s2 where "cancelled' st' = (False, s2)" using assms(2) by (rule quietE)
  ultimately show ?case using Cons.IH by (auto split: sum.splits)
qed simp

lemma scan_prefix:
  assumes "window_ok w" and "sw_stop w = Exhausted" and "scan f n cancelled (take m (pending s w)) w st = (Ok w', st')"
    and "sw_stop w' = Exhausted"
  shows "pending s w' = drop m (pending s w) \<and> window_ok w'"
  using assms
proof (induction m arbitrary: w st)
  case (Suc m)
  show ?case
  proof (cases "pending s w")
    case (Cons i "is")
    obtain stop st1 where st: "cancelled st = (stop, st1)" by (cases "cancelled st")
    have "\<not> stop" using Suc.prems(3,4) by (auto simp: Cons st)
    then obtain w1 where w1: "take_candidate n w i (f i) = Ok w1" "sw_stop w1 \<noteq> Filled"
        "scan f n cancelled (take m is) w1 st1 = (Ok w', st')"
      using Suc.prems(3,4) by (cases "take_candidate n w i (f i)") (auto simp: Cons st split: if_splits)
    have "pending s w1 = is" "window_ok w1" using pending_step [OF Suc.prems(1) Cons w1(1)] by simp_all
    moreover have "sw_stop w1 = Exhausted" using take_candidate_next(3) [OF w1(1)] w1(2) Suc.prems(2) by simp
    ultimately show ?thesis using Suc.IH [of w1 st1] w1(3) Suc.prems(4) by (simp add: Cons)
  qed (use Suc.prems in simp)
qed simp

lemma consume_scan:
  assumes "quiet cancelled" and "sw_stop w = Exhausted"
  shows "consume_run n w (zip is (map f is)) = fst (scan f n cancelled is w st)"
  using assms(2)
proof (induction "is" arbitrary: w st)
  case (Cons i "is")
  obtain st' where st: "cancelled st = (False, st')" using assms(1) by (rule quietE)
  show ?case
  proof (cases "f i")
    case (Inr m)
    obtain w' where w': "take_candidate n w i (f i) = Ok w'" by (cases m) (simp_all add: Inr take_candidate_def Let_def)
    have stop: "sw_stop w' = Filled \<or> sw_stop w' = Exhausted" using take_candidate_next(3) [OF w'] Cons.prems by simp
    then have ih: "sw_stop w' \<noteq> Filled \<Longrightarrow> consume_run n w' (zip is (map f is)) = fst (scan f n cancelled is w' st')"
      using Cons.IH by simp
    have "consume_run n w (zip (i # is) (map f (i # is))) = (if sw_stop w' = Filled then Ok w' else consume_run n w' (zip is (map f is)))"
      using w' Cons.prems by (cases m) (auto simp: Inr take_candidate_def Let_def)
    then show ?thesis using ih by (simp add: st w')
  qed (simp add: st take_candidate_def)
qed simp

section \<open>Parallel and sliced windows\<close>

lemma scan_quiet_stop:
  assumes "quiet cancelled" and "sw_stop w = Exhausted" and "scan f n cancelled is w st = (Ok w', st')"
  shows "sw_stop w' = Filled \<or> sw_stop w' = Exhausted"
  using assms(2,3)
proof (induction "is" arbitrary: w st)
  case (Cons i "is")
  obtain st1 where st: "cancelled st = (False, st1)" using assms(1) by (rule quietE)
  obtain w1 where w1: "take_candidate n w i (f i) = Ok w1"
    using Cons.prems(2) by (cases "take_candidate n w i (f i)") (simp_all add: st)
  then show ?case using Cons.IH [of w1 st1] take_candidate_next(3) [OF w1] Cons.prems by (auto simp: st w1 split: if_splits)
qed simp

lemma window_chunk_pos: "0 < unat (window_chunk threads)" "0 < unat (pool_chunk threads m bound)"
proof -
  have "0 < unat (pool_chunk threads m bound)" for m bound
    by (simp add: pool_chunk_def MIN_CHUNK_def Let_def max_def word_le_nat_alt)
  then show "0 < unat (window_chunk threads)" "0 < unat (pool_chunk threads m bound)" by (simp_all add: window_chunk_def)
qed

lemma window_parallel_loop_scan:
  assumes "curve_ok c" and q: "quiet cancelled" and "window_ok w" and "sw_stop w = Exhausted"
  shows "\<exists>st'. window_parallel_loop threads k c a b change s n cancelled w st =
    Some (fst (scan (candidate k c a b change (se_zone s)) n cancelled (pending s w) w st), st')"
  using assms(3,4)
proof (induction "length (pending s w)" arbitrary: w st rule: less_induct)
  case less
  let ?f = "candidate k c a b change (se_zone s)"
  show ?case
  proof (cases "pending s w")
    case Nil
    then show ?thesis using pending_Nil [OF less.prems(1), of s]
      by (subst window_parallel_loop.simps) (auto split: option.split)
  next
    case (Cons i "is")
    note h = pending_Cons [OF less.prems(1) Cons]
    define width where "width = min (min (window_chunk threads) (se_max_attempts s - sw_attempts w)) (HARDENED - i)"
    note wd = chunk_width [OF less.prems(1) Cons, of "window_chunk threads", folded width_def]
    define m where "m = unat (window_chunk threads)"
    obtain st1 where st: "cancelled st = (False, st1)" using q by (rule quietE)
    have derived: "concat (map (pool_run k c a b change (se_zone s) i width) (pool_runs width)) = map ?f (take m (pending s w))"
      using pool_derives [OF assms(1) wd(3)] wd(1) by (simp add: m_def)
    have consumed: "consume_run n w (zip (u32_range i (unat width)) (map ?f (take m (pending s w)))) =
        fst (scan ?f n cancelled (take m (pending s w)) w st)"
      using consume_scan [OF q less.prems(2)] wd(1) by (simp add: m_def)
    have split: "scan ?f n cancelled (pending s w) w st = (case scan ?f n cancelled (take m (pending s w)) w st of
        (Inl e, st') \<Rightarrow> (Err e, st')
      | (Inr w', st') \<Rightarrow> if sw_stop w' = Exhausted then scan ?f n cancelled (drop m (pending s w)) w' st' else (Ok w', st'))"
      using scan_append [OF less.prems(2), of ?f n cancelled "take m (pending s w)" "drop m (pending s w)" st] by simp
    obtain r st2 where r: "scan ?f n cancelled (take m (pending s w)) w st = (r, st2)" by (cases "scan ?f n cancelled (take m (pending s w)) w st")
    have loop: "window_parallel_loop threads k c a b change s n cancelled w st = (case r of
        Inl e \<Rightarrow> Some (Err e, st1)
      | Inr w' \<Rightarrow> if sw_stop w' = Filled then Some (Ok w', st1)
          else window_parallel_loop threads k c a b change s n cancelled w' st1)"
      by (subst window_parallel_loop.simps)
        (simp add: h st Let_def width_def [symmetric] derived consumed r)
    show ?thesis
    proof (cases r)
      case (Inl e)
      then show ?thesis using loop split r by simp
    next
      case (Inr w')
      show ?thesis
      proof (cases "sw_stop w' = Filled")
        case True
        then show ?thesis using loop split r Inr by simp
      next
        case False
        then have ex: "sw_stop w' = Exhausted" using scan_quiet_stop [OF q less.prems(2)] r Inr by blast
        have p: "pending s w' = drop m (pending s w)" "window_ok w'"
          using scan_prefix [OF less.prems r [unfolded Inr] ex] by simp_all
        have "length (pending s w') < length (pending s w)" using window_chunk_pos(1) [of threads] by (simp add: p m_def Cons)
        then obtain st' where "window_parallel_loop threads k c a b change s n cancelled w' st1 =
            Some (fst (scan ?f n cancelled (pending s w') w' st1), st')"
          using less.hyps p(2) ex by blast
        then show ?thesis using loop split r Inr False ex p(1) scan_quiet [OF q q, of ?f n "pending s w'" w' st1 st2] by simp
      qed
    qed
  qed
qed

lemma window_parallel_reference:
  assumes "curve_ok c" and "child_numbers_ok c" and "quiet cancelled"
  shows "\<exists>st'. search_window_parallel threads k c a change s n cancelled st =
    Some (fst (reference_window k c a change s n cancelled st), st')"
proof (cases "child_number c (se_start_index s) False")
  case (Inr m)
  note w = window_start_ok [OF assms(2) Inr]
  show ?thesis
  proof (cases "account_branch k c a change")
    case (Inr b)
    then show ?thesis
      using \<open>child_number c (se_start_index s) False = Inr m\<close>
        window_parallel_loop_scan [OF assms(1,3) w, of threads k a b change s n st]
      by (auto simp: search_window_parallel_def reference_window_def)
  qed (use Inr in \<open>auto simp: search_window_parallel_def reference_window_def\<close>)
qed (auto simp: search_window_parallel_def reference_window_def)

text \<open>A slice continues a window: its part is appended to what was found before.\<close>

definition window_merge :: "window \<Rightarrow> window \<Rightarrow> window" where
  "window_merge u v = u\<lparr>sw_addresses := sw_addresses u @ sw_addresses v, sw_attempts := sw_attempts u + sw_attempts v,
     sw_next_index := sw_next_index v, sw_stop := sw_stop v\<rparr>"

lemma window_merge_simps [simp]:
  "sw_addresses (window_merge u v) = sw_addresses u @ sw_addresses v"
  "sw_attempts (window_merge u v) = sw_attempts u + sw_attempts v"
  "sw_next_index (window_merge u v) = sw_next_index v" "sw_stop (window_merge u v) = sw_stop v"
  by (simp_all add: window_merge_def)

lemma take_candidate_merge:
  assumes "n = length (sw_addresses u) + n'"
  shows "take_candidate n (window_merge u v) i r =
    (case take_candidate n' v i r of Inl e \<Rightarrow> Err e | Inr w \<Rightarrow> Ok (window_merge u w))"
proof (cases r)
  case (Inr m)
  then show ?thesis
    using assms by (cases m) (simp_all add: take_candidate_def window_merge_def Let_def add.assoc)
qed (simp add: take_candidate_def)

lemma scan_merge:
  assumes "n = length (sw_addresses u) + n'"
  shows "scan f n cancelled is (window_merge u v) st =
    (case scan f n' cancelled is v st of (Inl e, st') \<Rightarrow> (Err e, st') | (Inr w, st') \<Rightarrow> (Ok (window_merge u w), st'))"
proof (induction "is" arbitrary: v st)
  case (Cons i "is")
  obtain stop st' where st: "cancelled st = (stop, st')" by (cases "cancelled st")
  have m: "(window_merge u v)\<lparr>sw_stop := WindowCancelled\<rparr> = window_merge u (v\<lparr>sw_stop := WindowCancelled\<rparr>)"
    by (simp add: window_merge_def)
  show ?case
    using Cons.IH by (cases "take_candidate n' v i (f i)") (simp_all add: st take_candidate_merge [OF assms] m)
qed simp

lemma scan_bounds:
  assumes "window_ok w" and "sw_stop w = Exhausted" and "scan f n cancelled (take m (pending s w)) w st = (Ok w', st')"
    and "sw_stop w' = Exhausted" and "length (sw_addresses w) < n" and "sw_attempts w \<le> se_max_attempts s"
  shows "length (sw_addresses w') < n \<and> sw_attempts w' \<le> se_max_attempts s"
  using assms
proof (induction m arbitrary: w st)
  case (Suc m)
  show ?case
  proof (cases "pending s w")
    case (Cons i "is")
    note h = pending_Cons [OF Suc.prems(1) Cons]
    obtain stop st1 where st: "cancelled st = (stop, st1)" by (cases "cancelled st")
    have "\<not> stop" using Suc.prems(3,4) by (auto simp: Cons st)
    then obtain w1 where w1: "take_candidate n w i (f i) = Ok w1" "sw_stop w1 \<noteq> Filled"
        "scan f n cancelled (take m is) w1 st1 = (Ok w', st')"
      using Suc.prems(3,4) by (cases "take_candidate n w i (f i)") (auto simp: Cons st split: if_splits)
    have p: "pending s w1 = is" "window_ok w1" using pending_step [OF Suc.prems(1) Cons w1(1)] by simp_all
    have x: "sw_stop w1 = Exhausted" using take_candidate_next(3) [OF w1(1)] w1(2) Suc.prems(2) by simp
    have a: "sw_attempts w1 \<le> se_max_attempts s"
      using h(1) attempts_Suc [OF h(1)] by (simp add: take_candidate_next(1) [OF w1(1)] word_le_nat_alt word_less_nat_alt)
    obtain y where y: "f i = Ok y" using w1(1) by (cases "f i") (simp_all add: take_candidate_def)
    have "length (sw_addresses w1) < n"
      using w1(1,2) Suc.prems(5) by (cases y) (auto simp: take_candidate_def y Let_def split: if_splits)
    then show ?thesis using Suc.IH [OF p(2) x _ Suc.prems(4) _ a] w1(3) p(1) by simp
  qed (use Suc.prems in simp)
qed simp

text \<open>The slice a window is continued with, for either way of grinding.\<close>

definition slice_limit :: "nat \<Rightarrow> grinding \<Rightarrow> u32" where
  "slice_limit threads grinding = (case grinding of Sequential \<Rightarrow> SEQUENTIAL_SLICE
     | Parallel \<Rightarrow> word_of_nat (min (unat (window_chunk threads) * unat PARALLEL_SLICE_CHUNKS) (2 ^ 32 - 1)))"

lemma slice_limit_pos: "0 < unat (slice_limit threads grinding)"
proof (cases grinding)
  case Parallel
  define x where "x = min (unat (window_chunk threads) * unat PARALLEL_SLICE_CHUNKS) (2 ^ 32 - 1 :: nat)"
  have "0 < x" using window_chunk_pos(1) [of threads] by (simp add: x_def PARALLEL_SLICE_CHUNKS_def)
  moreover have "unat (word_of_nat x :: u32) = x" by (rule unat_of_nat_small) (simp add: x_def)
  ultimately show ?thesis by (simp only: slice_limit_def Parallel grinding.case x_def [symmetric])
qed (simp add: slice_limit_def SEQUENTIAL_SLICE_def)

lemma window_slice_scan:
  fixes threads :: nat
  assumes ok: "curve_ok c" "child_numbers_ok c" and b: "account_branch k c a change = Ok b"
    and g: "grinding = Sequential \<or> quiet cancelled" and w: "window_ok w" and p: "pending s w = i # is"
    and n: "length (sw_addresses w) < n" and lim: "se_max_attempts s \<le> 10000000" and ex: "sw_stop w = Exhausted"
  defines "f \<equiv> candidate k c a b change (se_zone s)" and "m \<equiv> unat (slice_limit threads grinding)"
  shows "\<exists>r st'. window_slice threads k c a change grinding s n cancelled w i st = Some (r, st') \<and>
    fst (scan f n cancelled (take m (pending s w)) w st) = (case r of Inl e \<Rightarrow> Err e | Inr part \<Rightarrow> Ok (window_merge w part)) \<and>
    (grinding = Sequential \<longrightarrow> st' = snd (scan f n cancelled (take m (pending s w)) w st))"
proof -
  note h = pending_Cons [OF w p]
  define s' where "s' = \<lparr>se_zone = se_zone s, se_start_index = i,
    se_max_attempts = min (se_max_attempts s - sw_attempts w) (slice_limit threads grinding)\<rparr>"
  have s'f: "se_start_index s' = i" "se_zone s' = se_zone s" by (simp_all add: s'_def)
  define n' where "n' = n - length (sw_addresses w)"
  have n': "n' \<noteq> 0" "n = length (sw_addresses w) + n'" using n by (simp_all add: n'_def)
  have rem: "unat (se_max_attempts s - sw_attempts w) = unat (se_max_attempts s) - unat (sw_attempts w)"
    using h(1) by (intro unat_sub) simp
  have um: "unat (se_max_attempts s') = min (unat (se_max_attempts s) - unat (sw_attempts w)) m"
    by (simp add: s'_def unat_min_word rem m_def)
  have "0 < unat (se_max_attempts s')" using h(1) slice_limit_pos [of threads grinding] by (simp add: um word_less_nat_alt m_def)
  then have s'0: "se_max_attempts s' \<noteq> 0" by auto
  have "unat (se_max_attempts s') \<le> unat (se_max_attempts s)" by (simp add: um)
  then have s'1: "\<not> 10000000 < se_max_attempts s'" using lim by (simp add: word_less_nat_alt word_le_nat_alt)
  have "c_child_number c i False \<noteq> None" using ok(2) h(3) unfolding child_numbers_ok_def by (meson not_le)
  then obtain x where x: "child_number c i False = Ok x" by (auto simp: child_number_def)
  have v: "pending s' (window_start s') = take m (pending s w)"
  proof -
    have "pending s' (window_start s') = u32_range i (min (unat (se_max_attempts s')) (2 ^ 31 - unat i))"
      by (simp add: pending_def window_start_def s'_def)
    also have "\<dots> = take m (pending s w)"
      unfolding um pending_def h(2) option.case take_u32_range by (simp only: min.commute min.left_commute min.assoc)
    finally show ?thesis .
  qed
  have merge: "window_merge w (window_start s') = w" using h(2) ex by (simp add: window_merge_def window_start_def s'_def)
  have ref: "reference_window k c a change s' n' cancelled st = scan f n' cancelled (take m (pending s w)) (window_start s') st"
    using x n'(1) s'0 s'1 b s'f by (simp add: reference_window_def v f_def)
  obtain r st2 where r: "scan f n' cancelled (take m (pending s w)) (window_start s') st = (r, st2)"
    by (cases "scan f n' cancelled (take m (pending s w)) (window_start s') st")
  have big: "scan f n cancelled (take m (pending s w)) w st = (case r of Inl e \<Rightarrow> (Err e, st2) | Inr part \<Rightarrow> (Ok (window_merge w part), st2))"
    using scan_merge [OF n'(2), of f cancelled "take m (pending s w)" "window_start s'" st] by (simp add: merge r)
  show ?thesis
  proof (cases grinding)
    case Sequential
    then have "window_slice threads k c a change grinding s n cancelled w i st = Some (r, st2)"
      using search_window_reference [OF ok, of k a change s' n' cancelled st] ref r
      by (simp add: window_slice_def Let_def s'_def n'_def slice_limit_def)
    then show ?thesis using big by (cases r) simp_all
  next
    case Parallel
    then have "quiet cancelled" using g by simp
    from window_parallel_reference [OF ok this, of threads k a change s' n' st] obtain st' where
      "search_window_parallel threads k c a change s' n' cancelled st = Some (r, st')" using ref r by auto
    then have "window_slice threads k c a change grinding s n cancelled w i st = Some (r, st')"
      by (simp add: window_slice_def Let_def s'_def n'_def slice_limit_def Parallel)
    then show ?thesis using big Parallel by (cases r) simp_all
  qed
qed

lemma search_async_loop_scan:
  assumes ok: "curve_ok c" "child_numbers_ok c" and b: "account_branch k c a change = Ok b"
    and g: "grinding = Sequential \<or> quiet cancelled" and lim: "se_max_attempts s \<le> 10000000"
    and w: "window_ok w" "sw_stop w = Exhausted" "length (sw_addresses w) < n" "sw_attempts w < se_max_attempts s"
  shows "\<exists>r st'. search_async_loop threads k c a change grinding s n cancelled w st = Some (r, st') \<and>
    r = fst (scan (candidate k c a b change (se_zone s)) n cancelled (pending s w) w st) \<and>
    (grinding = Sequential \<longrightarrow> st' = snd (scan (candidate k c a b change (se_zone s)) n cancelled (pending s w) w st))"
  using w
proof (induction "length (pending s w)" arbitrary: w st rule: less_induct)
  case less
  let ?f = "candidate k c a b change (se_zone s)" and ?m = "unat (slice_limit threads grinding)"
  show ?case
  proof (cases "pending s w")
    case Nil
    then have "sw_next_index w = None" using pending_Nil [OF less.prems(1), of s] less.prems(4) by simp
    then show ?thesis using Nil by (subst search_async_loop.simps) simp
  next
    case (Cons i "is")
    note h = pending_Cons [OF less.prems(1) Cons]
    obtain r st1 where sl: "window_slice threads k c a change grinding s n cancelled w i st = Some (r, st1)"
        "fst (scan ?f n cancelled (take ?m (pending s w)) w st) = (case r of Inl e \<Rightarrow> Err e | Inr part \<Rightarrow> Ok (window_merge w part))"
        "grinding = Sequential \<longrightarrow> st1 = snd (scan ?f n cancelled (take ?m (pending s w)) w st)"
      using window_slice_scan [OF ok b g less.prems(1) Cons less.prems(3) lim less.prems(2), where st = st] by blast
    obtain r2 st2 where big: "scan ?f n cancelled (take ?m (pending s w)) w st = (r2, st2)"
      by (cases "scan ?f n cancelled (take ?m (pending s w)) w st")
    have st1: "grinding = Sequential \<longrightarrow> st1 = st2" using sl(3) unfolding big by simp
    have whole: "scan ?f n cancelled (pending s w) w st = (case r2 of
        Inl e \<Rightarrow> (Err e, st2)
      | Inr w' \<Rightarrow> if sw_stop w' = Exhausted then scan ?f n cancelled (drop ?m (pending s w)) w' st2 else (Ok w', st2))"
      using scan_append [OF less.prems(2), of ?f n cancelled "take ?m (pending s w)" "drop ?m (pending s w)" st] by (simp add: big)
    show ?thesis
    proof (cases r)
      case (Inl e)
      then show ?thesis using sl(1,2) st1 big whole by (subst search_async_loop.simps) (auto simp: h)
    next
      case (Inr part)
      define w' where "w' = window_merge w part"
      have r2: "r2 = Ok w'" using sl(2) big Inr by (simp add: w'_def)
      have keep: "w\<lparr>sw_addresses := x, sw_attempts := y, sw_next_index := z, sw_stop := Exhausted\<rparr> =
          w\<lparr>sw_addresses := x, sw_attempts := y, sw_next_index := z\<rparr>" for x y z
        using less.prems(2) by (cases w) simp
      have loop: "search_async_loop threads k c a change grinding s n cancelled w st =
          (if sw_stop w' \<noteq> Exhausted \<or> sw_attempts w' = se_max_attempts s then Some (Ok w', st1)
           else search_async_loop threads k c a change grinding s n cancelled w' st1)"
        by (subst search_async_loop.simps) (simp add: h sl(1) Inr Let_def w'_def window_merge_def keep)
      show ?thesis
      proof (cases "sw_stop w' = Exhausted")
        case False
        then show ?thesis using loop whole r2 st1 by simp
      next
        case True
        have p: "pending s w' = drop ?m (pending s w)" "window_ok w'"
          using scan_prefix [OF less.prems(1,2) big [unfolded r2] True] by simp_all
        have bd: "length (sw_addresses w') < n" "sw_attempts w' \<le> se_max_attempts s"
          using scan_bounds [OF less.prems(1,2) big [unfolded r2] True less.prems(3)] less.prems(4) by simp_all
        show ?thesis
        proof (cases "sw_attempts w' = se_max_attempts s")
          case at: True
          then have "drop ?m (pending s w) = []" using pending_Nil [OF p(2), of s] p(1) by simp
          then show ?thesis using loop whole r2 st1 at True by (simp del: drop_eq_Nil)
        next
          case False
          then have lt: "sw_attempts w' < se_max_attempts s" using bd(2) by simp
          have "length (pending s w') < length (pending s w)" using slice_limit_pos [of threads grinding] by (simp add: p Cons)
          from less.hyps [OF this p(2) True bd(1) lt, of st1] obtain st' where
            ih: "search_async_loop threads k c a change grinding s n cancelled w' st1 =
                Some (fst (scan ?f n cancelled (pending s w') w' st1), st')"
              "grinding = Sequential \<longrightarrow> st' = snd (scan ?f n cancelled (pending s w') w' st1)" by blast
          have "fst (scan ?f n cancelled (pending s w') w' st1) = fst (scan ?f n cancelled (pending s w') w' st2)"
          proof (cases "grinding = Sequential")
            case True
            then show ?thesis using st1 by simp
          next
            case False
            then have q: "quiet cancelled" using g by simp
            show ?thesis by (rule scan_quiet [OF q q])
          qed
          then show ?thesis using loop whole r2 st1 True False ih p(1) by auto
        qed
      qed
    qed
  qed
qed

lemma search_async_reference:
  assumes ok: "curve_ok c" "child_numbers_ok c" and g: "grinding = Sequential \<or> quiet cancelled"
    and start: "unat (se_start_index s) < 2 ^ 31"
  shows "\<exists>r st'. search_window_async threads k c a change grinding s n cancelled st = Some (r, st') \<and>
    r = fst (reference_window k c a change s n cancelled st) \<and>
    (grinding = Sequential \<longrightarrow> st' = snd (reference_window k c a change s n cancelled st))"
proof (cases "n = 0 \<or> se_max_attempts s = 0 \<or> 10000000 < se_max_attempts s")
  case True
  have "c_child_number c (se_start_index s) False \<noteq> None" using ok(2) start unfolding child_numbers_ok_def by (meson not_le)
  then obtain x where "child_number c (se_start_index s) False = Ok x" by (auto simp: child_number_def)
  then show ?thesis using True by (auto simp: search_window_async_def reference_window_def)
next
  case False
  have "c_child_number c (se_start_index s) False \<noteq> None" using ok(2) start unfolding child_numbers_ok_def by (meson not_le)
  then obtain x where x: "child_number c (se_start_index s) False = Ok x" by (auto simp: child_number_def)
  note w = window_start_ok [OF ok(2) x]
  have lim: "se_max_attempts s \<le> 10000000" and pos: "0 < se_max_attempts s" "0 < n"
    using False by (simp_all add: not_less word_neq_0_conv)
  show ?thesis
  proof (cases "account_branch k c a change")
    case (Inr b)
    have ws: "length (sw_addresses (window_start s)) < n" "sw_attempts (window_start s) < se_max_attempts s"
      using pos by (simp_all add: window_start_def)
    show ?thesis
      using search_async_loop_scan [OF ok Inr g lim w ws, of threads st] False x Inr
      by (simp add: search_window_async_def reference_window_def)
  next
    case (Inl e)
    let ?s = "\<lparr>se_zone = se_zone s, se_start_index = se_start_index s,
      se_max_attempts = min (se_max_attempts s) (slice_limit threads grinding)\<rparr>"
    have "window_slice threads k c a change grinding s n cancelled (window_start s) (se_start_index s) st = Some (Err e, st)"
    proof -
      have "0 < unat (se_max_attempts ?s)" using pos slice_limit_pos [of threads grinding]
        by (simp add: unat_min_word word_less_nat_alt)
      then have "se_max_attempts ?s \<noteq> 0" by auto
      moreover have "\<not> 10000000 < se_max_attempts ?s" using lim by (auto simp: min_less_iff_disj not_less)
      moreover have "\<not> 10000000 < se_max_attempts s" using lim by (simp add: not_less)
      ultimately show ?thesis using x Inl pos
        by (cases grinding) (simp_all add: window_slice_def window_start_def Let_def slice_limit_def search_window_def
            search_window_parallel_def)
    qed
    then have "search_async_loop threads k c a change grinding s n cancelled (window_start s) st = Some (Err e, st)"
      by (subst search_async_loop.simps) (simp add: window_start_def)
    then show ?thesis using False x Inl by (simp add: search_window_async_def reference_window_def)
  qed
qed

section \<open>The single search\<close>

lemma find_map_first_hit: "find_map_first (\<lambda>x. first_hit (g x)) xs = first_hit (concat (map g xs))"
proof (induction xs)
  case (Cons x xs)
  have "first_hit (ys @ zs) = (case first_hit ys of None \<Rightarrow> first_hit zs | Some y \<Rightarrow> Some y)" for ys zs
    by (induction ys rule: first_hit.induct) simp_all
  then show ?case using Cons by (simp split: option.split)
qed simp

lemma chunk_hit_candidates:
  assumes "curve_ok c" and base: "unat base + unat width \<le> 2 ^ 31"
  shows "chunk_hit k c a b change zone base width =
    first_hit (zip (u32_range 0 (unat width)) (map (candidate k c a b change zone) (u32_range base (unat width))))"
proof -
  let ?f = "candidate k c a b change zone"
  have run: "map (\<lambda>(offset, r). (word_of_nat r' * SCAN_BATCH + word_of_nat offset, r)) (enumerate 0 (pool_run k c a b change zone base width (word_of_nat r'))) =
      map (\<lambda>j. (word_of_nat j, ?f (base + word_of_nat j))) [r' * 32..<min (Suc r' * 32) (unat width)]"
    if "r' < run_count (unat width)" for r'
  proof -
    define hi where "hi = min (Suc r' * 32) (unat width)"
    show ?thesis
      unfolding pool_run_map [OF assms that] hi_def [symmetric]
      by (rule nth_equalityI) (simp_all add: nth_enumerate_eq SCAN_BATCH_def)
  qed
  have "unat width \<le> 2 ^ 31" using base by simp
  then have "chunk_hit k c a b change zone base width =
      first_hit (map (\<lambda>j. (word_of_nat j, ?f (base + word_of_nat j))) [0..<unat width])"
    using run_concat [OF run] by (simp add: chunk_hit_def find_map_first_hit pool_runs_count comp_def)
  also have "map (\<lambda>j. (word_of_nat j, ?f (base + word_of_nat j))) [0..<unat width] =
      zip (u32_range 0 (unat width)) (map ?f (u32_range base (unat width)))"
    by (rule nth_equalityI) simp_all
  finally show ?thesis .
qed

text \<open>The first hit of a chunk is where a scan for one address stops.\<close>

lemma scan_hit:
  assumes "quiet cancelled" and "sw_stop w = Exhausted" and "sw_addresses w = []" and "sw_attempts w = e + off"
  shows "fst (scan f 1 cancelled (u32_range (base + off) m) w st) =
    (case first_hit (zip (u32_range off m) (map f (u32_range (base + off) m))) of
       None \<Rightarrow> Ok (w\<lparr>sw_attempts := e + off + word_of_nat m,
         sw_next_index := if m = 0 then sw_next_index w else next_after (base + off + word_of_nat (m - 1))\<rparr>)
     | Some (_, Inl er) \<Rightarrow> Err er
     | Some (i, Inr address) \<Rightarrow> Ok (w\<lparr>sw_addresses := [address], sw_attempts := e + i + 1,
         sw_next_index := next_after (base + i), sw_stop := Filled\<rparr>))"
  using assms(2-)
proof (induction m arbitrary: off w st)
  case 0
  then show ?case by (cases w) simp
next
  case (Suc m)
  obtain st' where st: "cancelled st = (False, st')" using assms(1) by (rule quietE)
  show ?case
  proof (cases "f (base + off)")
    case (Inl er)
    then show ?thesis by (simp add: u32_range_Suc st take_candidate_def)
  next
    case (Inr r)
    show ?thesis
    proof (cases r)
      case (Some address)
      have "w\<lparr>sw_attempts := e + off + 1, sw_next_index := x, sw_addresses := [address], sw_stop := Filled\<rparr> =
          w\<lparr>sw_addresses := [address], sw_attempts := e + off + 1, sw_next_index := x, sw_stop := Filled\<rparr>" for x
        by (cases w) simp
      then show ?thesis using Suc.prems
        by (simp add: u32_range_Suc st take_candidate_def Inr Some Let_def)
    next
      case None
      define w' where "w' = w\<lparr>sw_attempts := e + off + 1, sw_next_index := next_after (base + off)\<rparr>"
      have t: "take_candidate 1 w (base + off) (f (base + off)) = Ok w'"
        using Suc.prems by (simp add: take_candidate_def Inr None Let_def w'_def)
      have w': "sw_stop w' = Exhausted" "sw_addresses w' = []" "sw_attempts w' = e + (off + 1)"
        using Suc.prems by (simp_all add: w'_def)
      have "fst (scan f 1 cancelled (u32_range (base + off) (Suc m)) w st) =
          fst (scan f 1 cancelled (u32_range (base + (off + 1)) m) w' st')"
        using w'(1) by (simp add: u32_range_Suc st t add.assoc del: One_nat_def)
      also note Suc.IH [OF w', of st']
      finally show ?thesis
        by (cases m) (auto simp: u32_range_Suc Inr None add.assoc w'_def split: option.splits sum.splits)
    qed
  qed
qed

definition parallel_window :: "search_request \<Rightarrow> u32 \<Rightarrow> window" where
  "parallel_window s e = \<lparr>sw_addresses = [], sw_attempts = e,
     sw_next_index = Option.bind (checked_add (se_start_index s) e) (\<lambda>i. if i < HARDENED then Some i else None), sw_stop = Exhausted\<rparr>"

lemma parallel_window_ok: "window_ok (parallel_window s e)"
  by (auto simp: window_ok_def parallel_window_def word_less_nat_alt bind_eq_Some_conv split: if_splits)

lemma checked_start:
  assumes "unat (se_start_index s) < 2 ^ 31" and "unat (e :: u32) \<le> 2 ^ 31"
  shows "checked_add (se_start_index s) e = Some (se_start_index s + e)" "unat (se_start_index s + e) = unat (se_start_index s) + unat e"
  using assms by (simp_all add: checked_add_def unat_add_exact)

lemma parallel_window_advance:
  assumes "unat (se_start_index s) < 2 ^ 31" and e: "unat (e + width) = unat e + unat width" and pos: "0 < unat width"
    and "unat (se_start_index s) + unat e + unat width \<le> 2 ^ 31"
  shows "(parallel_window s e)\<lparr>sw_attempts := e + width,
    sw_next_index := next_after (se_start_index s + e + word_of_nat (unat width - 1))\<rparr> = parallel_window s (e + width)"
proof -
  let ?b = "se_start_index s + e"
  have b: "unat ?b = unat (se_start_index s) + unat e" using assms by (intro checked_start) simp_all
  have one: "word_of_nat (unat width - 1) + 1 = width" using pos by (simp add: of_nat_diff)
  have "unat (word_of_nat (unat width - 1) :: u32) = unat width - 1" using assms(4) by (intro unat_of_nat_small) simp
  then have l: "unat (?b + word_of_nat (unat width - 1)) = unat ?b + (unat width - 1)"
    using assms(4) b by (subst unat_add_exact) simp_all
  have "?b + word_of_nat (unat width - 1) + 1 = se_start_index s + (e + width)" using one by (simp add: add.assoc)
  moreover have "unat (?b + word_of_nat (unat width - 1)) < 2 ^ 31" using l b assms(4) pos by simp
  ultimately have n: "next_after (?b + word_of_nat (unat width - 1)) =
      (if unat ?b + unat width = 2 ^ 31 then None else Some (se_start_index s + (e + width)))"
    using l pos by (simp add: next_after_eq)
  have c: "checked_add (se_start_index s) (e + width) = Some (se_start_index s + (e + width))"
    "unat (se_start_index s + (e + width)) = unat ?b + unat width"
    using checked_start [OF assms(1), of "e + width"] e b assms(4) by simp_all
  show ?thesis using n c assms(4) b by (auto simp: parallel_window_def word_less_nat_alt)
qed

lemma search_parallel_loop_scan:
  assumes ok: "curve_ok c" and q: "quiet cancelled" and chunk: "0 < unat chunk" and start: "unat (se_start_index s) < 2 ^ 31"
    and lim: "se_max_attempts s \<le> 10000000" and e: "e \<le> se_max_attempts s"
  shows "\<exists>st'. search_parallel_loop chunk k c a b change s cancelled e st =
    Some (rbind (fst (scan (candidate k c a b change (se_zone s)) 1 cancelled (pending s (parallel_window s e)) (parallel_window s e) st))
      window_search_result, st')"
  using e
proof (induction "unat (se_max_attempts s) - unat e" arbitrary: e st rule: less_induct)
  case less
  let ?f = "candidate k c a b change (se_zone s)" and ?w = "parallel_window s e"
  have w: "window_ok ?w" "sw_stop ?w = Exhausted" "sw_addresses ?w = []" "sw_attempts ?w = e + 0"
    by (simp_all add: parallel_window_ok) (simp_all add: parallel_window_def)
  have small: "unat e \<le> 10000000" using less.prems lim by (simp add: word_le_nat_alt)
  have small': "unat e \<le> 2 ^ 31" using small by simp
  note base = checked_start [OF start small']
  obtain st1 where st: "cancelled st = (False, st1)" using q by (rule quietE)
  show ?case
  proof (cases "pending s ?w")
    case Nil
    then have nil: "\<not> e < se_max_attempts s \<or> \<not> se_start_index s + e < HARDENED"
      using pending_Nil [OF w(1), of s] by (auto simp: parallel_window_def base split: if_splits)
    then have wd: "e < se_max_attempts s \<Longrightarrow> (if se_start_index s + e \<le> HARDENED then HARDENED - (se_start_index s + e) else 0) = 0"
      by (auto simp: not_less)
    have "min x 0 = (0 :: u32)" for x by (simp add: min_def)
    then show ?thesis using Nil wd nil
      by (subst search_parallel_loop.simps) (auto simp: st base window_search_result_def parallel_window_def Let_def)
  next
    case (Cons i "is")
    note h = pending_Cons [OF w(1) Cons]
    have i: "i = se_start_index s + e" "i \<le> HARDENED" "e < se_max_attempts s"
      using h by (auto simp: parallel_window_def base word_le_nat_alt split: if_splits)
    define width where "width = min (min chunk (se_max_attempts s - e)) (HARDENED - i)"
    note wd = chunk_width [OF w(1) Cons, of chunk, unfolded w(4) add_0_right, folded width_def]
    have pos: "0 < unat width" using wd(2) chunk by simp
    then have w0: "width \<noteq> 0" by auto
    define hit where "hit = first_hit (zip (u32_range 0 (unat width)) (map ?f (u32_range i (unat width))))"
    have hit: "chunk_hit k c a b change (se_zone s) i width = hit"
      unfolding hit_def by (rule chunk_hit_candidates [OF ok wd(3)])
    note sh = scan_hit [OF q w(2-4), of ?f i "unat width" st, unfolded add_0_right, folded hit_def, unfolded wd(1)]
    have split: "scan ?f 1 cancelled (pending s ?w) ?w st = (case scan ?f 1 cancelled (take (unat chunk) (pending s ?w)) ?w st of
        (Inl e, st') \<Rightarrow> (Err e, st')
      | (Inr w', st') \<Rightarrow> if sw_stop w' = Exhausted then scan ?f 1 cancelled (drop (unat chunk) (pending s ?w)) w' st' else (Ok w', st'))"
      using scan_append [OF w(2), of ?f 1 cancelled "take (unat chunk) (pending s ?w)" "drop (unat chunk) (pending s ?w)" st] by simp
    obtain r st2 where r: "scan ?f 1 cancelled (take (unat chunk) (pending s ?w)) ?w st = (r, st2)"
      by (cases "scan ?f 1 cancelled (take (unat chunk) (pending s ?w)) ?w st")
    have loop: "search_parallel_loop chunk k c a b change s cancelled e st = (case chunk_hit k c a b change (se_zone s) i width of
        Some (offset, Inl er) \<Rightarrow> Some (Err er, st1)
      | Some (offset, Inr address) \<Rightarrow> Some (Ok \<lparr>sr_address = address, sr_attempts = e + offset + 1, sr_next_index = next_after (i + offset)\<rparr>, st1)
      | None \<Rightarrow> search_parallel_loop chunk k c a b change s cancelled (e + width) st1)"
      using i(2,3) w0 by (subst search_parallel_loop.simps) (simp add: st base(1) Let_def flip: i(1) width_def)
    show ?thesis
    proof (cases hit)
      case (Some p)
      obtain off res where p: "p = (off, res)" by (cases p)
      show ?thesis
      proof (cases res)
        case (Inl er)
        then have "r = Err er" using sh unfolding r Some p by simp
        then show ?thesis using split r by (simp add: loop hit Some p Inl)
      next
        case (Inr address)
        then have "r = Ok (?w\<lparr>sw_addresses := [address], sw_attempts := e + off + 1, sw_next_index := next_after (i + off),
            sw_stop := Filled\<rparr>)" using sh unfolding r Some p by simp
        then show ?thesis using split r by (simp add: loop hit Some p Inr window_search_result_def)
      qed
    next
      case None
      have le: "unat (e + width) = unat e + unat width"
        using wd(3) i(1) base(2) by (subst unat_add_exact) simp_all
      have room: "unat (se_start_index s) + unat e + unat width \<le> 2 ^ 31" using wd(3) base(2) by (simp add: i(1))
      have r': "r = Ok (parallel_window s (e + width))"
        using sh pos parallel_window_advance [OF start le pos room] unfolding r None by (simp add: i(1))
      have ex: "sw_stop (parallel_window s (e + width)) = Exhausted" by (simp add: parallel_window_def)
      have p: "pending s (parallel_window s (e + width)) = drop (unat chunk) (pending s ?w)"
        using scan_prefix [OF w(1,2) r [unfolded r'] ex] by simp
      have "unat width \<le> unat (se_max_attempts s) - unat e"
        using i(3) unat_sub [of e "se_max_attempts s"] by (simp add: width_def unat_min_word)
      then have "e + width \<le> se_max_attempts s" "unat (se_max_attempts s) - unat (e + width) < unat (se_max_attempts s) - unat e"
        using i(3) pos le by (simp_all add: word_le_nat_alt word_less_nat_alt)
      with less.hyps obtain st' where "search_parallel_loop chunk k c a b change s cancelled (e + width) st1 =
          Some (rbind (fst (scan ?f 1 cancelled (pending s (parallel_window s (e + width))) (parallel_window s (e + width)) st1))
            window_search_result, st')" by blast
      then show ?thesis
        using loop hit None split r r' ex scan_quiet [OF q q, of ?f 1 "pending s (parallel_window s (e + width))"
            "parallel_window s (e + width)" st1 st2] by (simp add: p)
    qed
  qed
qed

lemma search_reference:
  assumes "curve_ok c" and "child_numbers_ok c"
  shows "search k c a change s cancelled st =
    Some (rbind (fst (reference_window k c a change s 1 cancelled st)) window_search_result,
      snd (reference_window k c a change s 1 cancelled st))"
  by (simp add: search_def search_window_reference [OF assms] split: prod.split)

lemma search_parallel_reference:
  assumes "curve_ok c" and "child_numbers_ok c" and "quiet cancelled"
  shows "\<exists>st'. search_parallel threads k c a change s cancelled st =
    Some (rbind (fst (reference_window k c a change s 1 cancelled st)) window_search_result, st')"
proof (cases "child_number c (se_start_index s) False")
  case (Inr x)
  have start: "unat (se_start_index s) < 2 ^ 31" using window_start_ok(1) [OF assms(2) Inr] by (simp add: window_ok_def window_start_def)
  have w: "parallel_window s 0 = window_start s"
    using start checked_start(1) [OF start, of 0] by (simp add: parallel_window_def window_start_def word_less_nat_alt)
  show ?thesis
  proof (cases "account_branch k c a change")
    case b: (Inr b)
    show ?thesis
    proof (cases "se_max_attempts s = 0 \<or> 10000000 < se_max_attempts s")
      case False
      then have "\<exists>st'. search_parallel_loop (pool_chunk threads CHUNK_PER_THREAD MAX_CHUNK) k c a b change s cancelled 0 st =
          Some (rbind (fst (scan (candidate k c a b change (se_zone s)) 1 cancelled (pending s (window_start s)) (window_start s) st))
            window_search_result, st')"
        by (intro search_parallel_loop_scan [OF assms(1,3) window_chunk_pos(2) start, of 0, unfolded w]) (simp_all add: not_less)
      then show ?thesis using False Inr b by (simp add: search_parallel_def reference_window_def)
    qed (auto simp: search_parallel_def reference_window_def Inr b)
  qed (auto simp: search_parallel_def reference_window_def Inr)
qed (simp add: search_parallel_def reference_window_def)

lemma first_hit_Some:
  "first_hit (zip (u32_range o' n) (map f (u32_range i n))) = Some (off, Inr address) \<longleftrightarrow>
    (\<exists>j < n. off = o' + word_of_nat j \<and> f (i + word_of_nat j) = Ok (Some address) \<and> (\<forall>l < j. f (i + word_of_nat l) = Ok None))"
proof (induction n arbitrary: i o')
  case (Suc n)
  have all: "(\<exists>j < Suc n. P j) \<longleftrightarrow> P 0 \<or> (\<exists>j < n. P (Suc j))" for P :: "nat \<Rightarrow> bool" by (rule Ex_less_Suc2)
  have head: "f i = Ok None" if "\<forall>l < Suc j. f (i + word_of_nat l) = Ok None" for j
    using that [rule_format, of 0] by simp
  show ?case
  proof (cases "f i = Ok None")
    case True
    have shift: "x + word_of_nat (Suc l) = x + 1 + word_of_nat l" for x :: u32 and l by (simp add: add.assoc)
    have "(\<forall>l < Suc j. f (i + word_of_nat l) = Ok None) \<longleftrightarrow> (\<forall>l < j. f (i + 1 + word_of_nat l) = Ok None)" for j
      unfolding All_less_Suc2 shift by (simp add: True)
    then show ?thesis unfolding all shift using Suc.IH [of "o' + 1" "i + 1"] by (simp add: u32_range_Suc True)
  next
    case False
    then have "\<not> (\<forall>l < Suc j. f (i + word_of_nat l) = Ok None)" for j using head by blast
    then have "(\<exists>j < Suc n. off = o' + word_of_nat j \<and> f (i + word_of_nat j) = Ok (Some address) \<and>
        (\<forall>l < j. f (i + word_of_nat l) = Ok None)) \<longleftrightarrow> off = o' \<and> f i = Ok (Some address)"
      unfolding all by (simp only: simp_thms) simp
    moreover have "first_hit ((o', f i) # xs) = Some (off, Inr address) \<longleftrightarrow> off = o' \<and> f i = Ok (Some address)" for xs
      using False by (cases "f i"; cases "projr (f i)") auto
    ultimately show ?thesis by (simp only: u32_range_Suc list.map zip_Cons_Cons)
  qed
qed simp

lemma candidate_derives:
  assumes "account_branch k c a change = Ok b"
  shows "candidate k c a b change zone i = Ok (Some d) \<longleftrightarrow> derive_address k c a change i = Ok d \<and> da_zone d = zone"
    and "candidate k c a b change zone i = Ok None \<longleftrightarrow> derive_address k c a change i = Err WaInvalidDerivedAddress \<or>
      (\<exists>d. derive_address k c a change i = Ok d \<and> da_zone d \<noteq> zone)"
  using assms by (auto simp: candidate_def classify_def derive_address_def split: sum.splits)

lemma search_first:
  assumes ok: "curve_ok c" "child_numbers_ok c" and q: "quiet cancelled" and start: "unat (se_start_index s) < 2 ^ 31"
    and lim: "0 < se_max_attempts s" "se_max_attempts s \<le> 10000000"
  shows "rbind (fst (reference_window k c a change s 1 cancelled st)) window_search_result = Ok r \<longleftrightarrow>
    (\<exists>j < min (unat (se_max_attempts s)) (2 ^ 31 - unat (se_start_index s)).
       derive_address k c a change (se_start_index s + word_of_nat j) = Ok (sr_address r) \<and> da_zone (sr_address r) = se_zone s \<and>
       (\<forall>l < j. derive_address k c a change (se_start_index s + word_of_nat l) = Err WaInvalidDerivedAddress \<or>
          (\<exists>d. derive_address k c a change (se_start_index s + word_of_nat l) = Ok d \<and> da_zone d \<noteq> se_zone s)) \<and>
       sr_attempts r = word_of_nat j + 1 \<and> sr_next_index r = next_after (se_start_index s + word_of_nat j))"
proof -
  have "c_child_number c (se_start_index s) False \<noteq> None" using ok(2) start unfolding child_numbers_ok_def by (meson not_le)
  then obtain x where x: "child_number c (se_start_index s) False = Ok x" by (auto simp: child_number_def)
  have lim': "\<not> (se_max_attempts s = 0 \<or> 10000000 < se_max_attempts s)" using lim by auto
  show ?thesis
  proof (cases "account_branch k c a change")
    case (Inl e)
    then show ?thesis using x lim' by (simp add: reference_window_def derive_address_def)
  next
    case (Inr b)
    let ?f = "candidate k c a b change (se_zone s)" and ?i = "se_start_index s" and ?w = "window_start s"
    define n where "n = min (unat (se_max_attempts s)) (2 ^ 31 - unat ?i)"
    have p: "pending s ?w = u32_range ?i n" by (simp add: pending_def window_start_def n_def)
    have w: "sw_stop ?w = Exhausted" "sw_addresses ?w = []" "sw_attempts ?w = 0 + 0" by (simp_all add: window_start_def)
    define hit where "hit = first_hit (zip (u32_range 0 n) (map ?f (u32_range ?i n)))"
    have ref: "fst (reference_window k c a change s 1 cancelled st) = fst (scan ?f 1 cancelled (u32_range ?i n) ?w st)"
      using x lim' Inr by (simp add: reference_window_def p)
    have "rbind (fst (reference_window k c a change s 1 cancelled st)) window_search_result = Ok r \<longleftrightarrow>
        (\<exists>off. hit = Some (off, Inr (sr_address r)) \<and> sr_attempts r = off + 1 \<and> sr_next_index r = next_after (?i + off))"
      unfolding ref scan_hit [OF q w, of ?f ?i n st, unfolded add_0_right, folded hit_def]
      by (cases r) (auto simp: window_search_result_def window_start_def split: option.splits sum.splits)
    also have "\<dots> \<longleftrightarrow> (\<exists>j < n. ?f (?i + word_of_nat j) = Ok (Some (sr_address r)) \<and> (\<forall>l < j. ?f (?i + word_of_nat l) = Ok None) \<and>
        sr_attempts r = word_of_nat j + 1 \<and> sr_next_index r = next_after (?i + word_of_nat j))"
      unfolding hit_def first_hit_Some by auto
    finally show ?thesis unfolding candidate_derives [OF Inr] n_def by (simp only: conj_assoc)
  qed
qed

text \<open>
  The asynchronous form checks the limits before the start index, the direct form after it: where
  both are out of range they report different errors.
\<close>

lemma async_limit_first:
  assumes "child_numbers_ok c" and "2 ^ 31 \<le> unat (se_start_index s)" and "se_max_attempts s = 0"
  shows "search_window k c a change s n cancelled st = Some (Err WaInvalidIndex, st)"
    and "search_window_async threads k c a change grinding s n cancelled st = Some (Err WaInvalidSearchLimit, st)"
proof -
  have "c_child_number c (se_start_index s) False = None" using assms(1,2) unfolding child_numbers_ok_def by blast
  then show "search_window k c a change s n cancelled st = Some (Err WaInvalidIndex, st)"
    by (simp add: search_window_def child_number_def)
qed (simp add: search_window_async_def assms(3))

section \<open>Properties of the address search\<close>

text \<open>
  C11: every way of filling a window is one and the same search. The batched window examines the
  candidates one by one as the reference scan does, cancellation points included, and never
  panics. The asynchronous window that grinds in slices returns exactly its result, and when nothing
  cancels it so do the window over a pool of any number of threads and its sliced form.
\<close>

theorem search_windows_agree:
  assumes "curve_ok c" and "child_numbers_ok c"
  shows "search_window k c a change s n cancelled st = Some (reference_window k c a change s n cancelled st) \<and>
    (unat (se_start_index s) < 2 ^ 31 \<longrightarrow>
       search_window_async threads k c a change Sequential s n cancelled st = search_window k c a change s n cancelled st) \<and>
    (quiet cancelled \<longrightarrow>
       map_option fst (search_window_parallel threads k c a change s n cancelled st) =
         map_option fst (search_window k c a change s n cancelled st) \<and>
       (unat (se_start_index s) < 2 ^ 31 \<longrightarrow>
          map_option fst (search_window_async threads k c a change Parallel s n cancelled st) =
            map_option fst (search_window k c a change s n cancelled st)))"
proof -
  have "search_window_async threads k c a change Sequential s n cancelled st =
      Some (reference_window k c a change s n cancelled st)" if "unat (se_start_index s) < 2 ^ 31"
    using search_async_reference [OF assms _ that, of Sequential cancelled threads k a change n st] by (auto simp: prod_eq_iff)
  moreover have "map_option fst (search_window_parallel threads k c a change s n cancelled st) =
      Some (fst (reference_window k c a change s n cancelled st))" if "quiet cancelled"
    using window_parallel_reference [OF assms that, of threads k a change s n st] by auto
  moreover have "map_option fst (search_window_async threads k c a change Parallel s n cancelled st) =
      Some (fst (reference_window k c a change s n cancelled st))" if "quiet cancelled" "unat (se_start_index s) < 2 ^ 31"
    using search_async_reference [OF assms _ that(2), of Parallel cancelled threads k a change n st] that(1) by auto
  ultimately show ?thesis by (simp add: search_window_reference [OF assms])
qed

text \<open>
  C12: a search that is not cancelled returns an address exactly when the exact-index derivation gives
  it at some index within the attempts and below the hardened indexes, in the requested zone, and
  every earlier index derives no valid address or one of another zone. It reports the number of
  candidates up to the match and the index after it. The search over a pool of any number of threads
  has the same outcome, errors included.
\<close>

theorem search_finds_first:
  assumes "curve_ok c" and "child_numbers_ok c" and "quiet cancelled" and "unat (se_start_index s) < 2 ^ 31"
    and "0 < se_max_attempts s" and "se_max_attempts s \<le> 10000000"
  shows "((\<exists>st'. search k c a change s cancelled st = Some (Ok r, st')) \<longleftrightarrow>
      (\<exists>j < min (unat (se_max_attempts s)) (2 ^ 31 - unat (se_start_index s)).
         derive_address k c a change (se_start_index s + word_of_nat j) = Ok (sr_address r) \<and> da_zone (sr_address r) = se_zone s \<and>
         (\<forall>l < j. derive_address k c a change (se_start_index s + word_of_nat l) = Err WaInvalidDerivedAddress \<or>
            (\<exists>d. derive_address k c a change (se_start_index s + word_of_nat l) = Ok d \<and> da_zone d \<noteq> se_zone s)) \<and>
         sr_attempts r = word_of_nat j + 1 \<and> sr_next_index r = next_after (se_start_index s + word_of_nat j))) \<and>
    map_option fst (search_parallel threads k c a change s cancelled st) = map_option fst (search k c a change s cancelled st)"
proof -
  obtain st' where "search_parallel threads k c a change s cancelled st =
      Some (rbind (fst (reference_window k c a change s 1 cancelled st)) window_search_result, st')"
    using search_parallel_reference [OF assms(1-3)] by blast
  then show ?thesis
    unfolding search_first [OF assms, of k a change st r, symmetric] search_reference [OF assms(1,2)] by simp
qed

text \<open>
  A concrete instance: the tweak of a child is its index, which is also the address it derives, so
  index \<open>2 ^ 24 - 1\<close> gives an address of the other ledger and \<open>2 ^ 24\<close> one of the second zone.
\<close>

definition sample_crates :: "(bytes, bytes, bytes, bytes, unit) hd_crates" where
  "sample_crates = \<lparr>
     c_secret_key = Some, c_projective = \<lambda>p. p, c_mul_by_generator = \<lambda>t. t, c_add = \<lambda>p q. q, c_generator = [1],
     c_is_identity = \<lambda>p. p = [], c_to_affine = \<lambda>p. p, c_batch_normalize = \<lambda>ps. ps,
     c_from_affine = \<lambda>p. (if p = [] then None else Some (take 20 p)),
     c_hmac_sha512 = \<lambda>key bs. drop 33 bs @ replicate 60 0,
     c_child_number = \<lambda>i hardened. (if unat i < 2 ^ 31 then Some i else None),
     c_xpub_derive = \<lambda>x i. Some (), c_xpub_bytes = \<lambda>x. [2] @ replicate 32 0, c_xpub_chain_code = \<lambda>x. replicate 32 0\<rparr>"

definition sample_account :: "unit account_public" where
  "sample_account = \<lparr>ap_key = (), ap_coin = CoinQuai, ap_account = 0\<rparr>"

definition sample_search :: search_request where
  "sample_search = \<lparr>se_zone = Cyprus2, se_start_index = 0xFFFFFF, se_max_attempts = 100\<rparr>"

definition sample_found :: search_result where
  "sample_found = \<lparr>sr_address = \<lparr>da_address = Address ([1] @ replicate 19 0), da_public_key = [2] @ replicate 12 0 @ [1] @ replicate 19 0,
     da_coin = CoinQuai, da_account = 0, da_change = False, da_index = 0x1000000, da_zone = Cyprus2\<rparr>,
     sr_attempts = 2, sr_next_index = Some 0x1000001\<rparr>"

lemma sample_crates_ok: "curve_ok sample_crates" "child_numbers_ok sample_crates" "quiet (\<lambda>st. (False, st))"
  by (auto simp: curve_ok_def child_numbers_ok_def quiet_def sample_crates_def)

lemma sample_branch:
  "account_branch sample_k256 sample_crates sample_account False =
     Ok \<lparr>sb_public_key = replicate 20 0, sb_chain_code = replicate 32 0, sb_compressed = [2] @ replicate 12 0 @ replicate 20 0\<rparr>"
  by (simp add: account_branch_def xpub_derive_child_def child_number_def scan_branch_new_def xpub_public_key_def
      public_key_from_sec1_def to_compressed_def sample_crates_def sample_k256_def sample_account_def)

lemma sample_child:
  assumes "index < HARDENED"
  shows "derive_address sample_k256 sample_crates sample_account False index =
    address_from_key sample_k256 sample_account (to_be 4 (unat index) @ replicate 16 0) False index"
proof -
  have "child_public_key sample_crates \<lparr>sb_public_key = x, sb_chain_code = y, sb_compressed = [2] @ replicate 12 0 @ replicate 20 0\<rparr> index =
      Ok (to_be 4 (unat index) @ replicate 16 0)" for x y
    using assms by (simp add: child_public_key_def branch_tweak_def secret_key_from_bytes_def add_tweak_def sample_crates_def not_le)
  then show ?thesis by (simp only: derive_address_def sample_branch rbind_Inr)
qed

lemma sample_to_be: "to_be 4 0xFFFFFF = [0, 255, 255, 255]" "to_be 4 0x1000000 = [1, 0, 0, 0]"
proof -
  have four: "(4 :: nat) = Suc (Suc (Suc (Suc 0)))" by simp
  have "to_be 4 v = [word_of_nat (v div 256 div 256 div 256 mod 256), word_of_nat (v div 256 div 256 mod 256),
      word_of_nat (v div 256 mod 256), word_of_nat (v mod 256)]" for v
    unfolding four by simp
  then show "to_be 4 0xFFFFFF = [0, 255, 255, 255]" "to_be 4 0x1000000 = [1, 0, 0, 0]" by simp_all
qed

lemma sample_derives:
  "derive_address sample_k256 sample_crates sample_account False 0xFFFFFF = Err WaInvalidDerivedAddress"
  "derive_address sample_k256 sample_crates sample_account False 0x1000000 = Ok (sr_address sample_found)"
proof -
  have h: "0xFFFFFF < HARDENED" "0x1000000 < HARDENED" by (simp_all add: word_less_nat_alt)
  have zeros: "replicate 19 (0 :: u8) = 0 # 0 # 0 # replicate 16 0" by (simp add: numeral_eq_Suc)
  show "derive_address sample_k256 sample_crates sample_account False 0xFFFFFF = Err WaInvalidDerivedAddress"
    unfolding sample_child [OF h(1)]
    by (simp add: sample_to_be address_from_key_def public_key_address_def to_uncompressed_def sample_k256_def address_zone_def
        address_ledger_def zone_from_byte_def sample_account_def)
  show "derive_address sample_k256 sample_crates sample_account False 0x1000000 = Ok (sr_address sample_found)"
    unfolding sample_child [OF h(2)]
    by (simp add: sample_to_be address_from_key_def public_key_address_def to_uncompressed_def sample_k256_def address_zone_def
        address_ledger_def zone_from_byte_def sample_account_def sample_found_def to_compressed_def zeros)
qed

theorem search_finds_first_witness:
  "(\<exists>st'. search sample_k256 sample_crates sample_account False sample_search (\<lambda>st. (False, st)) () = Some (Ok sample_found, st')) \<and>
   map_option fst (search_parallel 8 sample_k256 sample_crates sample_account False sample_search (\<lambda>st. (False, st)) ()) =
     map_option fst (search sample_k256 sample_crates sample_account False sample_search (\<lambda>st. (False, st)) ())"
proof -
  have limits: "unat (se_start_index sample_search) < 2 ^ 31" "0 < se_max_attempts sample_search" "se_max_attempts sample_search \<le> 10000000"
    by (simp_all add: sample_search_def)
  show ?thesis
    unfolding search_finds_first [OF sample_crates_ok limits, of sample_k256 sample_account False "()" sample_found 8,
        THEN conjunct1]
    by (intro conjI exI [of _ 1] search_finds_first [OF sample_crates_ok limits, THEN conjunct2])
      (simp_all add: sample_derives sample_search_def sample_found_def next_after_def checked_add_def word_less_nat_alt)
qed

theorem search_windows_agree_witness:
  "search_window sample_k256 sample_crates sample_account False sample_search 1 (\<lambda>st. (False, st)) () =
     Some (reference_window sample_k256 sample_crates sample_account False sample_search 1 (\<lambda>st. (False, st)) ()) \<and>
   search_window_async 4 sample_k256 sample_crates sample_account False Sequential sample_search 1 (\<lambda>st. (False, st)) () =
     search_window sample_k256 sample_crates sample_account False sample_search 1 (\<lambda>st. (False, st)) () \<and>
   map_option fst (search_window_parallel 4 sample_k256 sample_crates sample_account False sample_search 1 (\<lambda>st. (False, st)) ()) =
     map_option fst (search_window sample_k256 sample_crates sample_account False sample_search 1 (\<lambda>st. (False, st)) ()) \<and>
   map_option fst (search_window_async 4 sample_k256 sample_crates sample_account False Parallel sample_search 1 (\<lambda>st. (False, st)) ()) =
     map_option fst (search_window sample_k256 sample_crates sample_account False sample_search 1 (\<lambda>st. (False, st)) ())"
proof -
  have "unat (se_start_index sample_search) < 2 ^ 31" by (simp add: sample_search_def)
  then show ?thesis
    using search_windows_agree [OF sample_crates_ok(1,2), of sample_k256 sample_account False sample_search 1 "\<lambda>st. (False, st)" "()" 4]
      sample_crates_ok(3) by blast
qed

end
