(* ===== verification/Spec2Isabelle.thy ===== *)
theory Spec2Isabelle
  imports Sweep Fixed_Point Account_State Hd_Search
begin

text \<open>
  Verification of the Quai Rust SDK (the workspace of crates under \<open>src/crates\<close>).

  \<^bold>\<open>The program.\<close> The SDK builds, signs, encodes and tracks transactions of the two Quai
  ledgers: account transactions (Quai) and unspent-output transactions with fixed denominations
  (Qi). \<open>quai-primitives\<close> holds values and their text; \<open>quai-crypto\<close> wraps the curve
  library; \<open>quai-consensus\<close> defines the transactions, their validation and their canonical
  protobuf bytes; \<open>quai-wallet\<close> chooses coins and keeps the journals that hold nonces and signed
  bytes; provider, transport, signer and orchestration crates move these values to a node.

  \<^bold>\<open>Theories and sources.\<close> Names of definitions follow the source; a type's name is
  prefixed where two types share a method name.

  \<^item> \<open>Quai_Prelude\<close>: the integers \<open>u8\<close> to \<open>u1024\<close> as words, \<open>Result\<close> as a sum with
    the question mark (\<open>rbind\<close>), \<open>try_fold\<close>, checked arithmetic, big-endian bytes, ASCII text; the
    collections \<open>result_simps\<close> and \<open>byte_simps\<close>; the locales \<open>finite_code\<close>, \<open>partial_codec\<close> and
    \<open>label_code\<close> for enumerations, strict codecs and name tables.
  \<^item> \<open>Shard\<close>, \<open>Hex_Bytes\<close>, \<open>Address\<close>: \<open>shard.rs\<close>, \<open>address.rs\<close>, \<open>hash.rs\<close> and
    \<open>contract.rs\<close> of \<open>quai-primitives\<close>. Identifiers, addresses and hashes parse exactly their texts,
    checksums verify exactly their own spelling, contract preimages determine their parts.
  \<^item> \<open>Amount\<close>, \<open>Encoding\<close>, \<open>Fixed_Point\<close>: \<open>amount.rs\<close>, \<open>encoding.rs\<close>, \<open>numeric.rs\<close>,
    \<open>fixed.rs\<close>. Decimal parsing is characterised on every branch, formatting and parsing are
    inverse, two's complement and fixed-point arithmetic agree with integer arithmetic, rounding and
    wrap-around are given by integer formulas.
  \<^item> \<open>Consensus_Base\<close>, \<open>Wire\<close>: limits, errors, minimal integers, denominations and
    outpoints; the preflight walk over untrusted protobuf bytes, the bounded decoder and the scan for
    inputs of \<open>quai-consensus/src/lib.rs\<close> and \<open>proto.rs\<close>. The walk accepts exactly the byte strings
    of an inductive wire grammar within its message budget, so it terminates and never looks past its
    input; the scan finds the inputs of every message the decoder accepts.
  \<^item> \<open>Crypto\<close>: public keys and recoverable signatures (\<open>keys.rs\<close>, \<open>signatures.rs\<close>).
  \<^item> \<open>Quai_Tx\<close>, \<open>Qi_Tx\<close>, \<open>Qi_Conversion\<close>, \<open>Qi_Wrapping\<close>: the transactions of
    \<open>quai.rs\<close>, \<open>qi.rs\<close>, \<open>conversion.rs\<close>, \<open>wrapping.rs\<close> and the dispatch of \<open>qi_operation.rs\<close>.
    Validation is characterised by a declarative predicate; every signed decoder returns a
    transaction exactly when it is well formed, its signature verifies and the bytes are its own
    canonical bytes; builders and classifiers are inverse; the conversion discount is its rounded
    formula.
  \<^item> \<open>Inventory\<close>, \<open>Selection\<close>, \<open>Sweep\<close>: \<open>selection.rs\<close> and \<open>selection/aggregation.rs\<close> of
    \<open>quai-wallet\<close>. The locale \<open>coin_inventory\<close> states what splitting a coin keeps; decompositions
    succeed exactly when the inventory admits them; selections conserve value, use the fewest coins,
    and satisfy the denomination rule of the node; sweeps and aggregations are specified exactly.
  \<^item> \<open>Custody_Base\<close>, \<open>Account_Custody\<close>, \<open>Account_Journal\<close>, \<open>Account_State\<close>:
    \<open>account_custody.rs\<close>, \<open>custody_codec.rs\<close>, \<open>state/replacements.rs\<close> and the types they use from
    \<open>state.rs\<close>, \<open>discovery.rs\<close>, \<open>metadata.rs\<close> and \<open>full_backup/views.rs\<close>. The book is a record, each
    method a function returning the changed book or the error; \<open>custody_step\<close> is the step relation of
    all its mutations, and the locale \<open>journal\<close> lifts what one step keeps to every run. Reachable books
    validate, export and restore; claims and nonces are never lost or reused; the fields of an
    operation fit its state; a reserved nonce can be driven to inclusion; strict import accepts
    exactly the exports of sound books, through one exact \<open>reader\<close> per segment.

  \<^item> \<open>Hd_Derive\<close>, \<open>Hd_Search\<close>: public child derivation and the address searches of \<open>hd.rs\<close>,
    with the point tweaks of \<open>keys.rs\<close>. A batch that shares one inversion gives what the single
    derivations give. The window scan, the single search, the scans over a thread pool and the sliced
    asynchronous scan all return the result of a reference scan over one candidate after the other,
    they always return, and a search finds the first matching index in range.

  \<^bold>\<open>Composition.\<close> Journals call the signed decoders of the transaction theories; these
  call the bounded decoder and the signature layer; selections are checked against the rule the
  consensus types impose. The properties therefore speak of the composed definitions: a stored payload
  of a journal is one that the signed decoder accepts.

  \<^bold>\<open>Parameters.\<close> Third-party code is an argument: the record \<open>k256\<close> (curve points,
  ECDSA and Schnorr operations, Keccak), the record \<open>prost\<close> (the protobuf codec), the record
  \<open>hd_crates\<close> (projective points, HMAC-SHA512, the bip32 nodes), the base64 and base58 functions, the
  number of pool threads, the caller's fee estimator and cancellation callback. What the code relies on is stated where it is
  used: \<open>digest_ok\<close> (digests have 32 bytes), \<open>ecdsa_ok\<close>, \<open>schnorr_ok\<close> and \<open>point_ok\<close> (a parsed value
  is the one that was printed), \<open>prost_ok\<close> (a message decodes from its encoding, whose wire structure
  is within the budget), \<open>prost_empty\<close> (the empty input is the default message), \<open>curve_ok\<close> (batch
  normalization is pointwise away from the identity, which is no public key) and \<open>child_numbers_ok\<close>
  (child numbers are the indexes below \<open>2 ^ 31\<close>). Concrete instances satisfy them in the witnesses.

  \<^bold>\<open>Conventions and bounds.\<close> \<open>usize\<close> is taken as 64 bits; lengths and counts are natural
  numbers, checked against \<open>2 ^ 64\<close> where the code uses checked arithmetic. A panic is the value
  \<open>None\<close>. Hash and address values are byte lists with the array length as a well-formedness
  predicate. A \<open>BTreeMap\<close> is an association list sorted by key. Loops with a bound in the code
  recurse on that bound (at most 32 fee rounds, 15 denominations, 32 replacement edges, the message budget);
  the remaining recursions are on the bytes left. The search loops are partial functions into
  \<open>option\<close>, and their lemmas show that they return. No fuel is used beyond what the code has.

  \<^bold>\<open>Not modelled.\<close> Network, browser, database and file access
  (\<open>quai-rpc\<close>, \<open>quai-browser\<close>, \<open>quai-provider\<close>, \<open>storage.rs\<close>) and the asynchronous orchestration in
  \<open>quai-sdk\<close>: their content is interaction with services. Key generation, private derivation, mnemonics,
  keystores, encrypted backups and payment codes: third-party cryptography with thin framing. Text
  normalisation, JSON documents, the ABI codec, wallet discovery and the remaining custody books: not
  translated. In \<open>fixed.rs\<close> and \<open>numeric.rs\<close> the conversions to and from floating point are left out.
\<close>

end
